(* ===== verification/Prelude.thy ===== *)
theory Prelude
  imports Main "HOL-Library.Word"
begin

text \<open>
  Shared vocabulary of the development: the Go types the program uses (machine integers,
  byte slices, addresses and hashes), Go errors as values of a sum type, and the
  combinators for early return, for loops with early return and for methods that mutate
  their receiver.  The big-endian encodings are in \<open>Bytes\<close>, ordered
  dictionaries in \<open>Dict\<close>.
\<close>

section \<open>Go types\<close>

type_synonym byte = "8 word"
type_synonym bytes = "8 word list"
type_synonym u16 = "16 word"
type_synonym u32 = "32 word"
type_synonym u64 = "64 word"
type_synonym address = "160 word"
type_synonym hash = "256 word"

text \<open>The largest \<open>uint64\<close>, written \<open>^uint64(0)\<close> in the sources.\<close>

abbreviation max_u64 :: u64 where
  "max_u64 \<equiv> - 1"

section \<open>Errors\<close>

text \<open>
  A Go error of this program is either a message wrapping one sentinel
  (\<open>fmt.Errorf("%w: ...", sentinel)\<close>) or a sentinel wrapped around another
  error (\<open>fmt.Errorf("%w: %w", sentinel, err)\<close>).  \<open>ErrOther\<close> stands for
  the errors without a sentinel of this program (RPC failures, timeouts, I/O).
\<close>

datatype err_class =
    ErrFatal
  | ErrIntegrity
  | ErrInvalid
  | ErrMissing
  | ErrClosed
  | ErrBackfillPending
  | ErrHelp
  | ErrOther

datatype error = Err err_class string | Wrap err_class error

primrec errors_is :: "err_class \<Rightarrow> error \<Rightarrow> bool" where
  "errors_is c (Err c' m) = (c = c')"
| "errors_is c (Wrap c' e) = (c = c' \<or> errors_is c e)"

type_synonym 'a result = "error + 'a"

section \<open>Early return and loops with early return\<close>

named_theorems res_simps \<open>what a successful or failed computation says of its parts\<close>

definition bindE :: "'a result \<Rightarrow> ('a \<Rightarrow> 'b result) \<Rightarrow> 'b result" where
  "bindE m f = (case m of Inl e \<Rightarrow> Inl e | Inr x \<Rightarrow> f x)"

definition guardE :: "bool \<Rightarrow> error \<Rightarrow> unit result" where
  "guardE b e = (if b then Inr () else Inl e)"

primrec foldE :: "('a \<Rightarrow> 's \<Rightarrow> 's result) \<Rightarrow> 'a list \<Rightarrow> 's \<Rightarrow> 's result" where
  "foldE f [] s = Inr s"
| "foldE f (x # xs) s = bindE (f x s) (foldE f xs)"

primrec mapE :: "('a \<Rightarrow> 'b result) \<Rightarrow> 'a list \<Rightarrow> 'b list result" where
  "mapE f [] = Inr []"
| "mapE f (x # xs) = bindE (f x) (\<lambda>y. bindE (mapE f xs) (\<lambda>ys. Inr (y # ys)))"

lemma bindE_simps [simp]:
  "bindE (Inl e) f = Inl e"
  "bindE (Inr x) f = f x"
  by (simp_all add: bindE_def)

lemma bindE_Inr [res_simps]: "bindE m f = Inr y \<longleftrightarrow> (\<exists>x. m = Inr x \<and> f x = Inr y)"
  by (cases m) simp_all

lemma bindE_Inl [res_simps]:
  "bindE m f = Inl e \<longleftrightarrow> m = Inl e \<or> (\<exists>x. m = Inr x \<and> f x = Inl e)"
  by (cases m) simp_all

lemma guardE_Inr [res_simps]: "guardE b e = Inr u \<longleftrightarrow> b"
  by (simp add: guardE_def)

lemma guardE_Inl [res_simps]: "guardE b e = Inl e' \<longleftrightarrow> \<not> b \<and> e = e'"
  by (auto simp: guardE_def)

lemma guardE_True [simp]: "guardE True e = Inr ()"
  by (simp add: guardE_def)

lemma guardE_False [simp]: "guardE False e = Inl e"
  by (simp add: guardE_def)

lemma bindE_assoc: "bindE (bindE m f) g = bindE m (\<lambda>x. bindE (f x) g)"
  by (cases m) simp_all

lemma bindE_cong [fundef_cong]:
  "m = m' \<Longrightarrow> (\<And>x. m' = Inr x \<Longrightarrow> f x = g x) \<Longrightarrow> bindE m f = bindE m' g"
  by (cases m') simp_all

lemma foldE_append: "foldE f (xs @ ys) s = bindE (foldE f xs s) (foldE f ys)"
  by (induction xs arbitrary: s) (auto simp: bindE_def split: sum.splits)

text \<open>The loop rule: an invariant kept by every iteration holds at the normal exit.\<close>

lemma foldE_invariant:
  assumes "foldE f xs s = Inr s'" and "I s"
    and "\<And>x t t'. x \<in> set xs \<Longrightarrow> I t \<Longrightarrow> f x t = Inr t' \<Longrightarrow> I t'"
  shows "I s'"
  using assms by (induction xs arbitrary: s) (auto simp: res_simps)

text \<open>A loop whose iterations succeed under an invariant runs to its normal exit.\<close>

lemma foldE_total:
  assumes "I s" and "\<And>x t. x \<in> set xs \<Longrightarrow> I t \<Longrightarrow> \<exists>t'. f x t = Inr t' \<and> I t'"
  shows "\<exists>s'. foldE f xs s = Inr s' \<and> I s'"
  using assms
proof (induction xs arbitrary: s)
  case Nil
  then show ?case by simp
next
  case (Cons x xs)
  then obtain t where "f x s = Inr t" "I t" by (meson list.set_intros(1))
  with Cons show ?case by auto
qed

lemma mapE_length: "mapE f xs = Inr ys \<Longrightarrow> length ys = length xs"
  by (induction xs arbitrary: ys) (auto simp: res_simps)

lemma mapE_set: "mapE f xs = Inr ys \<Longrightarrow> y \<in> set ys \<Longrightarrow> \<exists>x\<in>set xs. f x = Inr y"
  by (induction xs arbitrary: ys) (auto simp: res_simps)

section \<open>Programs that change a state\<close>

text \<open>
  A method that mutates its receiver and may return an error: the error leaves the
  changes made so far in place, as in Go.
\<close>

type_synonym ('s, 'a) prog = "'s \<Rightarrow> 'a result \<times> 's"

definition ret :: "'a \<Rightarrow> ('s, 'a) prog" where
  "ret x = (\<lambda>s. (Inr x, s))"

definition throw :: "error \<Rightarrow> ('s, 'a) prog" where
  "throw e = (\<lambda>s. (Inl e, s))"

definition bindM :: "('s, 'a) prog \<Rightarrow> ('a \<Rightarrow> ('s, 'b) prog) \<Rightarrow> ('s, 'b) prog" where
  "bindM m f = (\<lambda>s. case m s of (Inl e, s') \<Rightarrow> (Inl e, s') | (Inr x, s') \<Rightarrow> f x s')"

definition liftE :: "'a result \<Rightarrow> ('s, 'a) prog" where
  "liftE r = (\<lambda>s. (r, s))"

definition guardM :: "bool \<Rightarrow> error \<Rightarrow> ('s, unit) prog" where
  "guardM b e = liftE (guardE b e)"

definition getM :: "('s, 's) prog" where
  "getM = (\<lambda>s. (Inr s, s))"

definition modifyM :: "('s \<Rightarrow> 's) \<Rightarrow> ('s, unit) prog" where
  "modifyM f = (\<lambda>s. (Inr (), f s))"

lemma ret_apply [simp]: "ret x s = (Inr x, s)"
  by (simp add: ret_def)

lemma throw_apply [simp]: "throw e s = (Inl e, s)"
  by (simp add: throw_def)

lemma liftE_apply [simp]: "liftE r s = (r, s)"
  by (simp add: liftE_def)

lemma guardM_apply [simp]: "guardM b e s = (if b then Inr () else Inl e, s)"
  by (simp add: guardM_def guardE_def)

lemma getM_apply [simp]: "getM s = (Inr s, s)"
  by (simp add: getM_def)

lemma modifyM_apply [simp]: "modifyM f s = (Inr (), f s)"
  by (simp add: modifyM_def)

lemma bindM_Inr [res_simps]:
  "bindM m f s = (Inr y, t) \<longleftrightarrow> (\<exists>x s'. m s = (Inr x, s') \<and> f x s' = (Inr y, t))"
  by (auto simp: bindM_def split: prod.splits sum.splits)

lemma bindM_Inl [res_simps]:
  "bindM m f s = (Inl e, t) \<longleftrightarrow>
     m s = (Inl e, t) \<or> (\<exists>x s'. m s = (Inr x, s') \<and> f x s' = (Inl e, t))"
  by (auto simp: bindM_def split: prod.splits sum.splits)

lemma bindM_apply:
  "bindM m f s = (case fst (m s) of Inl e \<Rightarrow> (Inl e, snd (m s)) | Inr x \<Rightarrow> f x (snd (m s)))"
  by (auto simp: bindM_def split: prod.splits sum.splits)

text \<open>What every program built from parts that keep a relation keeps.\<close>

definition preserves :: "('s \<Rightarrow> 's \<Rightarrow> bool) \<Rightarrow> ('s, 'a) prog \<Rightarrow> bool" where
  "preserves R m \<longleftrightarrow> (\<forall>s. R s (snd (m s)))"

named_theorems prog_intros \<open>rules that propagate a relation through a program\<close>

lemma preserves_ret [prog_intros]: "reflp R \<Longrightarrow> preserves R (ret x)"
  by (simp add: preserves_def reflpD)

lemma preserves_throw [prog_intros]: "reflp R \<Longrightarrow> preserves R (throw e)"
  by (simp add: preserves_def reflpD)

lemma preserves_liftE [prog_intros]: "reflp R \<Longrightarrow> preserves R (liftE r)"
  by (simp add: preserves_def reflpD)

lemma preserves_guardM [prog_intros]: "reflp R \<Longrightarrow> preserves R (guardM b e)"
  by (simp add: preserves_def reflpD)

lemma preserves_getM [prog_intros]: "reflp R \<Longrightarrow> preserves R getM"
  by (simp add: preserves_def reflpD)

lemma preserves_modifyM [prog_intros]: "(\<And>s. R s (f s)) \<Longrightarrow> preserves R (modifyM f)"
  by (simp add: preserves_def)

lemma preserves_bindM [prog_intros]:
  assumes "transp R" "preserves R m" "\<And>x. preserves R (f x)"
  shows "preserves R (bindM m f)"
  unfolding preserves_def
proof
  fix s
  from assms(2) have m: "R s (snd (m s))" by (simp add: preserves_def)
  show "R s (snd (bindM m f s))"
  proof (cases "fst (m s)")
    case (Inl e)
    with m show ?thesis by (simp add: bindM_apply)
  next
    case (Inr x)
    from assms(3) have "R (snd (m s)) (snd (f x (snd (m s))))" by (simp add: preserves_def)
    with m assms(1) have "R s (snd (f x (snd (m s))))" by (blast dest: transpD)
    with Inr show ?thesis by (simp add: bindM_apply)
  qed
qed

text \<open>
  The rules for a relation that is reflexive and transitive, for every way of putting programs
  together.  The synchronizers instantiate it with what their remote calls keep.
\<close>

locale kept =
  fixes R :: "'s \<Rightarrow> 's \<Rightarrow> bool"
  assumes refl: "reflp R" and trans: "transp R"
begin

lemma basic:
  "preserves R (ret x)" "preserves R (throw e)" "preserves R (liftE r)" "preserves R getM"
  by (intro prog_intros refl)+

lemma bind: "preserves R m \<Longrightarrow> (\<And>x. preserves R (f x)) \<Longrightarrow> preserves R (bindM m f)"
  by (intro preserves_bindM trans)

lemma branches:
  "preserves R m \<Longrightarrow> preserves R n \<Longrightarrow> preserves R (if b then m else n)"
  "preserves R m \<Longrightarrow> (\<And>y. preserves R (g y)) \<Longrightarrow> preserves R (case z of None \<Rightarrow> m | Some y \<Rightarrow> g y)"
  "(\<And>y. preserves R (h y)) \<Longrightarrow> (\<And>y. preserves R (k y)) \<Longrightarrow> preserves R (case w of Inl y \<Rightarrow> h y | Inr y \<Rightarrow> k y)"
  "(\<And>y v. preserves R (l y v)) \<Longrightarrow> preserves R (case p of (y, v) \<Rightarrow> l y v)"
  "preserves R m \<Longrightarrow> preserves R n \<Longrightarrow> preserves R (case b of True \<Rightarrow> m | False \<Rightarrow> n)"
  by (simp, cases z, simp_all, cases w, simp_all, cases p, simp_all, cases b, simp_all)

text \<open>Changing the error or recovering from it keeps what the program kept.\<close>

lemma outcome:
  assumes "preserves R m" and "\<And>r s. snd (f r s) = s"
  shows "preserves R (\<lambda>s. case m s of (r, s') \<Rightarrow> f r s')"
  using assms by (simp add: preserves_def case_prod_beta)

end

section \<open>Triples\<close>

text \<open>From \<open>P\<close> the program ends in \<open>F\<close> with an error or in \<open>Q\<close> without.\<close>

definition triple :: "('s \<Rightarrow> bool) \<Rightarrow> ('s \<Rightarrow> bool) \<Rightarrow> ('s, 'a) prog \<Rightarrow> ('a \<Rightarrow> 's \<Rightarrow> bool) \<Rightarrow> bool" where
  "triple F P m Q \<longleftrightarrow> (\<forall>s e s'. P s \<and> m s = (Inl e, s') \<longrightarrow> F s') \<and>
     (\<forall>s x s'. P s \<and> m s = (Inr x, s') \<longrightarrow> Q x s')"

lemma triple_bind:
  assumes "triple F P m B" and "\<And>x. triple F (B x) (f x) Q"
  shows "triple F P (bindM m f) Q"
  using assms unfolding triple_def bindM_Inr bindM_Inl by blast

lemma triple_pure: "(A \<Longrightarrow> triple F P m Q) \<Longrightarrow> triple F (\<lambda>s. P s \<and> A) m Q"
  unfolding triple_def by blast

lemma triple_ret: "(\<And>s. P s \<Longrightarrow> Q x s) \<Longrightarrow> triple F P (ret x) Q"
  by (simp add: triple_def)

lemma triple_throw: "(\<And>s. P s \<Longrightarrow> F s) \<Longrightarrow> triple F P (throw e) Q"
  by (simp add: triple_def)

lemma triple_ex: "(\<And>x. triple F (P x) m Q) \<Longrightarrow> triple F (\<lambda>s. \<exists>x. P x s) m Q"
  unfolding triple_def by blast

lemma triple_weaken: "triple F P m Q \<Longrightarrow> (\<And>x s. Q x s \<Longrightarrow> R x s) \<Longrightarrow> triple F P m R"
  unfolding triple_def by blast

lemma triple_conseq:
  assumes "triple F P m Q" "\<And>s. P' s \<Longrightarrow> P s" "\<And>s. F s \<Longrightarrow> F' s" "\<And>x s. Q x s \<Longrightarrow> Q' x s"
  shows "triple F' P' m Q'"
  using assms unfolding triple_def by blast

lemma tripleD:
  assumes "triple F P m Q" "P s"
  shows "m s = (Inl e, s') \<Longrightarrow> F s'" "m s = (Inr x, s') \<Longrightarrow> Q x s'"
  using assms unfolding triple_def by blast+

lemma triple_if: "(b \<Longrightarrow> triple F P m Q) \<Longrightarrow> (\<not> b \<Longrightarrow> triple F P n Q) \<Longrightarrow> triple F P (if b then m else n) Q"
  by simp

section \<open>What a program has learnt\<close>

text \<open>Facts about the calls made so far, that stay true as their number grows.\<close>

definition rising :: "(nat \<Rightarrow> bool) \<Rightarrow> bool" where
  "rising F \<longleftrightarrow> (\<forall>m n. m \<le> n \<longrightarrow> F m \<longrightarrow> F n)"

named_theorems rising_intros \<open>facts that stay true\<close>

lemma rising_basic [rising_intros]: "rising (\<lambda>n. a \<le> n)" "rising (\<lambda>_. P)"
  unfolding rising_def by (blast intro: order_trans)+

lemma rising_conj [rising_intros]: "rising F \<Longrightarrow> rising G \<Longrightarrow> rising (\<lambda>n. F n \<and> G n)"
  unfolding rising_def by blast

lemma rising_ex [rising_intros]: "(\<And>x. rising (F x)) \<Longrightarrow> rising (\<lambda>n. \<exists>x. F x n)"
  unfolding rising_def by blast

lemma rising_if [rising_intros]: "rising F \<Longrightarrow> rising G \<Longrightarrow> rising (\<lambda>n. if b then F n else G n)"
  by (cases b) simp_all

lemma risingD: "rising F \<Longrightarrow> F m \<Longrightarrow> m \<le> n \<Longrightarrow> F n"
  unfolding rising_def by blast

end
