(* ===== verification/Bytes.thy ===== *)
theory Bytes
  imports Prelude "HOL-Library.List_Lexorder"
begin

text \<open>
  Byte slices: ASCII literals as bytes, the big-endian encodings of
  \<open>encoding/binary\<close> and \<open>big.Int.SetBytes\<close>, both round trips, and the
  fact the database keys rest on: on slices of one length the lexicographic order
  (\<open>bytes.Compare\<close>) is the numeric order of the encoded values.
\<close>

section \<open>Big-endian numbers\<close>

definition be_nat :: "bytes \<Rightarrow> nat" where
  "be_nat bs = foldl (\<lambda>a b. a * 256 + unat b) 0 bs"

primrec be_bytes :: "nat \<Rightarrow> nat \<Rightarrow> bytes" where
  "be_bytes 0 v = []"
| "be_bytes (Suc n) v = be_bytes n (v div 256) @ [word_of_nat (v mod 256)]"

definition be64 :: "u64 \<Rightarrow> bytes" where
  "be64 w = be_bytes 8 (unat w)"

text \<open>\<open>binary.BigEndian.Uint64\<close>, \<open>Uint32\<close> and \<open>Uint16\<close> read the leading bytes.\<close>

definition uint64_be :: "bytes \<Rightarrow> u64" where
  "uint64_be bs = word_of_nat (be_nat (take 8 bs))"

definition uint32_be :: "bytes \<Rightarrow> u32" where
  "uint32_be bs = word_of_nat (be_nat (take 4 bs))"

definition uint16_be :: "bytes \<Rightarrow> u16" where
  "uint16_be bs = word_of_nat (be_nat (take 2 bs))"

text \<open>A string literal as bytes.\<close>

definition ascii :: "string \<Rightarrow> bytes" where
  "ascii s = map (\<lambda>c. of_char c) s"

section \<open>Numbers as text\<close>

text \<open>\<open>strconv.FormatUint\<close> in base 10, \<open>%x\<close> of a number and \<open>hex.EncodeToString\<close>.\<close>

fun decimal :: "nat \<Rightarrow> string" where
  "decimal n = (if n < 10 then [char_of (48 + n)] else decimal (n div 10) @ [char_of (48 + n mod 10)])"

declare decimal.simps [simp del]

definition hexDigit :: "nat \<Rightarrow> char" where
  "hexDigit n = char_of (if n < 10 then 48 + n else 87 + n)"

fun hexnum :: "nat \<Rightarrow> string" where
  "hexnum n = (if n < 16 then [hexDigit n] else hexnum (n div 16) @ [hexDigit (n mod 16)])"

declare hexnum.simps [simp del]

definition hexEncodeToString :: "bytes \<Rightarrow> string" where
  "hexEncodeToString bs = concat (map (\<lambda>b. [hexDigit (unat b div 16), hexDigit (unat b mod 16)]) bs)"

section \<open>Lemmas\<close>

lemma be_nat_Nil [simp]: "be_nat [] = 0"
  by (simp add: be_nat_def)

lemma be_nat_snoc [simp]: "be_nat (bs @ [b]) = be_nat bs * 256 + unat b"
  by (simp add: be_nat_def)

lemma unat_byte_less [simp]: "unat (b :: byte) < 256"
  using unsigned_less [of b, where ?'a = nat] by simp

lemma be_nat_append: "be_nat (xs @ ys) = be_nat xs * 256 ^ length ys + be_nat ys"
proof (induction ys rule: rev_induct)
  case Nil
  then show ?case by simp
next
  case (snoc y ys)
  have "be_nat (xs @ ys @ [y]) = be_nat (xs @ ys) * 256 + unat y"
    using be_nat_snoc [of "xs @ ys" y] by simp
  with snoc show ?case by (simp add: algebra_simps)
qed

lemma be_nat_Cons: "be_nat (b # bs) = unat b * 256 ^ length bs + be_nat bs"
  using be_nat_append [of "[b]" bs] by (simp add: be_nat_def)

lemma be_nat_less: "be_nat bs < 256 ^ length bs"
proof (induction bs rule: rev_induct)
  case Nil
  then show ?case by simp
next
  case (snoc b bs)
  from snoc have "be_nat bs * 256 + 256 \<le> 256 ^ length bs * 256"
    by (metis Suc_leI mult_Suc mult_le_mono1 add.commute)
  then have "be_nat bs * 256 + unat b < 256 ^ length bs * 256"
    using unat_byte_less [of b] by linarith
  then show ?case by (simp add: mult.commute)
qed

lemma length_be_bytes [simp]: "length (be_bytes n v) = n"
  by (induction n arbitrary: v) simp_all

lemma be_nat_be_bytes: "be_nat (be_bytes n v) = v mod 256 ^ n"
proof (induction n arbitrary: v)
  case 0
  then show ?case by simp
next
  case (Suc n)
  have "unat (word_of_nat (v mod 256) :: byte) = v mod 256"
    by (simp add: unat_of_nat take_bit_eq_mod)
  with Suc show ?case by (simp add: mod_mult2_eq)
qed

lemma be_bytes_be_nat: "be_bytes (length bs) (be_nat bs) = bs"
proof (induction bs rule: rev_induct)
  case Nil
  then show ?case by simp
next
  case (snoc b bs)
  have "unat b < 256" by simp
  then have "(be_nat bs * 256 + unat b) div 256 = be_nat bs"
    and "(be_nat bs * 256 + unat b) mod 256 = unat b" by simp_all
  with snoc show ?case by simp
qed

lemma be_nat_inject: "length xs = length ys \<Longrightarrow> be_nat xs = be_nat ys \<Longrightarrow> xs = ys"
  by (metis be_bytes_be_nat)

text \<open>Comparing slices of one length is comparing the numbers they encode.\<close>

lemma be_nat_less_iff:
  "length xs = length ys \<Longrightarrow> xs < ys \<longleftrightarrow> be_nat xs < be_nat ys"
proof (induction xs ys rule: list_induct2)
  case Nil
  then show ?case by simp
next
  case (Cons x xs y ys)
  let ?n = "256 ^ length ys :: nat"
  have lx: "be_nat xs < ?n" and ly: "be_nat ys < ?n"
    using be_nat_less [of xs] be_nat_less [of ys] Cons.hyps by simp_all
  have lt: "unat x * ?n + be_nat xs < unat y * ?n + be_nat ys" if "x < y"
  proof -
    from that have "Suc (unat x) \<le> unat y" by (simp add: word_less_nat_alt)
    then have "Suc (unat x) * ?n \<le> unat y * ?n" by (rule mult_le_mono1)
    with lx show ?thesis by simp
  qed
  have gt: "unat y * ?n + be_nat ys < unat x * ?n + be_nat xs" if "y < x"
  proof -
    from that have "Suc (unat y) \<le> unat x" by (simp add: word_less_nat_alt)
    then have "Suc (unat y) * ?n \<le> unat x * ?n" by (rule mult_le_mono1)
    with ly show ?thesis by simp
  qed
  show ?case
  proof (cases x y rule: linorder_cases)
    case less
    with lt Cons.hyps show ?thesis by (simp add: be_nat_Cons)
  next
    case equal
    with Cons show ?thesis by (simp add: be_nat_Cons)
  next
    case greater
    with gt Cons.hyps show ?thesis by (auto simp: be_nat_Cons)
  qed
qed

lemma length_be64 [simp]: "length (be64 w) = 8"
  by (simp add: be64_def)

lemma be_nat_be64 [simp]: "be_nat (be64 w) = unat w"
proof -
  have "unat w < 256 ^ 8" using unsigned_less [of w, where ?'a = nat] by simp
  then show ?thesis by (simp add: be64_def be_nat_be_bytes)
qed

lemma be64_inject [simp]: "be64 v = be64 w \<longleftrightarrow> v = w"
  by (metis be_nat_be64 word_unat_eq_iff)

lemma be64_less_iff [simp]: "be64 v < be64 w \<longleftrightarrow> v < w"
  by (simp add: be_nat_less_iff word_less_nat_alt)

lemma uint64_be_be64 [simp]: "uint64_be (be64 w @ xs) = w"
  by (simp add: uint64_be_def)

lemma be64_uint64_be: "8 \<le> length bs \<Longrightarrow> be64 (uint64_be bs) = take 8 bs"
proof -
  assume len: "8 \<le> length bs"
  then have l8: "length (take 8 bs) = 8" by simp
  then have "be_nat (take 8 bs) < 2 ^ 64" using be_nat_less [of "take 8 bs"] by simp
  then have "unat (uint64_be bs) = be_nat (take 8 bs)"
    by (simp add: uint64_be_def unat_of_nat take_bit_eq_mod)
  then show ?thesis
    using be_bytes_be_nat [of "take 8 bs"] l8 by (simp add: be64_def)
qed

text \<open>Lexicographic order under a common prefix.\<close>

lemma prefix_less_iff [simp]: "(ps @ xs < ps @ ys) = (xs < (ys :: 'a :: order list))"
  by (induction ps) simp_all

lemma prefix_le_iff [simp]: "(ps @ xs \<le> ps @ ys) = (xs \<le> (ys :: 'a :: order list))"
  by (simp add: le_less)

lemma prefix_le_append [simp]: "ps \<le> ps @ (xs :: 'a :: order list)"
  using prefix_le_iff [of ps "[]" xs] by simp

text \<open>What lies between a prefix and one of its extensions carries the prefix.\<close>

lemma between_prefix:
  "ps \<le> k \<Longrightarrow> k < ps @ xs \<Longrightarrow> \<exists>s. k = ps @ (s :: 'a :: linorder list)"
proof (induction ps arbitrary: k)
  case Nil
  then show ?case by simp
next
  case (Cons p ps)
  then show ?case by (cases k) auto
qed

text \<open>The same for the range up to the prefix with its last byte increased by one.\<close>

lemma between_successor:
  fixes x y :: "'a :: linorder"
  assumes "\<And>z. x \<le> z \<Longrightarrow> z < y \<Longrightarrow> z = x" and "ps @ [x] \<le> k" and "k < ps @ [y]"
  shows "\<exists>s. k = (ps @ [x]) @ s"
  using assms(2,3)
proof (induction ps arbitrary: k)
  case Nil
  then show ?case using assms(1) by (cases k) (auto simp: le_less)
next
  case (Cons p ps)
  then show ?case by (cases k) auto
qed

lemma less_append_right_iff:
  "length xs = length ys \<Longrightarrow> xs @ zs < ys \<longleftrightarrow> xs < (ys :: 'a :: linorder list)"
  by (induction xs ys rule: list_induct2) auto

end
