(* ===== verification/Dict.thy ===== *)
theory Dict
  imports Prelude
begin

text \<open>
  Ordered dictionaries: association lists with strictly increasing keys.  They represent
  the contents of the key-value database (an ordered store with point reads, writes,
  deletions and range iteration) and Go maps (whose JSON encoding lists the keys in
  order).  The locale \<open>ordered_dict\<close> states what a client may rely on; the
  interpretation \<open>od\<close> discharges it for the association lists.
\<close>

section \<open>Operations\<close>

type_synonym ('k, 'v) dict = "('k \<times> 'v) list"

abbreviation dget :: "('k, 'v) dict \<Rightarrow> 'k \<Rightarrow> 'v option" where
  "dget \<equiv> map_of"

fun dput :: "'k :: linorder \<Rightarrow> 'v \<Rightarrow> ('k, 'v) dict \<Rightarrow> ('k, 'v) dict" where
  "dput k v [] = [(k, v)]"
| "dput k v (p # m) =
     (if fst p < k then p # dput k v m
      else if fst p = k then (k, v) # m
      else (k, v) # p # m)"

definition ddel :: "'k \<Rightarrow> ('k, 'v) dict \<Rightarrow> ('k, 'v) dict" where
  "ddel k m = filter (\<lambda>p. fst p \<noteq> k) m"

text \<open>Iteration over the keys of the half-open range from \<open>lo\<close> to \<open>hi\<close>, in order.\<close>

definition dscan :: "'k :: linorder \<Rightarrow> 'k \<Rightarrow> ('k, 'v) dict \<Rightarrow> 'k list" where
  "dscan lo hi m = filter (\<lambda>k. lo \<le> k \<and> k < hi) (map fst m)"

definition dict_ok :: "('k :: linorder, 'v) dict \<Rightarrow> bool" where
  "dict_ok m \<longleftrightarrow> sorted_wrt (<) (map fst m)"

lemma sorted_le_last: "sorted xs \<Longrightarrow> x \<in> set xs \<Longrightarrow> x \<le> last xs"
  by (induction xs) auto

section \<open>The interface of an ordered dictionary\<close>

locale ordered_dict =
  fixes get :: "'d \<Rightarrow> 'k :: linorder \<Rightarrow> 'v option"
    and put :: "'k \<Rightarrow> 'v \<Rightarrow> 'd \<Rightarrow> 'd"
    and del :: "'k \<Rightarrow> 'd \<Rightarrow> 'd"
    and scan :: "'k \<Rightarrow> 'k \<Rightarrow> 'd \<Rightarrow> 'k list"
    and ok :: "'d \<Rightarrow> bool"
  assumes get_put: "ok d \<Longrightarrow> get (put k v d) = (get d)(k \<mapsto> v)"
    and get_del: "ok d \<Longrightarrow> get (del k d) = (get d)(k := None)"
    and set_scan: "ok d \<Longrightarrow> set (scan lo hi d) = {k. lo \<le> k \<and> k < hi \<and> get d k \<noteq> None}"
    and scan_sorted: "ok d \<Longrightarrow> sorted_wrt (<) (scan lo hi d)"
    and ok_put: "ok d \<Longrightarrow> ok (put k v d)"
    and ok_del: "ok d \<Longrightarrow> ok (del k d)"
begin

lemma scan_distinct: "ok d \<Longrightarrow> distinct (scan lo hi d)"
  using scan_sorted strict_sorted_iff by blast

lemma scan_empty_iff: "ok d \<Longrightarrow> scan lo hi d = [] \<longleftrightarrow> (\<forall>k. lo \<le> k \<and> k < hi \<longrightarrow> get d k = None)"
  using set_scan [of d lo hi] by (metis (mono_tags, lifting) empty_set mem_Collect_eq set_empty ex_in_conv)

text \<open>\<open>Last\<close> of an iterator is the greatest key of its range.\<close>

lemma last_scan_greatest:
  assumes "ok d" and "scan lo hi d \<noteq> []" and "lo \<le> k" "k < hi" "get d k \<noteq> None"
  shows "k \<le> last (scan lo hi d)"
proof -
  from assms have "k \<in> set (scan lo hi d)" by (simp add: set_scan)
  moreover from assms(1) have "sorted (scan lo hi d)"
    using scan_sorted strict_sorted_imp_sorted by blast
  ultimately show ?thesis by (simp add: sorted_le_last)
qed

lemma last_scan_in:
  "ok d \<Longrightarrow> scan lo hi d \<noteq> [] \<Longrightarrow>
     lo \<le> last (scan lo hi d) \<and> last (scan lo hi d) < hi \<and> get d (last (scan lo hi d)) \<noteq> None"
  using set_scan [of d lo hi] last_in_set [of "scan lo hi d"] by auto

end

section \<open>Association lists implement it\<close>

lemma dget_dput: "dget (dput k v m) = (dget m)(k \<mapsto> v)" if "dict_ok m"
  using that unfolding dict_ok_def
proof (induction m)
  case Nil
  then show ?case by auto
next
  case (Cons p m)
  obtain j w where p: "p = (j, w)" by force
  show ?case
  proof (cases "j < k")
    case True
    with Cons p show ?thesis by (auto simp: fun_eq_iff)
  next
    case False
    with Cons p show ?thesis by (auto simp: fun_eq_iff)
  qed
qed

lemma dget_dput_same: "dget (dput k v m) k = Some v"
  by (induction m) auto

lemma dget_ddel: "dget (ddel k m) = (dget m)(k := None)"
  by (induction m) (auto simp: ddel_def fun_eq_iff)

lemma set_keys_dput: "set (map fst (dput k v m)) = insert k (set (map fst m))"
  by (induction m) auto

lemma dict_ok_dput: "dict_ok m \<Longrightarrow> dict_ok (dput k v m)"
  unfolding dict_ok_def
proof (induction m)
  case Nil
  then show ?case by simp
next
  case (Cons p m)
  then show ?case using set_keys_dput [of k v m] by (auto simp: image_iff)
qed

lemma dict_ok_ddel: "dict_ok m \<Longrightarrow> dict_ok (ddel k m)"
  unfolding dict_ok_def ddel_def
  by (induction m) auto

lemma dget_in_keys: "dget m k \<noteq> None \<longleftrightarrow> k \<in> set (map fst m)"
  by (metis list.set_map map_of_eq_None_iff)

interpretation od: ordered_dict dget dput ddel dscan dict_ok
proof unfold_locales
  fix d :: "('k :: linorder, 'v) dict" and lo hi k :: 'k and v :: 'v
  assume ok: "dict_ok d"
  show "dget (dput k v d) = (dget d)(k \<mapsto> v)" using ok by (rule dget_dput)
  show "dget (ddel k d) = (dget d)(k := None)" by (rule dget_ddel)
  show "set (dscan lo hi d) = {k. lo \<le> k \<and> k < hi \<and> dget d k \<noteq> None}"
    unfolding dscan_def dget_in_keys by auto
  show "sorted_wrt (<) (dscan lo hi d)"
    using ok unfolding dscan_def dict_ok_def by (simp add: sorted_wrt_filter)
  show "dict_ok (dput k v d)" using ok by (rule dict_ok_dput)
  show "dict_ok (ddel k d)" using ok by (rule dict_ok_ddel)
qed

lemma dict_ok_Nil [simp]: "dict_ok []"
  by (simp add: dict_ok_def)

lemmas dict_simps = od.get_put od.get_del od.ok_put od.ok_del

end
