(* ===== verification/Types.thy ===== *)
theory Types
  imports Bytes Dict
begin

text \<open>
  The data of \<open>internal/store/types.go\<close> and \<open>internal/store/blob_types.go\<close>:
  one record per struct, with the fields in the order of the source.  A pointer is an
  \<open>option\<close>, a \<open>uint\<close> is 64 bits wide, \<open>common.Address\<close> and
  \<open>common.Hash\<close> are 160- and 256-bit words (the array read big-endian).
  \<open>Record\<close> embeds \<open>Enqueue\<close> as a record extension.
\<close>

section \<open>Deposits\<close>

record Identity =
  id_Version :: int
  id_L1 :: u64
  id_L2 :: u64
  id_Start :: u64
  id_Manager :: address

record State =
  st_Height :: "u64 option"
  st_Hash :: hash
  st_CTC :: address
  st_Latest :: "u64 option"

record Enqueue =
  enq_Index :: u64
  enq_Target :: address
  enq_Data :: string
  enq_GasLimit :: string
  enq_Origin :: address
  enq_BlockNumber :: u64
  enq_Timestamp :: u64
  enq_CTCIndex :: "u64 option"

record Record = Enqueue +
  rec_BlockHash :: hash
  rec_TxHash :: hash
  rec_LogIndex :: u64

definition zero_State :: State where
  "zero_State = \<lparr>st_Height = None, st_Hash = 0, st_CTC = 0, st_Latest = None\<rparr>"

section \<open>Blob records\<close>

definition BlobRetentionSeconds :: u64 where
  "BlobRetentionSeconds = 7 * 24 * 60 * 60"

record BlobIdentity =
  bid_Version :: int
  bid_Inbox :: address
  bid_BatchSender :: address
  bid_BlobSender :: address
  bid_Start :: u64

text \<open>
  \<open>BlobState.Auth\<close> is a \<open>json.RawMessage\<close>: the JSON text of the sender
  authorization.  \<open>RawNil\<close> is the nil message, \<open>RawNull\<close> the text
  \<open>null\<close>, \<open>RawInvalid\<close> a text that does not parse as an authorization.
  In a parsed document the maps and the schedule pointers may be null.
\<close>

record rawSchedule =
  raw_Batch :: "(u64, address) dict option"
  raw_Blob :: "(u64, address) dict option"

record rawAuthorization =
  raw_Manager :: address
  raw_Known :: "(address, rawSchedule option) dict option"

datatype RawMessage = RawNil | RawNull | RawInvalid string | RawDoc rawAuthorization

record BlobState =
  bst_Revision :: u64
  bst_Height :: "u64 option"
  bst_Hash :: hash
  bst_Cutoff :: u64
  bst_RetentionHeight :: "u64 option"
  bst_RetentionHash :: hash
  bst_Latest :: "u64 option"
  bst_Auth :: RawMessage

definition zero_BlobState :: BlobState where
  "zero_BlobState = \<lparr>bst_Revision = 0, bst_Height = None, bst_Hash = 0, bst_Cutoff = 0,
     bst_RetentionHeight = None, bst_RetentionHash = 0, bst_Latest = None, bst_Auth = RawNil\<rparr>"

record Frame =
  fr_ID :: "128 word"
  fr_Number :: u16
  fr_Last :: bool
  fr_Data :: bytes

record BlobTransaction =
  btx_Hash :: hash
  btx_BlockHash :: hash
  btx_Height :: u64
  btx_Timestamp :: u64
  btx_TxIndex :: u64
  btx_Missing :: bool
  btx_Frames :: "Frame list"

record Signature =
  sig_V :: u64
  sig_R :: string
  sig_S :: string

record DecodedTransaction =
  dtx_Nonce :: string
  dtx_GasPrice :: string
  dtx_GasLimit :: string
  dtx_Value :: string
  dtx_Target :: "address option"
  dtx_Data :: string
  dtx_Sig :: Signature

record BlockTransaction =
  tx_Index :: u64
  tx_BatchIndex :: u64
  tx_BlockNumber :: u64
  tx_Timestamp :: u64
  tx_GasLimit :: string
  tx_Target :: address
  tx_Origin :: address
  tx_Data :: string
  tx_QueueOrigin :: string
  tx_Value :: string
  tx_QueueIndex :: "u64 option"
  tx_Decoded :: "DecodedTransaction option"
  tx_Confirmed :: bool
  tx_SeqSign :: "string option"

record Block =
  blk_Index :: u64
  blk_BatchIndex :: u64
  blk_Timestamp :: u64
  blk_ExtraData :: string
  blk_Transactions :: "BlockTransaction list"
  blk_Confirmed :: bool

record BlockBatch =
  bat_Index :: u64
  bat_Root :: hash
  bat_Size :: u64
  bat_PrevTotalElements :: u64
  bat_ExtraData :: string
  bat_BlockNumber :: u64
  bat_Timestamp :: u64
  bat_Submitter :: address
  bat_L1TransactionHash :: hash

record BlockResponse =
  resp_Block :: "Block option"
  resp_Batch :: "BlockBatch option"

record ChannelRecord =
  ch_ID :: string
  ch_Sources :: "hash list"
  ch_Blocks :: "u64 list"
  ch_Batch :: BlockBatch
  ch_ExpiresAt :: u64

record BlobChannel =
  bc_Record :: ChannelRecord
  bc_Blocks :: "Block list"

section \<open>Stored documents\<close>

text \<open>
  A value of the database is the JSON text of one Go value.  The encoder is
  deterministic and decoding inverts it, so the text is represented by the value it
  encodes, tagged with its type: two texts are equal exactly if tag and value are, and
  decoding a text of another type, or a text this program never writes
  (\<open>BadDoc\<close>), fails.  The theories \<open>Store\<close> and \<open>BlobStore\<close>
  prove that every key only ever holds documents of its own type.  \<open>EmptyDoc\<close> is
  the empty value of the expiry keys.
\<close>

datatype doc =
    IdentityDoc Identity
  | StateDoc State
  | RecordDoc Record
  | BlobIdentityDoc BlobIdentity
  | BlobStateDoc BlobState
  | TxDoc BlobTransaction
  | ChannelDoc ChannelRecord
  | BlockDoc Block
  | StringDoc string
  | EmptyDoc
  | BadDoc string

fun as_State :: "doc \<Rightarrow> State option" where
  "as_State (StateDoc x) = Some x" | "as_State _ = None"

fun as_Record :: "doc \<Rightarrow> Record option" where
  "as_Record (RecordDoc x) = Some x" | "as_Record _ = None"

fun as_BlobIdentity :: "doc \<Rightarrow> BlobIdentity option" where
  "as_BlobIdentity (BlobIdentityDoc x) = Some x" | "as_BlobIdentity _ = None"

fun as_BlobState :: "doc \<Rightarrow> BlobState option" where
  "as_BlobState (BlobStateDoc x) = Some x" | "as_BlobState _ = None"

fun as_Tx :: "doc \<Rightarrow> BlobTransaction option" where
  "as_Tx (TxDoc x) = Some x" | "as_Tx _ = None"

fun as_Channel :: "doc \<Rightarrow> ChannelRecord option" where
  "as_Channel (ChannelDoc x) = Some x" | "as_Channel _ = None"

fun as_Block :: "doc \<Rightarrow> Block option" where
  "as_Block (BlockDoc x) = Some x" | "as_Block _ = None"

fun as_String :: "doc \<Rightarrow> string option" where
  "as_String (StringDoc x) = Some x" | "as_String _ = None"

lemma as_State_Some [simp]: "as_State d = Some x \<longleftrightarrow> d = StateDoc x"
  by (cases d) auto

lemma as_Record_Some [simp]: "as_Record d = Some x \<longleftrightarrow> d = RecordDoc x"
  by (cases d) auto

lemma as_BlobIdentity_Some [simp]: "as_BlobIdentity d = Some x \<longleftrightarrow> d = BlobIdentityDoc x"
  by (cases d) auto

lemma as_BlobState_Some [simp]: "as_BlobState d = Some x \<longleftrightarrow> d = BlobStateDoc x"
  by (cases d) auto

lemma as_Tx_Some [simp]: "as_Tx d = Some x \<longleftrightarrow> d = TxDoc x"
  by (cases d) auto

lemma as_Channel_Some [simp]: "as_Channel d = Some x \<longleftrightarrow> d = ChannelDoc x"
  by (cases d) auto

lemma as_Block_Some [simp]: "as_Block d = Some x \<longleftrightarrow> d = BlockDoc x"
  by (cases d) auto

lemma as_String_Some [simp]: "as_String d = Some x \<longleftrightarrow> d = StringDoc x"
  by (cases d) auto

end
