(* ===== verification/Store.thy ===== *)
theory Store
  imports Types
begin

text \<open>
  \<open>internal/store/\<close> without the Blob namespace: the key encoding, the reads and
  writes of the Pebble database, its identity, the deposit checkpoint and the deposit
  queue (\<open>store.go\<close>, \<open>identity.go\<close>, \<open>read.go\<close>,
  \<open>commit.go\<close>).  Pebble itself is a parameter: a database value carries its
  contents, an ordered dictionary, and which of its calls fail (\<open>pb_getErr\<close>,
  \<open>pb_setErr\<close>, \<open>pb_iterErr\<close>, \<open>pb_commitErr\<close>,
  \<open>pb_closeErr\<close>); an indexed batch is a copy that \<open>Commit\<close> installs.
  The mutex makes every exported method one atomic step.
\<close>

section \<open>The database\<close>

record pebble =
  pb_data :: "(bytes, doc) dict"
  pb_getErr :: "bytes \<Rightarrow> bool"
  pb_setErr :: "bytes \<Rightarrow> bool"
  pb_iterErr :: bool
  pb_commitErr :: bool
  pb_closeErr :: bool

record Store =
  s_db :: pebble
  s_closed :: bool

definition io_err :: error where
  "io_err = Err ErrOther ''pebble''"

definition batchSet :: "pebble \<Rightarrow> bytes \<Rightarrow> doc \<Rightarrow> pebble result" where
  "batchSet b k v =
     (if pb_setErr b k then Inl io_err else Inr (b\<lparr>pb_data := dput k v (pb_data b)\<rparr>))"

definition batchDelete :: "pebble \<Rightarrow> bytes \<Rightarrow> pebble result" where
  "batchDelete b k =
     (if pb_setErr b k then Inl io_err else Inr (b\<lparr>pb_data := ddel k (pb_data b)\<rparr>))"

definition batchCommit :: "pebble \<Rightarrow> pebble \<Rightarrow> unit result \<times> pebble" where
  "batchCommit db b = (if pb_commitErr db then (Inl io_err, db) else (Inr (), b))"

section \<open>Keys\<close>

definition identityKey :: bytes where
  "identityKey = ascii ''meta/identity''"

definition stateKey :: bytes where
  "stateKey = ascii ''meta/state''"

definition key :: "u64 \<Rightarrow> bytes" where
  "key n = ascii ''enqueue/'' @ be64 n"

section \<open>Reads\<close>

definition readValue :: "pebble \<Rightarrow> bytes \<Rightarrow> doc option result" where
  "readValue g k = (if pb_getErr g k then Inl io_err else Inr (dget (pb_data g) k))"

definition readState :: "pebble \<Rightarrow> State result" where
  "readState g =
     bindE (readValue g stateKey) (\<lambda>raw. case raw of
       None \<Rightarrow> Inr zero_State
     | Some d \<Rightarrow> (case as_State d of
         None \<Rightarrow> Inl (Wrap ErrIntegrity (Err ErrOther ''json''))
       | Some st \<Rightarrow> Inr st))"

definition readEnqueue :: "pebble \<Rightarrow> u64 option \<Rightarrow> Enqueue option result" where
  "readEnqueue g index0 =
     bindE (readState g) (\<lambda>st.
       let index = (case index0 of None \<Rightarrow> st_Latest st | Some i \<Rightarrow> Some i) in
       case index of
         None \<Rightarrow> Inr None
       | Some i \<Rightarrow> bindE (readValue g (key i)) (\<lambda>raw. case raw of
           None \<Rightarrow> (case st_Latest st of
               Some l \<Rightarrow> if i \<le> l then Inl (Err ErrIntegrity ''missing committed enqueue'') else Inr None
             | None \<Rightarrow> Inr None)
         | Some d \<Rightarrow> (case as_Record d of
               None \<Rightarrow> Inl (Wrap ErrIntegrity (Err ErrOther ''json''))
             | Some r \<Rightarrow> Inr (Some (Enqueue.truncate r)))))"

definition State :: "Store \<Rightarrow> State result" where
  "State s = (if s_closed s then Inl (Err ErrClosed ''pebble: closed'') else readState (s_db s))"

definition Get :: "Store \<Rightarrow> u64 option \<Rightarrow> Enqueue option result" where
  "Get s index =
     (if s_closed s then Inl (Err ErrClosed ''pebble: closed'') else readEnqueue (s_db s) index)"

section \<open>Opening and closing\<close>

definition initIdentity :: "pebble \<Rightarrow> Identity \<Rightarrow> unit result \<times> pebble" where
  "initIdentity db ident =
     (let raw = IdentityDoc ident in
      case readValue db identityKey of
        Inl e \<Rightarrow> (Inl e, db)
      | Inr (Some old) \<Rightarrow>
          (if old \<noteq> raw then (Inl (Err ErrIntegrity ''database identity mismatch''), db)
           else (Inr (), db))
      | Inr None \<Rightarrow>
          (if pb_iterErr db then (Inl io_err, db)
           else if pb_data db \<noteq> [] then (Inl (Err ErrIntegrity ''missing database identity''), db)
           else case batchSet db identityKey raw of
               Inl e \<Rightarrow> (Inl e, db)
             | Inr b \<Rightarrow> batchCommit db b))"

text \<open>
  \<open>Open\<close> over what is on disk at the path; \<open>mkdirErr\<close> and
  \<open>openErr\<close> are the failures of \<open>os.MkdirAll\<close> and
  \<open>pebble.Open\<close> (which also fails when another process holds the lock).
  The second component is what is on disk afterwards.
\<close>

definition Open :: "error option \<Rightarrow> error option \<Rightarrow> pebble \<Rightarrow> Identity \<Rightarrow> Store result \<times> pebble" where
  "Open mkdirErr openErr disk ident =
     (case mkdirErr of Some e \<Rightarrow> (Inl e, disk) | None \<Rightarrow>
      case openErr of Some e \<Rightarrow> (Inl e, disk) | None \<Rightarrow>
      case initIdentity disk ident of
        (Inl e, db) \<Rightarrow> (Inl e, db)
      | (Inr _, db) \<Rightarrow> (Inr \<lparr>s_db = db, s_closed = False\<rparr>, db))"

definition Close :: "Store \<Rightarrow> unit result \<times> Store" where
  "Close s =
     (if s_closed s then (Inr (), s)
      else (if pb_closeErr (s_db s) then Inl io_err else Inr (), s\<lparr>s_closed := True\<rparr>))"

section \<open>Commit\<close>

text \<open>One iteration of the loop over the records: the batch and \<open>after.Latest\<close>.\<close>

definition commitRecord :: "Record \<Rightarrow> pebble \<times> u64 option \<Rightarrow> (pebble \<times> u64 option) result" where
  "commitRecord r = (\<lambda>(b, latest).
     let raw = RecordDoc r in
     bindE (readValue b (key (enq_Index r))) (\<lambda>old. case old of
       Some d \<Rightarrow>
         (if d \<noteq> raw then Inl (Err ErrIntegrity ''conflicting enqueue'') else Inr (b, latest))
     | None \<Rightarrow>
         bindE (case latest of
             None \<Rightarrow> Inr 0
           | Some l \<Rightarrow> if l = max_u64 then Inl (Err ErrIntegrity []) else Inr (l + 1)) (\<lambda>expected.
         if enq_Index r \<noteq> expected then Inl (Err ErrIntegrity ''expected queue'')
         else bindE (batchSet b (key (enq_Index r)) raw) (\<lambda>b'.
           Inr (b', Some (enq_Index r))))))"

definition Commit :: "Store \<Rightarrow> State \<Rightarrow> State \<Rightarrow> Record list \<Rightarrow> unit result \<times> Store" where
  "Commit s before after records =
     (if s_closed s then (Inl (Err ErrClosed ''pebble: closed''), s)
      else case readState (s_db s) of Inl e \<Rightarrow> (Inl e, s) | Inr actual \<Rightarrow>
        if actual \<noteq> before then (Inl (Err ErrIntegrity ''stale checkpoint''), s)
        else case foldE commitRecord records (s_db s, st_Latest before) of
          Inl e \<Rightarrow> (Inl e, s)
        | Inr (b, latest) \<Rightarrow>
            (case batchSet b stateKey (StateDoc (after\<lparr>st_Latest := latest\<rparr>)) of
               Inl e \<Rightarrow> (Inl e, s)
             | Inr b' \<Rightarrow>
                 let (r, db) = batchCommit (s_db s) b' in (r, s\<lparr>s_db := db\<rparr>)))"

section \<open>What the deposit part of the database represents\<close>

text \<open>
  The contract of the deposit store: a checkpoint \<open>st\<close> and a queue \<open>q\<close> of
  records, where the record at position \<open>i\<close> has index \<open>i\<close> and is
  stored under \<open>key i\<close>, nothing is stored under later keys, and
  \<open>Latest\<close> is the last position.
\<close>

definition state_of :: "pebble \<Rightarrow> State option" where
  "state_of db = (case dget (pb_data db) stateKey of None \<Rightarrow> Some zero_State | Some d \<Rightarrow> as_State d)"

definition latest_of :: "Record list \<Rightarrow> u64 option" where
  "latest_of q = (if q = [] then None else Some (word_of_nat (length q - 1)))"

definition queue_at :: "pebble \<Rightarrow> Record list \<Rightarrow> bool" where
  "queue_at db q \<longleftrightarrow> dict_ok (pb_data db) \<and> length q \<le> 2 ^ 64 \<and>
     (\<forall>i. dget (pb_data db) (key i) =
        (if unat i < length q then Some (RecordDoc (q ! unat i)) else None)) \<and>
     (\<forall>j < length q. enq_Index (q ! j) = word_of_nat j)"

definition queue_rep :: "pebble \<Rightarrow> State \<Rightarrow> Record list \<Rightarrow> bool" where
  "queue_rep db st q \<longleftrightarrow> queue_at db q \<and> state_of db = Some st \<and> st_Latest st = latest_of q"

text \<open>The abstract queue: a record is appended at the end or repeated unchanged.\<close>

definition queue_add :: "Record list \<Rightarrow> Record \<Rightarrow> Record list option" where
  "queue_add q r =
     (let i = unat (enq_Index r) in
      if i < length q then (if q ! i = r then Some q else None)
      else if i = length q then Some (q @ [r]) else None)"

primrec queue_append :: "Record list \<Rightarrow> Record list \<Rightarrow> Record list option" where
  "queue_append q [] = Some q"
| "queue_append q (r # rs) =
     (case queue_add q r of None \<Rightarrow> None | Some q' \<Rightarrow> queue_append q' rs)"

text \<open>A database none of whose calls fails.\<close>

definition fault_free :: "pebble \<Rightarrow> bool" where
  "fault_free db \<longleftrightarrow> (\<forall>k. \<not> pb_getErr db k) \<and> (\<forall>k. \<not> pb_setErr db k) \<and>
     \<not> pb_iterErr db \<and> \<not> pb_commitErr db"

section \<open>Database lemmas\<close>

lemma deposit_keys [simp]:
  "key n \<noteq> stateKey" "stateKey \<noteq> key n" "identityKey \<noteq> stateKey" "stateKey \<noteq> identityKey"
  "key n \<noteq> identityKey" "identityKey \<noteq> key n"
  by (simp_all add: key_def stateKey_def identityKey_def ascii_def)

lemma key_inject [simp]: "key m = key n \<longleftrightarrow> m = n"
  by (simp add: key_def)

lemma readValue_Inr [res_simps]:
  "readValue g k = Inr v \<longleftrightarrow> \<not> pb_getErr g k \<and> v = dget (pb_data g) k"
  by (auto simp: readValue_def)

lemma batchSet_Inr [res_simps]:
  "batchSet b k v = Inr b' \<longleftrightarrow> \<not> pb_setErr b k \<and> b' = b\<lparr>pb_data := dput k v (pb_data b)\<rparr>"
  by (auto simp: batchSet_def)

lemma batchDelete_Inr [res_simps]:
  "batchDelete b k = Inr b' \<longleftrightarrow> \<not> pb_setErr b k \<and> b' = b\<lparr>pb_data := ddel k (pb_data b)\<rparr>"
  by (auto simp: batchDelete_def)

lemma fault_free_ops [simp]:
  "fault_free db \<Longrightarrow> readValue db k = Inr (dget (pb_data db) k)"
  "fault_free db \<Longrightarrow> batchSet db k v = Inr (db\<lparr>pb_data := dput k v (pb_data db)\<rparr>)"
  "fault_free db \<Longrightarrow> batchDelete db k = Inr (db\<lparr>pb_data := ddel k (pb_data db)\<rparr>)"
  "fault_free db \<Longrightarrow> batchCommit db b = (Inr (), b)"
  "fault_free db \<Longrightarrow> \<not> pb_iterErr db"
  "fault_free (db\<lparr>pb_data := d\<rparr>) = fault_free db"
  by (simp_all add: fault_free_def readValue_def batchSet_def batchDelete_def batchCommit_def)

lemma readState_Inr: "readState g = Inr st \<Longrightarrow> state_of g = Some st"
  by (auto simp: readState_def state_of_def res_simps split: option.splits)

lemma readState_fault_free: "fault_free g \<Longrightarrow> state_of g = Some st \<Longrightarrow> readState g = Inr st"
  by (auto simp: readState_def state_of_def split: option.splits)

lemma queue_at_lookup:
  "queue_at db q \<Longrightarrow> dget (pb_data db) (key i) =
     (if unat i < length q then Some (RecordDoc (q ! unat i)) else None)"
  by (simp add: queue_at_def)

lemma queue_at_set_state: "queue_at db q \<Longrightarrow> queue_at (db\<lparr>pb_data := dput stateKey v (pb_data db)\<rparr>) q"
  by (simp add: queue_at_def dict_simps)

lemma queue_at_snoc:
  assumes "queue_at db q" and "unat (enq_Index r) = length q"
  shows "queue_at (db\<lparr>pb_data := dput (key (enq_Index r)) (RecordDoc r) (pb_data db)\<rparr>) (q @ [r])"
proof -
  have lt: "length q < 2 ^ 64"
    using assms(2) unsigned_less [of "enq_Index r", where ?'a = nat] by simp
  have "enq_Index r = word_of_nat (length q)"
    by (simp flip: assms(2))
  with assms lt show ?thesis
    by (auto simp: queue_at_def dict_simps nth_append less_Suc_eq word_unat_eq_iff)
qed

lemma latest_of_snoc: "latest_of (q @ [r]) = Some (word_of_nat (length q))"
  by (simp add: latest_of_def)

lemma latest_of_succ: "latest_of q = Some l \<Longrightarrow> l + 1 = word_of_nat (length q)"
  by (cases q) (auto simp: latest_of_def add.commute)

lemma latest_of_le:
  "length q \<le> 2 ^ 64 \<Longrightarrow> latest_of q = Some l \<Longrightarrow> i \<le> l \<longleftrightarrow> unat i < length q"
  by (cases q) (auto simp: latest_of_def word_le_nat_alt unat_of_nat take_bit_eq_mod less_Suc_eq_le)

section \<open>Commit implements the queue\<close>

text \<open>Whatever an iteration accepts, the abstract queue accepts with the same result.\<close>

lemma commitRecord_sound:
  assumes "queue_at b q" and "commitRecord r (b, latest_of q) = Inr (b', l')"
  shows "\<exists>q'. queue_add q r = Some q' \<and> queue_at b' q' \<and> l' = latest_of q' \<and>
    state_of b' = state_of b \<and> pb_setErr b' = pb_setErr b"
proof (cases "unat (enq_Index r) < length q")
  case True
  with assms show ?thesis
    by (auto simp: commitRecord_def queue_add_def res_simps queue_at_lookup Let_def split: if_splits)
next
  case False
  note none = False
  from none assms(1) have key: "dget (pb_data b) (key (enq_Index r)) = None"
    by (simp add: queue_at_lookup)
  from assms(2) key obtain ex where
    ex: "(case latest_of q of None \<Rightarrow> Inr 0
          | Some l \<Rightarrow> if l = max_u64 then Inl (Err ErrIntegrity []) else Inr (l + 1)) = Inr ex"
    and idx: "enq_Index r = ex"
    and b': "b' = b\<lparr>pb_data := dput (key (enq_Index r)) (RecordDoc r) (pb_data b)\<rparr>"
    and l': "l' = Some (enq_Index r)"
    by (auto simp: commitRecord_def res_simps Let_def split: if_splits)
  have "enq_Index r = word_of_nat (length q)"
  proof (cases "latest_of q")
    case None
    with ex idx show ?thesis by (simp add: latest_of_def split: if_splits)
  next
    case (Some l)
    with ex idx show ?thesis by (auto split: if_splits dest: latest_of_succ)
  qed
  then have "unat (enq_Index r) = length q mod 2 ^ 64"
    by (simp add: unat_of_nat take_bit_eq_mod)
  then have len: "unat (enq_Index r) = length q"
    using none mod_less_eq_dividend [of "length q" "2 ^ 64"] by linarith
  have "state_of b' = state_of b"
    using assms(1) by (simp add: b' state_of_def queue_at_def dict_simps)
  with len none l' b' queue_at_snoc [OF assms(1) len] show ?thesis
    by (simp add: queue_add_def latest_of_snoc flip: len)
qed

lemma commitRecord_complete:
  assumes "queue_at b q" "fault_free b" and "queue_add q r = Some q'"
  shows "\<exists>b'. commitRecord r (b, latest_of q) = Inr (b', latest_of q') \<and> queue_at b' q' \<and> fault_free b'"
proof (cases "unat (enq_Index r) < length q")
  case True
  with assms show ?thesis
    by (auto simp: commitRecord_def queue_add_def queue_at_lookup Let_def split: if_splits)
next
  case False
  with assms(3) have len: "unat (enq_Index r) = length q" and q': "q' = q @ [r]"
    by (auto simp: queue_add_def Let_def split: if_splits)
  then have idx: "enq_Index r = word_of_nat (length q)"
    by (simp flip: len)
  have expected: "(case latest_of q of None \<Rightarrow> Inr 0
     | Some l \<Rightarrow> if l = max_u64 then Inl (Err ErrIntegrity []) else Inr (l + 1)) = (Inr (enq_Index r) :: u64 result)"
  proof (cases "latest_of q")
    case None
    with idx show ?thesis by (simp add: latest_of_def split: if_splits)
  next
    case (Some l)
    have "l \<noteq> max_u64"
    proof
      assume "l = max_u64"
      with latest_of_succ [OF Some] idx len have "length q = 0" by simp
      with Some show False by (simp add: latest_of_def)
    qed
    with Some idx latest_of_succ [OF Some] show ?thesis by simp
  qed
  with assms False len q' queue_at_snoc [OF assms(1) len] idx show ?thesis
    by (simp add: commitRecord_def queue_at_lookup Let_def latest_of_snoc)
qed

lemma commitRecords_sound:
  assumes "queue_at b q" and "foldE commitRecord rs (b, latest_of q) = Inr (b', l')"
  shows "\<exists>q'. queue_append q rs = Some q' \<and> queue_at b' q' \<and> l' = latest_of q' \<and>
    state_of b' = state_of b \<and> pb_setErr b' = pb_setErr b"
  using assms
proof (induction rs arbitrary: b q)
  case Nil
  then show ?case by auto
next
  case (Cons r rs)
  then obtain b1 l1 where one: "commitRecord r (b, latest_of q) = Inr (b1, l1)"
    and rest: "foldE commitRecord rs (b1, l1) = Inr (b', l')"
    by (auto simp: res_simps)
  from commitRecord_sound [OF Cons.prems(1) one] obtain q1 where
    q1: "queue_add q r = Some q1" "queue_at b1 q1" "l1 = latest_of q1"
    "state_of b1 = state_of b" "pb_setErr b1 = pb_setErr b" by blast
  from Cons.IH [OF q1(2)] rest q1 show ?case by auto
qed

lemma commitRecords_complete:
  assumes "queue_at b q" "fault_free b" and "queue_append q rs = Some q'"
  shows "\<exists>b'. foldE commitRecord rs (b, latest_of q) = Inr (b', latest_of q') \<and> queue_at b' q' \<and> fault_free b'"
  using assms
proof (induction rs arbitrary: b q)
  case Nil
  then show ?case by auto
next
  case (Cons r rs)
  then obtain q1 where q1: "queue_add q r = Some q1" "queue_append q1 rs = Some q'"
    by (auto split: option.splits)
  from commitRecord_complete [OF Cons.prems(1,2) q1(1)] obtain b1 where
    "commitRecord r (b, latest_of q) = Inr (b1, latest_of q1)" "queue_at b1 q1" "fault_free b1" by blast
  with Cons.IH [OF _ _ q1(2)] show ?case by auto
qed

lemma queue_add_extends: "queue_add q r = Some q' \<Longrightarrow> \<exists>ys. q' = q @ ys"
  by (auto simp: queue_add_def Let_def split: if_splits)

lemma queue_append_extends: "queue_append q rs = Some q' \<Longrightarrow> \<exists>ys. q' = q @ ys"
proof (induction rs arbitrary: q)
  case Nil
  then show ?case by simp
next
  case (Cons r rs)
  then obtain q1 where "queue_add q r = Some q1" "queue_append q1 rs = Some q'"
    by (auto split: option.splits)
  with Cons.IH show ?case by (metis append_assoc queue_add_extends)
qed

lemma Commit_Inr:
  assumes "Commit s before after rs = (Inr (), s')"
  obtains b latest where "\<not> s_closed s" "state_of (s_db s) = Some before"
    "foldE commitRecord rs (s_db s, st_Latest before) = Inr (b, latest)"
    "s' = s\<lparr>s_db := b\<lparr>pb_data := dput stateKey (StateDoc (after\<lparr>st_Latest := latest\<rparr>)) (pb_data b)\<rparr>\<rparr>"
  using assms
  by (auto simp: Commit_def batchCommit_def Let_def res_simps dest: readState_Inr
      split: if_splits sum.splits prod.splits)

lemma Commit_Inl: "Commit s before after rs = (Inl e, s') \<Longrightarrow> s' = s"
  by (auto simp: Commit_def batchCommit_def Let_def split: if_splits sum.splits prod.splits)

lemma Commit_sound:
  assumes rep: "queue_rep (s_db s) st q" and ok: "Commit s before after rs = (Inr (), s')"
  shows "before = st \<and> (\<exists>q'. queue_append q rs = Some q' \<and>
    queue_rep (s_db s') (after\<lparr>st_Latest := latest_of q'\<rparr>) q')"
proof -
  from ok obtain b latest where st: "state_of (s_db s) = Some before"
    and loop: "foldE commitRecord rs (s_db s, st_Latest before) = Inr (b, latest)"
    and s': "s' = s\<lparr>s_db := b\<lparr>pb_data := dput stateKey (StateDoc (after\<lparr>st_Latest := latest\<rparr>)) (pb_data b)\<rparr>\<rparr>"
    by (rule Commit_Inr)
  from rep st have bef: "before = st" and at: "queue_at (s_db s) q" and lat: "st_Latest st = latest_of q"
    by (simp_all add: queue_rep_def)
  from loop bef lat have "foldE commitRecord rs (s_db s, latest_of q) = Inr (b, latest)" by simp
  from commitRecords_sound [OF at this] obtain q' where
    q': "queue_append q rs = Some q'" "queue_at b q'" "latest = latest_of q'" by auto
  then have "queue_rep (s_db s') (after\<lparr>st_Latest := latest_of q'\<rparr>) q'"
    using queue_at_set_state [OF q'(2)] by (simp add: queue_rep_def s' state_of_def queue_at_def dict_simps)
  with bef q' show ?thesis by blast
qed

text \<open>Which calls fail does not depend on the contents.\<close>

lemma commitRecords_faults: "foldE commitRecord rs (b, l) = Inr (b', l') \<Longrightarrow> fault_free b \<Longrightarrow> fault_free b'"
proof (induction rs arbitrary: b l)
  case (Cons r rs)
  then obtain b1 l1 where step: "commitRecord r (b, l) = Inr (b1, l1)" and rest: "foldE commitRecord rs (b1, l1) = Inr (b', l')"
    by (auto simp: bindE_Inr)
  have "fault_free b1" using step Cons.prems(2)
    by (auto simp: commitRecord_def Let_def bindE_Inr res_simps fault_free_def split: option.splits if_splits)
  with Cons.IH [OF rest] show ?case .
qed simp

lemma Commit_faults:
  assumes "Commit s before after rs = (Inr (), s')"
  shows "(fault_free (s_db s) \<longrightarrow> fault_free (s_db s')) \<and> s_closed s' = s_closed s"
proof -
  from assms obtain b l where loop: "foldE commitRecord rs (s_db s, st_Latest before) = Inr (b, l)"
    and s': "s' = s\<lparr>s_db := b\<lparr>pb_data := dput stateKey (StateDoc (after\<lparr>st_Latest := l\<rparr>)) (pb_data b)\<rparr>\<rparr>" by (rule Commit_Inr)
  from commitRecords_faults [OF loop] s' show ?thesis by (auto simp: fault_free_def)
qed

lemma Commit_complete:
  assumes rep: "queue_rep (s_db s) st q" and "\<not> s_closed s" "fault_free (s_db s)"
    and app: "queue_append q rs = Some q'"
  shows "\<exists>s'. Commit s st after rs = (Inr (), s')"
proof -
  from rep have at: "queue_at (s_db s) q" and lat: "st_Latest st = latest_of q"
    and st: "state_of (s_db s) = Some st" by (simp_all add: queue_rep_def)
  from commitRecords_complete [OF at assms(3) app] obtain b where
    "foldE commitRecord rs (s_db s, latest_of q) = Inr (b, latest_of q')" "fault_free b" by blast
  with assms lat readState_fault_free [OF assms(3) st] show ?thesis
    by (simp add: Commit_def)
qed

text \<open>The keys a commit does not own keep their values.\<close>

definition deposit_key :: "bytes \<Rightarrow> bool" where
  "deposit_key k \<longleftrightarrow> k = stateKey \<or> (\<exists>i. k = key i)"

lemma commitRecord_frame:
  assumes "commitRecord r (b, l) = Inr (b', l')" "dict_ok (pb_data b)"
  shows "dict_ok (pb_data b') \<and> (\<forall>k. \<not> deposit_key k \<longrightarrow> dget (pb_data b') k = dget (pb_data b) k)"
  using assms
  by (auto simp: commitRecord_def res_simps deposit_key_def dict_simps Let_def split: option.splits if_splits)

lemma commitRecords_frame:
  assumes "foldE commitRecord rs (b, l) = Inr (b', l')" "dict_ok (pb_data b)"
  shows "dict_ok (pb_data b') \<and> (\<forall>k. \<not> deposit_key k \<longrightarrow> dget (pb_data b') k = dget (pb_data b) k)"
  using assms
proof (induction rs arbitrary: b l)
  case Nil
  then show ?case by simp
next
  case (Cons r rs)
  then obtain b1 l1 where "commitRecord r (b, l) = Inr (b1, l1)" "foldE commitRecord rs (b1, l1) = Inr (b', l')"
    by (auto simp: res_simps)
  with Cons.IH Cons.prems commitRecord_frame show ?case by metis
qed

lemma Commit_frame:
  assumes "Commit s before after rs = (Inr (), s')" "dict_ok (pb_data (s_db s))" "\<not> deposit_key k"
  shows "dget (pb_data (s_db s')) k = dget (pb_data (s_db s)) k"
proof -
  from assms(1) obtain b latest where
    loop: "foldE commitRecord rs (s_db s, st_Latest before) = Inr (b, latest)"
    and s': "s' = s\<lparr>s_db := b\<lparr>pb_data := dput stateKey (StateDoc (after\<lparr>st_Latest := latest\<rparr>)) (pb_data b)\<rparr>\<rparr>"
    by (rule Commit_Inr)
  from assms(3) have "k \<noteq> stateKey" by (simp add: deposit_key_def)
  with commitRecords_frame [OF loop assms(2)] assms(3) s' show ?thesis
    by (simp add: dict_simps)
qed

lemma Get_index:
  assumes "queue_rep (s_db s) st q" and "\<not> s_closed s" and "fault_free (s_db s)"
  shows "Get s (Some i) = Inr (if unat i < length q then Some (Enqueue.truncate (q ! unat i)) else None)"
proof -
  from assms(1) have at: "queue_at (s_db s) q" and lat: "st_Latest st = latest_of q"
    and st: "state_of (s_db s) = Some st" and len: "length q \<le> 2 ^ 64"
    by (simp_all add: queue_rep_def queue_at_def)
  show ?thesis
    using assms readState_fault_free [OF assms(3) st] at lat latest_of_le [OF len]
    by (auto simp: Get_def readEnqueue_def queue_at_lookup split: option.splits)
qed

lemma Get_latest:
  assumes "queue_rep (s_db s) st q" and "\<not> s_closed s" and "fault_free (s_db s)"
  shows "Get s None = Inr (if q = [] then None else Some (Enqueue.truncate (last q)))"
proof -
  from assms(1) have lat: "st_Latest st = latest_of q" and st: "state_of (s_db s) = Some st"
    and len: "length q \<le> 2 ^ 64" by (simp_all add: queue_rep_def queue_at_def)
  note rd = readState_fault_free [OF assms(3) st]
  show ?thesis
  proof (cases "q = []")
    case True
    with assms rd lat show ?thesis by (simp add: Get_def readEnqueue_def latest_of_def)
  next
    case False
    then obtain l where l: "latest_of q = Some l" "unat l = length q - 1"
      using len by (cases q) (auto simp: latest_of_def unat_of_nat take_bit_eq_mod)
    with assms rd lat have "Get s None = Get s (Some l)"
      by (auto simp: Get_def readEnqueue_def split: option.splits)
    with Get_index [OF assms, of l] False l show ?thesis by (simp add: last_conv_nth)
  qed
qed

section \<open>Properties\<close>

lemma Commit_succeeds:
  assumes "queue_rep (s_db s) st q" and "\<not> s_closed s" and "fault_free (s_db s)"
  shows "fst (Commit s before after rs) = Inr () \<longleftrightarrow> before = st \<and> queue_append q rs \<noteq> None"
proof
  assume "fst (Commit s before after rs) = Inr ()"
  then obtain s' where "Commit s before after rs = (Inr (), s')" by (metis prod.collapse)
  from Commit_sound [OF assms(1) this] show "before = st \<and> queue_append q rs \<noteq> None" by auto
next
  assume r: "before = st \<and> queue_append q rs \<noteq> None"
  then obtain q' where "queue_append q rs = Some q'" by blast
  from Commit_complete [OF assms this] r show "fst (Commit s before after rs) = Inr ()"
    by (metis fst_conv)
qed

text \<open>C6.  \<open>Commit\<close> implements the append-only queue.  On a database that represents
  checkpoint \<open>st\<close> and queue \<open>q\<close>: when it succeeds, the caller's snapshot was the
  stored checkpoint, the abstract queue accepts the records, and the new database
  represents the new checkpoint (with \<open>Latest\<close> the last index) and a queue that
  extends \<open>q\<close>; when it fails, nothing changed.  If the database is open and none of
  its calls fails, it succeeds exactly if the snapshot is current and the abstract queue
  accepts the records: gaps, conflicts and stale checkpoints are the only reasons to refuse.\<close>

theorem Commit_refines_queue:
  assumes "queue_rep (s_db s) st q" and "Commit s before after rs = (r, s')"
  shows "(r = Inr () \<longrightarrow> before = st \<and> (\<exists>ys. queue_append q rs = Some (q @ ys) \<and>
      queue_rep (s_db s') (after\<lparr>st_Latest := latest_of (q @ ys)\<rparr>) (q @ ys))) \<and>
    (r \<noteq> Inr () \<longrightarrow> s' = s) \<and>
    (\<not> s_closed s \<and> fault_free (s_db s) \<longrightarrow> (r = Inr () \<longleftrightarrow> before = st \<and> queue_append q rs \<noteq> None))"
proof (intro conjI impI)
  assume "r = Inr ()"
  with Commit_sound [OF assms(1)] assms(2) queue_append_extends
  show "before = st" "\<exists>ys. queue_append q rs = Some (q @ ys) \<and>
      queue_rep (s_db s') (after\<lparr>st_Latest := latest_of (q @ ys)\<rparr>) (q @ ys)" by blast+
next
  assume "r \<noteq> Inr ()"
  then obtain e where "r = Inl e" by (cases r) auto
  with assms(2) Commit_Inl show "s' = s" by blast
next
  assume "\<not> s_closed s \<and> fault_free (s_db s)"
  with Commit_succeeds [OF assms(1), of before after rs] assms(2)
  show "r = Inr () \<longleftrightarrow> before = st \<and> queue_append q rs \<noteq> None" by simp
qed

text \<open>C17.  Reads of the queue: a deposit is returned exactly for the committed indices, the
  latest one for a request without index, and a healthy database never reports an
  integrity error.\<close>

theorem Get_reads_queue:
  assumes "queue_rep (s_db s) st q" and "\<not> s_closed s" and "fault_free (s_db s)"
  shows "Get s (Some i) = Inr (if unat i < length q then Some (Enqueue.truncate (q ! unat i)) else None)
    \<and> Get s None = Inr (if q = [] then None else Some (Enqueue.truncate (last q)))"
  using Get_index [OF assms] Get_latest [OF assms] by simp

text \<open>C18.  Opening a database that works: it is accepted exactly if it is empty or already
  carries this identity; then the open store is what is on disk, the identity is
  recorded and no other key changed.  Otherwise the error is an integrity error and
  the disk is untouched, so a foreign database is never claimed.\<close>

theorem Open_claims_only_own_database:
  assumes "fault_free disk" and "dict_ok (pb_data disk)" and "Open None None disk ident = (r, disk')"
  shows "((\<exists>s. r = Inr s) \<longleftrightarrow>
      pb_data disk = [] \<or> dget (pb_data disk) identityKey = Some (IdentityDoc ident))
    \<and> (\<forall>s. r = Inr s \<longrightarrow> s = \<lparr>s_db = disk', s_closed = False\<rparr> \<and>
        dget (pb_data disk') = (dget (pb_data disk))(identityKey \<mapsto> IdentityDoc ident))
    \<and> (\<forall>e. r = Inl e \<longrightarrow> errors_is ErrIntegrity e \<and> disk' = disk)"
  using assms
  by (auto simp: Open_def initIdentity_def Let_def fun_upd_idem split: option.splits if_splits prod.splits)

section \<open>Sample database and witnesses\<close>

definition sample_pebble :: "(bytes, doc) dict \<Rightarrow> pebble" where
  "sample_pebble d = \<lparr>pb_data = d, pb_getErr = (\<lambda>_. False), pb_setErr = (\<lambda>_. False),
     pb_iterErr = False, pb_commitErr = False, pb_closeErr = False\<rparr>"

definition sample_store :: "(bytes, doc) dict \<Rightarrow> Store" where
  "sample_store d = \<lparr>s_db = sample_pebble d, s_closed = False\<rparr>"

definition sample_record :: "u64 \<Rightarrow> Record" where
  "sample_record i = \<lparr>enq_Index = i, enq_Target = 7, enq_Data = ''0x'', enq_GasLimit = ''100'',
     enq_Origin = 9, enq_BlockNumber = 10, enq_Timestamp = 1000, enq_CTCIndex = None,
     rec_BlockHash = 11, rec_TxHash = 12, rec_LogIndex = i\<rparr>"

definition sample_State :: State where
  "sample_State = \<lparr>st_Height = Some 10, st_Hash = 11, st_CTC = 5, st_Latest = None\<rparr>"

lemma fault_free_sample [simp]: "fault_free (sample_pebble d)"
  by (simp add: fault_free_def sample_pebble_def)

lemma sample_store_simps [simp]:
  "s_db (sample_store d) = sample_pebble d" "\<not> s_closed (sample_store d)"
  "pb_data (sample_pebble d) = d"
  by (simp_all add: sample_store_def sample_pebble_def)

lemma queue_rep_sample_empty: "queue_rep (sample_pebble []) zero_State []"
  by (simp add: queue_rep_def queue_at_def state_of_def latest_of_def zero_State_def)

lemma queue_append_sample: "queue_append [] [sample_record 0] = Some [sample_record 0]"
  by (simp add: queue_add_def sample_record_def)

theorem Commit_refines_queue_witness:
  "\<exists>s'. queue_rep (s_db (sample_store [])) zero_State [] \<and>
    Commit (sample_store []) zero_State sample_State [sample_record 0] = (Inr (), s') \<and>
    (\<exists>ys. queue_append [] [sample_record 0] = Some ([] @ ys) \<and>
      queue_rep (s_db s') (sample_State\<lparr>st_Latest := latest_of ([] @ ys)\<rparr>) ([] @ ys)) \<and>
    fst (Commit (sample_store []) zero_State sample_State [sample_record 1]) \<noteq> Inr ()"
proof -
  have rep: "queue_rep (s_db (sample_store [])) zero_State []"
    by (simp add: queue_rep_sample_empty)
  have gap: "queue_append [] [sample_record 1] = None"
    by (simp add: queue_add_def sample_record_def)
  obtain r1 t1 where refused: "Commit (sample_store []) zero_State sample_State [sample_record 1] = (r1, t1)" by force
  obtain r s' where run: "Commit (sample_store []) zero_State sample_State [sample_record 0] = (r, s')" by force
  from Commit_refines_queue [OF rep run] queue_append_sample have "r = Inr ()" by simp
  with Commit_refines_queue [OF rep run] Commit_refines_queue [OF rep refused] rep run refused gap show ?thesis by auto
qed

theorem Get_reads_queue_witness:
  "\<exists>s'. Commit (sample_store []) zero_State sample_State [sample_record 0] = (Inr (), s') \<and>
    Get s' (Some 0) = Inr (Some (Enqueue.truncate (sample_record 0))) \<and> Get s' (Some 1) = Inr None"
proof -
  have rep: "queue_rep (s_db (sample_store [])) zero_State []"
    by (simp add: queue_rep_sample_empty)
  let ?db = "sample_pebble (dput stateKey (StateDoc (sample_State\<lparr>st_Latest := Some 0\<rparr>))
      (dput (key 0) (RecordDoc (sample_record 0)) []))"
  have ok: "Commit (sample_store []) zero_State sample_State [sample_record 0] = (Inr (), (sample_store [])\<lparr>s_db := ?db\<rparr>)"
    by (simp add: Commit_def readState_def commitRecord_def sample_record_def zero_State_def
        Let_def fault_free_sample) (simp add: sample_pebble_def)
  from Commit_sound [OF rep ok] queue_append_sample
  have "queue_rep (s_db ((sample_store [])\<lparr>s_db := ?db\<rparr>)) (sample_State\<lparr>st_Latest := Some 0\<rparr>) [sample_record 0]"
    by (simp add: latest_of_def)
  from Get_reads_queue [OF this, of 0] Get_reads_queue [OF this, of 1] ok show ?thesis
    by simp
qed

theorem Open_claims_only_own_database_witness:
  "fault_free (sample_pebble []) \<and> (\<exists>s disk'. Open None None (sample_pebble []) \<lparr>id_Version = 1, id_L1 = 1,
      id_L2 = 1088, id_Start = 5, id_Manager = 3\<rparr> = (Inr s, disk') \<and> s_db s = disk')"
proof -
  define ident where "ident = \<lparr>id_Version = 1, id_L1 = 1, id_L2 = (1088 :: u64), id_Start = 5, id_Manager = 3\<rparr>"
  obtain r disk' where o: "Open None None (sample_pebble []) ident = (r, disk')" by fastforce
  have ff: "fault_free (sample_pebble [])" and ok: "dict_ok (pb_data (sample_pebble []))" by simp_all
  from Open_claims_only_own_database [OF ff ok o] obtain s where "r = Inr s" "s_db s = disk'" by auto
  with o show ?thesis by (auto simp: ident_def)
qed

end
