(* ===== verification/BlobStore.thy ===== *)
theory BlobStore
  imports Store
begin

text \<open>
  The Blob namespace of the database (\<open>internal/store/blob.go\<close>): its keys, the
  initialisation and identity check, the atomic commit of scanned Blob transactions and
  decoded channels, retention pruning through the expiry index, and the block reads
  that join deposits.  The operations follow the source; the theory
  \<open>BlobView\<close> says what the namespace represents.
\<close>

section \<open>Keys\<close>

definition blobKey :: "string \<Rightarrow> bytes \<Rightarrow> bytes" where
  "blobKey kind suffix = ascii (''blob/'' @ kind @ ''/'') @ suffix"

definition blobNumberKey :: "string \<Rightarrow> u64 \<Rightarrow> bytes" where
  "blobNumberKey kind n = blobKey kind (be64 n)"

definition expirationKey :: "string \<Rightarrow> u64 \<Rightarrow> bytes \<Rightarrow> bytes" where
  "expirationKey kind ts ident = blobNumberKey (''expiry/'' @ kind) ts @ ident"

definition blobIdentityKey :: bytes where
  "blobIdentityKey = ascii ''blob/identity''"

definition blobStateKey :: bytes where
  "blobStateKey = ascii ''blob/state''"

text \<open>\<open>hash[:]\<close>, and \<open>string(id)\<close> of a byte slice.\<close>

definition hash_bytes :: "hash \<Rightarrow> bytes" where
  "hash_bytes h = be_bytes 32 (unat h)"

definition string_of :: "bytes \<Rightarrow> string" where
  "string_of bs = map (\<lambda>b. char_of (unat b)) bs"

section \<open>Reading and writing documents\<close>

definition readJSON :: "(doc \<Rightarrow> 'a option) \<Rightarrow> pebble \<Rightarrow> bytes \<Rightarrow> bool \<Rightarrow> 'a option result" where
  "readJSON dec g k required =
     bindE (readValue g k) (\<lambda>raw. case raw of
       None \<Rightarrow> (if required then Inl (Err ErrIntegrity ''missing'') else Inr None)
     | Some d \<Rightarrow> (case dec d of
         None \<Rightarrow> Inl (Err ErrIntegrity ''invalid'')
       | Some x \<Rightarrow> Inr (Some x)))"

text \<open>\<open>readJSON\<close> with \<open>required\<close> set: the destination after a nil error.\<close>

definition readRequired :: "(doc \<Rightarrow> 'a option) \<Rightarrow> pebble \<Rightarrow> bytes \<Rightarrow> 'a result" where
  "readRequired dec g k =
     bindE (readJSON dec g k True) (\<lambda>x. case x of
       None \<Rightarrow> Inl (Err ErrIntegrity ''missing'')
     | Some v \<Rightarrow> Inr v)"

text \<open>A nil \<open>json.RawMessage\<close> is written as \<open>null\<close>.\<close>

definition marshalBlobState :: "BlobState \<Rightarrow> doc" where
  "marshalBlobState st =
     BlobStateDoc (if bst_Auth st = RawNil then st\<lparr>bst_Auth := RawNull\<rparr> else st)"

definition readBlobState :: "pebble \<Rightarrow> BlobState result" where
  "readBlobState g = readRequired as_BlobState g blobStateKey"

definition putIdentical :: "pebble \<Rightarrow> bytes \<Rightarrow> doc \<Rightarrow> pebble result" where
  "putIdentical b k raw =
     bindE (readValue b k) (\<lambda>old.
       if old \<noteq> None \<and> old \<noteq> Some raw then Inl (Err ErrIntegrity ''conflicting Blob record'')
       else batchSet b k raw)"

section \<open>Initialisation and simple reads\<close>

definition InitBlob :: "Store \<Rightarrow> BlobIdentity \<Rightarrow> unit result \<times> Store" where
  "InitBlob s ident =
     (if s_closed s then (Inl (Err ErrClosed ''pebble: closed''), s)
      else case readJSON as_BlobIdentity (s_db s) blobIdentityKey False of
        Inl e \<Rightarrow> (Inl e, s)
      | Inr (Some existing) \<Rightarrow>
          (if existing \<noteq> ident then (Inl (Err ErrIntegrity ''Blob database identity mismatch''), s)
           else (bindE (readBlobState (s_db s)) (\<lambda>_. Inr ()), s))
      | Inr None \<Rightarrow>
          (if pb_iterErr (s_db s) then (Inl io_err, s)
           else if dscan (ascii ''blob/'') (ascii ''blob0'') (pb_data (s_db s)) \<noteq> []
           then (Inl (Err ErrIntegrity ''missing Blob identity''), s)
           else case bindE (batchSet (s_db s) blobIdentityKey (BlobIdentityDoc ident)) (\<lambda>b.
                  batchSet b blobStateKey (marshalBlobState zero_BlobState)) of
               Inl e \<Rightarrow> (Inl e, s)
             | Inr b \<Rightarrow> let (r, db) = batchCommit (s_db s) b in (r, s\<lparr>s_db := db\<rparr>)))"

definition BlobState :: "Store \<Rightarrow> BlobState result" where
  "BlobState s =
     (if s_closed s then Inl (Err ErrClosed ''pebble: closed'') else readBlobState (s_db s))"

definition BlobTransaction :: "Store \<Rightarrow> hash \<Rightarrow> BlobTransaction option result" where
  "BlobTransaction s h =
     (if s_closed s then Inl (Err ErrClosed ''pebble: closed'')
      else bindE (readJSON as_Tx (s_db s) (blobKey ''tx'' (hash_bytes h)) False) (\<lambda>r. case r of
        None \<Rightarrow> Inr None
      | Some tx \<Rightarrow> if btx_Hash tx \<noteq> h then Inl (Err ErrIntegrity []) else Inr (Some tx)))"

section \<open>Commit\<close>

definition putTransaction :: "u64 \<Rightarrow> BlobTransaction \<Rightarrow> pebble \<Rightarrow> pebble result" where
  "putTransaction cutoff tx b =
     (if btx_Timestamp tx < cutoff then Inr b
      else if btx_Missing tx \<and> btx_Frames tx \<noteq> [] then Inl (Err ErrIntegrity [])
      else bindE (putIdentical b (blobKey ''tx'' (hash_bytes (btx_Hash tx))) (TxDoc tx)) (\<lambda>b1.
        batchSet b1 (expirationKey ''tx'' (btx_Timestamp tx) (hash_bytes (btx_Hash tx))) EmptyDoc))"

text \<open>The loop over the sources of a channel: the oldest timestamp so far.\<close>

definition checkSourceTx :: "pebble \<Rightarrow> hash \<Rightarrow> u64 \<Rightarrow> u64 result" where
  "checkSourceTx b h oldest =
     bindE (readRequired as_Tx b (blobKey ''tx'' (hash_bytes h))) (\<lambda>tx.
       if btx_Missing tx \<or> btx_Hash tx \<noteq> h then Inl (Err ErrIntegrity [])
       else Inr (if btx_Timestamp tx < oldest then btx_Timestamp tx else oldest))"

definition putBlock :: "ChannelRecord \<Rightarrow> u64 \<times> Block \<Rightarrow> pebble \<Rightarrow> pebble result" where
  "putBlock r = (\<lambda>(index, block) b.
     if blk_Index block \<noteq> index \<or> blk_BatchIndex block \<noteq> bat_Index (ch_Batch r)
     then Inl (Err ErrIntegrity [])
     else bindE (putIdentical b (blobNumberKey ''index'' (blk_Index block)) (StringDoc (ch_ID r))) (\<lambda>b1.
       putIdentical b1 (blobNumberKey ''block'' (blk_Index block)) (BlockDoc block)))"

definition putChannel :: "u64 \<Rightarrow> BlobChannel \<Rightarrow> pebble \<Rightarrow> pebble result" where
  "putChannel cutoff ch b =
     (let r = bc_Record ch in
      if ch_Sources r = [] \<or> length (ch_Blocks r) \<noteq> length (bc_Blocks ch) \<or> bc_Blocks ch = [] \<or> ch_ID r = []
      then Inl (Err ErrIntegrity [])
      else bindE (foldE (checkSourceTx b) (ch_Sources r) max_u64) (\<lambda>oldest.
        if ch_ExpiresAt r \<noteq> oldest then Inl (Err ErrIntegrity [])
        else if oldest < cutoff then Inr b
        else bindE (putIdentical b (blobKey ''channel'' (ascii (ch_ID r))) (ChannelDoc r)) (\<lambda>b1.
          bindE (foldE (putBlock r) (zip (ch_Blocks r) (bc_Blocks ch)) b1) (\<lambda>b2.
            batchSet b2 (expirationKey ''channel'' oldest (ascii (ch_ID r))) EmptyDoc))))"

section \<open>Pruning\<close>

definition expireBlock :: "string \<Rightarrow> u64 \<Rightarrow> pebble \<Rightarrow> pebble result" where
  "expireBlock cid index b =
     bindE (readRequired as_String b (blobNumberKey ''index'' index)) (\<lambda>pointer.
       if pointer \<noteq> cid then Inl (Err ErrIntegrity [])
       else bindE (readRequired as_Block b (blobNumberKey ''block'' index)) (\<lambda>block.
         if blk_Index block \<noteq> index then Inl (Err ErrIntegrity [])
         else bindE (batchDelete b (blobNumberKey ''index'' index)) (\<lambda>b1.
           batchDelete b1 (blobNumberKey ''block'' index))))"

definition expireRecord :: "pebble \<Rightarrow> string \<Rightarrow> bytes \<Rightarrow> u64 \<Rightarrow> pebble result" where
  "expireRecord b kind ident timestamp =
     bindE
       (if kind = ''channel'' then
          bindE (readRequired as_Channel b (blobKey kind ident)) (\<lambda>r.
            if ch_ID r \<noteq> string_of ident \<or> ch_ExpiresAt r \<noteq> timestamp then Inl (Err ErrIntegrity [])
            else foldE (expireBlock (ch_ID r)) (ch_Blocks r) b)
        else
          bindE (readRequired as_Tx b (blobKey kind ident)) (\<lambda>tx.
            if hash_bytes (btx_Hash tx) \<noteq> ident \<or> btx_Timestamp tx \<noteq> timestamp
            then Inl (Err ErrIntegrity []) else Inr b))
       (\<lambda>b1. batchDelete b1 (blobKey kind ident))"

text \<open>One step of the iterator: the key is the prefix, eight bytes of time and the identifier.\<close>

definition pruneKey :: "string \<Rightarrow> bytes \<Rightarrow> pebble \<Rightarrow> pebble result" where
  "pruneKey kind k b =
     (let lower = blobKey (''expiry/'' @ kind) [] in
      if length k < length lower + 8 then Inl (Err ErrIntegrity [])
      else let ident = drop (length lower + 8) k;
               timestamp = uint64_be (drop (length lower) k)
           in bindE (expireRecord b kind ident timestamp) (\<lambda>b1. batchDelete b1 k))"

definition pruneKind :: "string \<Rightarrow> u64 \<Rightarrow> pebble \<Rightarrow> pebble result" where
  "pruneKind kind cutoff b =
     (let lower = blobKey (''expiry/'' @ kind) [];
          upper = blobNumberKey (''expiry/'' @ kind) cutoff
      in if pb_iterErr b then Inl io_err
         else foldE (pruneKey kind) (dscan lower upper (pb_data b)) b)"

definition pruneBlob :: "u64 \<Rightarrow> pebble \<Rightarrow> pebble result" where
  "pruneBlob cutoff b = foldE (\<lambda>kind. pruneKind kind cutoff) [''channel'', ''tx''] b"

definition latestBlockIndex :: "pebble \<Rightarrow> u64 option result" where
  "latestBlockIndex b =
     (let p = blobKey ''index'' []; ks = dscan p (ascii ''blob/index0'') (pb_data b) in
      if pb_iterErr b then Inl io_err
      else if ks = [] then Inr None
      else if length (last ks) \<noteq> length p + 8 then Inl (Err ErrIntegrity [])
      else Inr (Some (uint64_be (drop (length p) (last ks)))))"

definition CommitBlob ::
  "Store \<Rightarrow> BlobState \<Rightarrow> BlobState \<Rightarrow> BlobTransaction list \<Rightarrow> BlobChannel list \<Rightarrow> unit result \<times> Store" where
  "CommitBlob s before after txs channels =
     (if s_closed s then (Inl (Err ErrClosed ''pebble: closed''), s)
      else case readBlobState (s_db s) of Inl e \<Rightarrow> (Inl e, s) | Inr actual \<Rightarrow>
        if actual \<noteq> before then (Inl (Err ErrIntegrity ''stale Blob checkpoint''), s)
        else if bst_Revision before = max_u64 \<or> bst_Cutoff after < bst_Cutoff before
        then (Inl (Err ErrIntegrity []), s)
        else case
          bindE (foldE (putTransaction (bst_Cutoff after)) txs (s_db s)) (\<lambda>b1.
          bindE (foldE (putChannel (bst_Cutoff after)) channels b1) (\<lambda>b2.
          bindE (pruneBlob (bst_Cutoff after) b2) (\<lambda>b3.
          bindE (latestBlockIndex b3) (\<lambda>latest.
          batchSet b3 blobStateKey (marshalBlobState
            (after\<lparr>bst_Latest := latest, bst_Revision := bst_Revision before + 1\<rparr>)))))) of
            Inl e \<Rightarrow> (Inl e, s)
          | Inr b \<Rightarrow> let (r, db) = batchCommit (s_db s) b in (r, s\<lparr>s_db := db\<rparr>))"

section \<open>Block reads\<close>

text \<open>
  The loop that fills deposit transactions from the queue.  \<open>None\<close> is the early
  return of the empty response when a deposit has not arrived.
\<close>

definition joinDeposit :: "pebble \<Rightarrow> BlockTransaction \<Rightarrow> BlockTransaction option result" where
  "joinDeposit g tx =
     (if tx_QueueOrigin tx \<noteq> ''l1'' then Inr (Some tx)
      else case tx_QueueIndex tx of
        None \<Rightarrow> Inl (Err ErrIntegrity [])
      | Some qi \<Rightarrow>
          if qi = max_u64 then Inl (Err ErrIntegrity [])
          else let queueIndex = (if 20397 \<le> qi then qi + 1 else qi) in
            bindE (readEnqueue g (Some queueIndex)) (\<lambda>found. case found of
              None \<Rightarrow> Inr None
            | Some enqueue \<Rightarrow> Inr (Some (tx\<lparr>
                tx_BlockNumber := enq_BlockNumber enqueue,
                tx_Timestamp := (if tx_Timestamp tx = 0 then enq_Timestamp enqueue else tx_Timestamp tx),
                tx_GasLimit := enq_GasLimit enqueue, tx_Target := enq_Target enqueue,
                tx_Origin := enq_Origin enqueue, tx_Data := enq_Data enqueue,
                tx_QueueIndex := Some queueIndex\<rparr>))))"

primrec joinDeposits :: "pebble \<Rightarrow> BlockTransaction list \<Rightarrow> BlockTransaction list option result" where
  "joinDeposits g [] = Inr (Some [])"
| "joinDeposits g (tx # txs) =
     bindE (joinDeposit g tx) (\<lambda>found. case found of
       None \<Rightarrow> Inr None
     | Some tx' \<Rightarrow> bindE (joinDeposits g txs) (\<lambda>rest. Inr (map_option ((#) tx') rest)))"

definition checkSourceRead :: "pebble \<Rightarrow> u64 \<Rightarrow> hash \<Rightarrow> unit \<Rightarrow> unit result" where
  "checkSourceRead g cutoff h u =
     bindE (readRequired as_Tx g (blobKey ''tx'' (hash_bytes h))) (\<lambda>tx.
       if btx_Hash tx \<noteq> h \<or> btx_Missing tx \<or> btx_Timestamp tx < cutoff
       then Inl (Err ErrIntegrity []) else Inr ())"

definition empty_response :: BlockResponse where
  "empty_response = \<lparr>resp_Block = None, resp_Batch = None\<rparr>"

definition GetBlock :: "Store \<Rightarrow> u64 option \<Rightarrow> BlockResponse result" where
  "GetBlock s index0 =
     (if s_closed s then Inl (Err ErrClosed ''pebble: closed'')
      else let g = s_db s in bindE (readBlobState g) (\<lambda>st.
        let latest = (index0 = None);
            index1 = (if latest then bst_Latest st else index0)
        in case index1 of None \<Rightarrow> Inr empty_response | Some index \<Rightarrow>
          bindE (readJSON as_String g (blobNumberKey ''index'' index) latest) (\<lambda>p. case p of
            None \<Rightarrow> Inr empty_response
          | Some cid \<Rightarrow>
            bindE (readRequired as_Channel g (blobKey ''channel'' (ascii cid))) (\<lambda>r.
            bindE (readRequired as_Block g (blobNumberKey ''block'' index)) (\<lambda>block.
            if index \<notin> set (ch_Blocks r) \<or> ch_ID r \<noteq> cid \<or> blk_Index block \<noteq> index
              \<or> blk_BatchIndex block \<noteq> bat_Index (ch_Batch r) \<or> ch_ExpiresAt r < bst_Cutoff st
            then Inl (Err ErrIntegrity [])
            else if ch_Sources r = [] then Inl (Err ErrIntegrity [])
            else bindE (foldE (checkSourceRead g (bst_Cutoff st)) (ch_Sources r) ()) (\<lambda>_.
              bindE (joinDeposits g (blk_Transactions block)) (\<lambda>found. case found of
                None \<Rightarrow> Inr empty_response
              | Some txs \<Rightarrow> Inr \<lparr>resp_Block = Some (block\<lparr>blk_Transactions := txs\<rparr>),
                  resp_Batch = Some (ch_Batch r)\<rparr>)))))))"

section \<open>Key lemmas\<close>

lemma ascii_append: "ascii (s @ t) = ascii s @ ascii t"
  by (simp add: ascii_def)

lemma length_ascii [simp]: "length (ascii s) = length s"
  by (simp add: ascii_def)

lemma char_of_unat_of_char [simp]: "char_of (unat (of_char c :: byte)) = c"
proof -
  have "unat (of_char c :: byte) = unat (of_nat (of_char c :: nat) :: byte)"
    by (simp add: of_nat_of_char)
  also have "\<dots> = (of_char c :: nat)"
    by (simp add: unat_of_nat take_bit_eq_mod nat_of_char_less_256)
  finally show ?thesis by simp
qed

lemma string_of_ascii [simp]: "string_of (ascii s) = s"
  by (simp add: string_of_def ascii_def comp_def)

lemma ascii_inject [simp]: "ascii s = ascii t \<longleftrightarrow> s = t"
  by (metis string_of_ascii)

lemma length_hash_bytes [simp]: "length (hash_bytes h) = 32"
  by (simp add: hash_bytes_def)

lemma hash_bytes_inject [simp]: "hash_bytes h = hash_bytes h' \<longleftrightarrow> h = h'"
proof
  assume eq: "hash_bytes h = hash_bytes h'"
  have "be_nat (hash_bytes x) = unat x" for x
    using unsigned_less [of x, where ?'a = nat] by (simp add: hash_bytes_def be_nat_be_bytes)
  with eq show "h = h'" by (metis word_unat_eq_iff)
qed simp

lemma blobKey_inject [simp]: "blobKey kind x = blobKey kind y \<longleftrightarrow> x = y"
  by (simp add: blobKey_def)

lemma blobNumberKey_inject [simp]: "blobNumberKey kind m = blobNumberKey kind n \<longleftrightarrow> m = n"
  by (simp add: blobNumberKey_def)

lemma expirationKey_inject [simp]:
  "expirationKey kind t x = expirationKey kind u y \<longleftrightarrow> t = u \<and> x = y"
  by (simp add: expirationKey_def blobNumberKey_def blobKey_def)

text \<open>Every key is a kind and a suffix; keys of different kinds differ, whatever their suffix.\<close>

lemmas key_defs = blobKey_def blobNumberKey_def expirationKey_def blobIdentityKey_def
  blobStateKey_def key_def stateKey_def identityKey_def ascii_def

lemma expirationKey_eq: "expirationKey kind t x = blobKey (''expiry/'' @ kind) (be64 t @ x)"
  by (simp add: expirationKey_def blobNumberKey_def blobKey_def)

lemma blobKey_kinds [simp]:
  "blobKey ''tx'' x \<noteq> blobKey ''channel'' y" "blobKey ''tx'' x \<noteq> blobKey ''index'' y"
  "blobKey ''tx'' x \<noteq> blobKey ''block'' y" "blobKey ''tx'' x \<noteq> blobKey ''expiry/tx'' y"
  "blobKey ''tx'' x \<noteq> blobKey ''expiry/channel'' y" "blobKey ''channel'' x \<noteq> blobKey ''tx'' y"
  "blobKey ''channel'' x \<noteq> blobKey ''index'' y" "blobKey ''channel'' x \<noteq> blobKey ''block'' y"
  "blobKey ''channel'' x \<noteq> blobKey ''expiry/tx'' y" "blobKey ''channel'' x \<noteq> blobKey ''expiry/channel'' y"
  "blobKey ''index'' x \<noteq> blobKey ''tx'' y" "blobKey ''index'' x \<noteq> blobKey ''channel'' y"
  "blobKey ''index'' x \<noteq> blobKey ''block'' y" "blobKey ''index'' x \<noteq> blobKey ''expiry/tx'' y"
  "blobKey ''index'' x \<noteq> blobKey ''expiry/channel'' y" "blobKey ''block'' x \<noteq> blobKey ''tx'' y"
  "blobKey ''block'' x \<noteq> blobKey ''channel'' y" "blobKey ''block'' x \<noteq> blobKey ''index'' y"
  "blobKey ''block'' x \<noteq> blobKey ''expiry/tx'' y" "blobKey ''block'' x \<noteq> blobKey ''expiry/channel'' y"
  "blobKey ''expiry/tx'' x \<noteq> blobKey ''tx'' y" "blobKey ''expiry/tx'' x \<noteq> blobKey ''channel'' y"
  "blobKey ''expiry/tx'' x \<noteq> blobKey ''index'' y" "blobKey ''expiry/tx'' x \<noteq> blobKey ''block'' y"
  "blobKey ''expiry/tx'' x \<noteq> blobKey ''expiry/channel'' y" "blobKey ''expiry/channel'' x \<noteq> blobKey ''tx'' y"
  "blobKey ''expiry/channel'' x \<noteq> blobKey ''channel'' y" "blobKey ''expiry/channel'' x \<noteq> blobKey ''index'' y"
  "blobKey ''expiry/channel'' x \<noteq> blobKey ''block'' y" "blobKey ''expiry/channel'' x \<noteq> blobKey ''expiry/tx'' y"
  by (simp_all add: key_defs)

lemma blobKey_single [simp]:
  "blobKey ''tx'' x \<noteq> blobStateKey" "blobStateKey \<noteq> blobKey ''tx'' x"
  "blobKey ''tx'' x \<noteq> blobIdentityKey" "blobIdentityKey \<noteq> blobKey ''tx'' x"
  "blobKey ''channel'' x \<noteq> blobStateKey" "blobStateKey \<noteq> blobKey ''channel'' x"
  "blobKey ''channel'' x \<noteq> blobIdentityKey" "blobIdentityKey \<noteq> blobKey ''channel'' x"
  "blobKey ''index'' x \<noteq> blobStateKey" "blobStateKey \<noteq> blobKey ''index'' x"
  "blobKey ''index'' x \<noteq> blobIdentityKey" "blobIdentityKey \<noteq> blobKey ''index'' x"
  "blobKey ''block'' x \<noteq> blobStateKey" "blobStateKey \<noteq> blobKey ''block'' x"
  "blobKey ''block'' x \<noteq> blobIdentityKey" "blobIdentityKey \<noteq> blobKey ''block'' x"
  "blobKey ''expiry/tx'' x \<noteq> blobStateKey" "blobStateKey \<noteq> blobKey ''expiry/tx'' x"
  "blobKey ''expiry/tx'' x \<noteq> blobIdentityKey" "blobIdentityKey \<noteq> blobKey ''expiry/tx'' x"
  "blobKey ''expiry/channel'' x \<noteq> blobStateKey" "blobStateKey \<noteq> blobKey ''expiry/channel'' x"
  "blobKey ''expiry/channel'' x \<noteq> blobIdentityKey" "blobIdentityKey \<noteq> blobKey ''expiry/channel'' x"
  "blobStateKey \<noteq> blobIdentityKey" "blobIdentityKey \<noteq> blobStateKey"
  by (simp_all add: key_defs)

text \<open>The range scans are exact: the keys they visit are those of the kind, up to the bound.\<close>

lemma number_range:
  "blobKey kind [] \<le> k \<and> k < blobNumberKey kind c \<longleftrightarrow> (\<exists>s. k = blobKey kind s \<and> s < be64 c)"
proof
  assume "blobKey kind [] \<le> k \<and> k < blobNumberKey kind c"
  with between_prefix [of "blobKey kind []" k "be64 c"]
  obtain s where "k = blobKey kind [] @ s" "k < blobNumberKey kind c"
    by (auto simp: blobNumberKey_def blobKey_def)
  then show "\<exists>s. k = blobKey kind s \<and> s < be64 c"
    by (auto simp: blobNumberKey_def blobKey_def)
qed (auto simp: blobNumberKey_def blobKey_def)

lemma index_range:
  "blobKey ''index'' [] \<le> k \<and> k < ascii ''blob/index0'' \<longleftrightarrow> (\<exists>s. k = blobKey ''index'' s)"
proof
  assume k: "blobKey ''index'' [] \<le> k \<and> k < ascii ''blob/index0''"
  have succ: "z = 47" if "(47 :: byte) \<le> z" "z < 48" for z
    using that by (simp add: word_le_nat_alt word_less_nat_alt word_unat_eq_iff)
  have "ascii ''blob/index'' @ [47] \<le> k" "k < ascii ''blob/index'' @ [48]"
    using k by (simp_all add: blobKey_def ascii_def)
  from between_successor [OF succ this] obtain s where "k = (ascii ''blob/index'' @ [47]) @ s" by blast
  then show "\<exists>s. k = blobKey ''index'' s" by (auto simp: blobKey_def ascii_def)
qed (auto simp: key_defs)

lemma index_order: "blobNumberKey ''index'' m \<le> blobNumberKey ''index'' n \<longleftrightarrow> m \<le> n"
  by (simp add: blobNumberKey_def blobKey_def le_less)

end
