(* ===== verification/BlobView.thy ===== *)
theory BlobView
  imports BlobStore
begin

text \<open>
  What the Blob namespace represents and the proofs that the operations of
  \<open>BlobStore\<close> implement it: a view with the retained transactions, channels and
  blocks, the invariant that ties them together (every channel owns its blocks, has all
  its sources and expires with the oldest of them), and the abstract operations
  \<open>add_tx\<close>, \<open>add_block\<close> and \<open>prune_view\<close>.  The expiry keys and
  the block index are part of the representation.  A channel may list a block twice; it can be
  stored and read but not pruned, and \<open>prunable\<close> says so.
\<close>

section \<open>The view\<close>

record blob_view =
  v_txs :: "hash \<rightharpoonup> BlobTransaction"
  v_channels :: "string \<rightharpoonup> ChannelRecord"
  v_blocks :: "u64 \<rightharpoonup> string \<times> Block"

abbreviation txKey :: "hash \<Rightarrow> bytes" where
  "txKey h \<equiv> blobKey ''tx'' (hash_bytes h)"

abbreviation chKey :: "string \<Rightarrow> bytes" where
  "chKey c \<equiv> blobKey ''channel'' (ascii c)"

abbreviation ixKey :: "u64 \<Rightarrow> bytes" where
  "ixKey i \<equiv> blobNumberKey ''index'' i"

abbreviation bkKey :: "u64 \<Rightarrow> bytes" where
  "bkKey i \<equiv> blobNumberKey ''block'' i"

abbreviation txExp :: "u64 \<Rightarrow> hash \<Rightarrow> bytes" where
  "txExp t h \<equiv> expirationKey ''tx'' t (hash_bytes h)"

abbreviation chExp :: "u64 \<Rightarrow> string \<Rightarrow> bytes" where
  "chExp t c \<equiv> expirationKey ''channel'' t (ascii c)"

text \<open>The records, and the suffixes present under a prefix.\<close>

definition core_rep :: "pebble \<Rightarrow> blob_view \<Rightarrow> bool" where
  "core_rep b V \<longleftrightarrow> dict_ok (pb_data b) \<and>
     (\<forall>h. dget (pb_data b) (txKey h) = map_option TxDoc (v_txs V h)) \<and>
     (\<forall>c. dget (pb_data b) (chKey c) = map_option ChannelDoc (v_channels V c)) \<and>
     (\<forall>i. dget (pb_data b) (ixKey i) = map_option (StringDoc \<circ> fst) (v_blocks V i)) \<and>
     (\<forall>i. dget (pb_data b) (bkKey i) = map_option (BlockDoc \<circ> snd) (v_blocks V i))"

definition suffixes :: "string \<Rightarrow> pebble \<Rightarrow> bytes set" where
  "suffixes kind b = {s. dget (pb_data b) (blobKey kind s) \<noteq> None}"

definition exp_txs :: "blob_view \<Rightarrow> bytes set" where
  "exp_txs V = {be64 (btx_Timestamp tx) @ hash_bytes h | h tx. v_txs V h = Some tx}"

definition exp_channels :: "blob_view \<Rightarrow> bytes set" where
  "exp_channels V = {be64 (ch_ExpiresAt r) @ ascii c | c r. v_channels V c = Some r}"

definition rep_with :: "pebble \<Rightarrow> blob_view \<Rightarrow> bytes set \<Rightarrow> bytes set \<Rightarrow> bool" where
  "rep_with b V etx ech \<longleftrightarrow> core_rep b V \<and> suffixes ''index'' b = be64 ` dom (v_blocks V) \<and>
     suffixes ''expiry/tx'' b = etx \<and> suffixes ''expiry/channel'' b = ech"

definition blob_rep :: "pebble \<Rightarrow> blob_view \<Rightarrow> bool" where
  "blob_rep b V \<longleftrightarrow> rep_with b V (exp_txs V) (exp_channels V)"

text \<open>The invariant of the view.\<close>

definition channel_ok :: "blob_view \<Rightarrow> string \<Rightarrow> ChannelRecord \<Rightarrow> bool" where
  "channel_ok V c r \<longleftrightarrow> ch_ID r = c \<and> ch_Sources r \<noteq> [] \<and>
     (\<forall>h \<in> set (ch_Sources r). \<exists>tx. v_txs V h = Some tx \<and> \<not> btx_Missing tx \<and>
        ch_ExpiresAt r \<le> btx_Timestamp tx) \<and>
     (\<exists>h \<in> set (ch_Sources r). \<exists>tx. v_txs V h = Some tx \<and> btx_Timestamp tx = ch_ExpiresAt r) \<and>
     (\<forall>i \<in> set (ch_Blocks r). \<exists>blk. v_blocks V i = Some (c, blk) \<and> blk_Index blk = i \<and>
        blk_BatchIndex blk = bat_Index (ch_Batch r))"

definition view_ok :: "blob_view \<Rightarrow> bool" where
  "view_ok V \<longleftrightarrow>
     (\<forall>h tx. v_txs V h = Some tx \<longrightarrow> btx_Hash tx = h \<and> (btx_Missing tx \<longrightarrow> btx_Frames tx = [])) \<and>
     (\<forall>c r. v_channels V c = Some r \<longrightarrow> channel_ok V c r) \<and>
     (\<forall>i c blk. v_blocks V i = Some (c, blk) \<longrightarrow> (\<exists>r. v_channels V c = Some r \<and> i \<in> set (ch_Blocks r)))"

section \<open>Abstract operations\<close>

definition add_tx :: "blob_view \<Rightarrow> BlobTransaction \<Rightarrow> blob_view" where
  "add_tx V tx = V\<lparr>v_txs := (v_txs V)(btx_Hash tx \<mapsto> tx)\<rparr>"

definition add_block :: "string \<Rightarrow> blob_view \<Rightarrow> Block \<Rightarrow> blob_view" where
  "add_block c V blk = V\<lparr>v_blocks := (v_blocks V)(blk_Index blk \<mapsto> (c, blk))\<rparr>"

definition del_tx :: "blob_view \<Rightarrow> hash \<Rightarrow> blob_view" where
  "del_tx V h = V\<lparr>v_txs := (v_txs V)(h := None)\<rparr>"

definition del_channel :: "blob_view \<Rightarrow> string \<Rightarrow> blob_view" where
  "del_channel V c = V\<lparr>v_channels := (v_channels V)(c := None),
     v_blocks := (\<lambda>i. if \<exists>blk. v_blocks V i = Some (c, blk) then None else v_blocks V i)\<rparr>"

text \<open>Retention: drop what is older than the cutoff, and every block of a dropped channel.\<close>

definition expired_channel :: "u64 \<Rightarrow> blob_view \<Rightarrow> string \<Rightarrow> bool" where
  "expired_channel cutoff V c \<longleftrightarrow> (\<exists>r. v_channels V c = Some r \<and> ch_ExpiresAt r < cutoff)"

definition expired_tx :: "u64 \<Rightarrow> blob_view \<Rightarrow> hash \<Rightarrow> bool" where
  "expired_tx cutoff V h \<longleftrightarrow> (\<exists>tx. v_txs V h = Some tx \<and> btx_Timestamp tx < cutoff)"

definition prune_channels :: "u64 \<Rightarrow> blob_view \<Rightarrow> blob_view" where
  "prune_channels cutoff V = V\<lparr>
     v_channels := (\<lambda>c. if expired_channel cutoff V c then None else v_channels V c),
     v_blocks := (\<lambda>i. case v_blocks V i of None \<Rightarrow> None
        | Some (c, blk) \<Rightarrow> if expired_channel cutoff V c then None else Some (c, blk))\<rparr>"

definition prune_txs :: "u64 \<Rightarrow> blob_view \<Rightarrow> blob_view" where
  "prune_txs cutoff V = V\<lparr>v_txs := (\<lambda>h. if expired_tx cutoff V h then None else v_txs V h)\<rparr>"

definition prune_view :: "u64 \<Rightarrow> blob_view \<Rightarrow> blob_view" where
  "prune_view cutoff V = prune_txs cutoff (prune_channels cutoff V)"

text \<open>
  Expiring a channel deletes the blocks it lists one by one, and fails at the second mention of
  a block.  So the channels past the cutoff must not list a block twice.
\<close>

definition prunable :: "u64 \<Rightarrow> blob_view \<Rightarrow> bool" where
  "prunable cutoff V \<longleftrightarrow> (\<forall>c r. v_channels V c = Some r \<and> ch_ExpiresAt r < cutoff \<longrightarrow> distinct (ch_Blocks r))"

definition view_prune :: "u64 \<Rightarrow> blob_view \<Rightarrow> blob_view option" where
  "view_prune cutoff V = (if prunable cutoff V then Some (prune_view cutoff V) else None)"

section \<open>Runs of batch operations\<close>

text \<open>
  \<open>yields b m Q\<close>: the computation \<open>m\<close> on the batch \<open>b\<close> ends with a result
  that satisfies \<open>Q\<close> unless a database call fails.
\<close>

definition same_faults :: "pebble \<Rightarrow> pebble \<Rightarrow> bool" where
  "same_faults a b \<longleftrightarrow> pb_getErr b = pb_getErr a \<and> pb_setErr b = pb_setErr a \<and>
     pb_iterErr b = pb_iterErr a \<and> pb_commitErr b = pb_commitErr a \<and> pb_closeErr b = pb_closeErr a"

definition yields :: "pebble \<Rightarrow> 'a result \<Rightarrow> ('a \<Rightarrow> bool) \<Rightarrow> bool" where
  "yields b m Q \<longleftrightarrow> (case m of Inl e \<Rightarrow> \<not> fault_free b | Inr x \<Rightarrow> Q x)"

lemma same_faults_simps [simp]:
  "same_faults a a" "same_faults a (b\<lparr>pb_data := d\<rparr>) = same_faults a b"
  by (simp_all add: same_faults_def)

lemma same_faults_fault_free: "same_faults a b \<Longrightarrow> fault_free b = fault_free a"
  by (simp add: same_faults_def fault_free_def)

lemma same_faults_trans: "same_faults a b \<Longrightarrow> same_faults b c \<Longrightarrow> same_faults a c"
  by (simp add: same_faults_def)

lemma yields_Inr [simp]: "yields b (Inr x) Q = Q x"
  by (simp add: yields_def)

lemma yields_bind:
  assumes "yields b m Q" and "\<And>x. Q x \<Longrightarrow> yields b (f x) R"
  shows "yields b (bindE m f) R"
  using assms by (cases m) (auto simp: yields_def)

lemma yields_mono: "yields b m Q \<Longrightarrow> (\<And>x. Q x \<Longrightarrow> R x) \<Longrightarrow> yields b m R"
  by (cases m) (auto simp: yields_def)

lemma yields_same: "same_faults a b \<Longrightarrow> yields b m Q \<Longrightarrow> yields a m Q"
  by (cases m) (auto simp: yields_def same_faults_fault_free)

lemma yields_readValue: "yields b (readValue b k) (\<lambda>v. v = dget (pb_data b) k)"
  by (auto simp: yields_def readValue_def fault_free_def)

lemma yields_readRequired:
  "dget (pb_data b) k = Some d \<Longrightarrow> dec d = Some x \<Longrightarrow> yields b (readRequired dec b k) (\<lambda>y. y = x)"
  by (auto simp: yields_def readRequired_def readJSON_def readValue_def fault_free_def)

lemma yields_batchSet: "yields b (batchSet b k v) (\<lambda>b'. b' = b\<lparr>pb_data := dput k v (pb_data b)\<rparr>)"
  by (auto simp: yields_def batchSet_def fault_free_def)

lemma yields_batchDelete: "yields b (batchDelete b k) (\<lambda>b'. b' = b\<lparr>pb_data := ddel k (pb_data b)\<rparr>)"
  by (auto simp: yields_def batchDelete_def fault_free_def)

text \<open>The loop rule for batches, with the list that remains.\<close>

lemma yields_foldE:
  assumes "I xs b"
    and "\<And>y ys c. I (y # ys) c \<Longrightarrow> same_faults b c \<Longrightarrow>
      yields c (f y c) (\<lambda>c'. I ys c' \<and> same_faults c c')"
  shows "yields b (foldE f xs b) (\<lambda>b'. I [] b' \<and> same_faults b b')"
  using assms
proof (induction xs arbitrary: b)
  case Nil
  then show ?case by simp
next
  case (Cons x xs)
  have "yields b (f x b) (\<lambda>c. I xs c \<and> same_faults b c)" using Cons.prems by simp
  moreover have "yields b (foldE f xs c) (\<lambda>b'. I [] b' \<and> same_faults b b')"
    if c: "I xs c \<and> same_faults b c" for c
  proof -
    have "yields d (f y d) (\<lambda>d'. I ys d' \<and> same_faults d d')" if "I (y # ys) d" "same_faults c d" for y ys d
      using Cons.prems(2) c that same_faults_trans by blast
    with Cons.IH c have "yields c (foldE f xs c) (\<lambda>b'. I [] b' \<and> same_faults c b')" by simp
    then have "yields c (foldE f xs c) (\<lambda>b'. I [] b' \<and> same_faults b b')"
      by (rule yields_mono) (use c same_faults_trans in blast)
    with c show ?thesis by (blast intro: yields_same)
  qed
  ultimately show ?case by (auto intro: yields_bind)
qed

section \<open>Operations that implement an abstract one\<close>

text \<open>
  \<open>impl b m R v\<close>: the abstract operation gives \<open>v\<close>.  If it is refused
  (\<open>None\<close>) the computation returns an error; otherwise the computation ends in a
  batch that represents the abstract result, unless a database call fails.
\<close>

definition impl :: "pebble \<Rightarrow> pebble result \<Rightarrow> (pebble \<Rightarrow> 'v \<Rightarrow> bool) \<Rightarrow> 'v option \<Rightarrow> bool" where
  "impl b m R v \<longleftrightarrow> (case v of None \<Rightarrow> \<exists>e. m = Inl e
     | Some x \<Rightarrow> yields b m (\<lambda>b'. R b' x \<and> same_faults b b'))"

primrec foldO :: "('a \<Rightarrow> 'v \<Rightarrow> 'v option) \<Rightarrow> 'a list \<Rightarrow> 'v \<Rightarrow> 'v option" where
  "foldO g [] v = Some v"
| "foldO g (x # xs) v = Option.bind (g x v) (foldO g xs)"

lemma impl_bind:
  assumes "impl b m R v"
    and "\<And>b' x. R b' x \<Longrightarrow> same_faults b b' \<Longrightarrow> v = Some x \<Longrightarrow> impl b' (f b') S (g x)"
  shows "impl b (bindE m f) S (Option.bind v g)"
proof (cases v)
  case None
  with assms(1) show ?thesis by (auto simp: impl_def)
next
  case (Some x)
  show ?thesis
  proof (cases m)
    case (Inl e)
    with Some assms(1) show ?thesis by (auto simp: impl_def yields_def split: option.splits)
  next
    case (Inr b')
    with Some assms(1) have R: "R b' x" "same_faults b b'" by (auto simp: impl_def)
    from assms(2) [OF R Some] R(2) Inr Some show ?thesis
      by (auto simp: impl_def yields_def same_faults_fault_free split: option.splits sum.splits
          intro: same_faults_trans)
  qed
qed

lemma impl_foldE:
  assumes "R b v" and "\<And>x b v. x \<in> set xs \<Longrightarrow> R b v \<Longrightarrow> impl b (f x b) R (g x v)"
  shows "impl b (foldE f xs b) R (foldO g xs v)"
  using assms
proof (induction xs arbitrary: b v)
  case Nil
  then show ?case by (simp add: impl_def)
next
  case (Cons x xs)
  have "impl b (f x b) R (g x v)" using Cons.prems by simp
  then show ?case
    unfolding foldE.simps foldO.simps by (rule impl_bind) (use Cons in auto)
qed

lemma foldO_invariant:
  assumes "foldO g xs v = Some w" and "I v" and "\<And>x v w. x \<in> set xs \<Longrightarrow> I v \<Longrightarrow> g x v = Some w \<Longrightarrow> I w"
  shows "I w"
  using assms by (induction xs arbitrary: v) (auto simp: bind_eq_Some_conv)

lemma impl_Some: "impl b m R (Some x) = yields b m (\<lambda>b'. R b' x \<and> same_faults b b')"
  by (simp add: impl_def)

lemma impl_None: "impl b m R None = (\<exists>e. m = Inl e)"
  by (simp add: impl_def)

section \<open>Single steps on the representation\<close>

lemmas rep_defs = rep_with_def core_rep_def suffixes_def

lemma rep_dict_ok: "rep_with b V etx ech \<Longrightarrow> dict_ok (pb_data b)"
  by (simp add: rep_defs)

lemma rep_lookup:
  assumes "rep_with b V etx ech"
  shows "dget (pb_data b) (txKey h) = map_option TxDoc (v_txs V h)"
    "dget (pb_data b) (chKey c) = map_option ChannelDoc (v_channels V c)"
    "dget (pb_data b) (ixKey i) = map_option (StringDoc \<circ> fst) (v_blocks V i)"
    "dget (pb_data b) (bkKey i) = map_option (BlockDoc \<circ> snd) (v_blocks V i)"
  using assms by (simp_all add: rep_defs)

lemma rep_del_block:
  assumes "rep_with b V etx ech"
  shows "rep_with (b\<lparr>pb_data := ddel (bkKey i) (ddel (ixKey i) (pb_data b))\<rparr>)
    (V\<lparr>v_blocks := (v_blocks V)(i := None)\<rparr>) etx ech"
  using assms unfolding rep_defs blobNumberKey_def
  by (auto simp: dict_simps image_iff set_eq_iff dom_def)

lemma rep_del_channel:
  assumes "rep_with b V etx ech"
  shows "rep_with (b\<lparr>pb_data := ddel (chKey c) (pb_data b)\<rparr>)
    (V\<lparr>v_channels := (v_channels V)(c := None)\<rparr>) etx ech"
  using assms unfolding rep_defs blobNumberKey_def
  by (auto simp: dict_simps)

lemma rep_del_tx:
  assumes "rep_with b V etx ech"
  shows "rep_with (b\<lparr>pb_data := ddel (txKey h) (pb_data b)\<rparr>)
    (V\<lparr>v_txs := (v_txs V)(h := None)\<rparr>) etx ech"
  using assms unfolding rep_defs blobNumberKey_def
  by (auto simp: dict_simps)

lemma rep_del_expiry:
  assumes "rep_with b V etx ech"
  shows "rep_with (b\<lparr>pb_data := ddel (blobKey ''expiry/tx'' s) (pb_data b)\<rparr>) V (etx - {s}) ech"
    and "rep_with (b\<lparr>pb_data := ddel (blobKey ''expiry/channel'' s) (pb_data b)\<rparr>) V etx (ech - {s})"
  using assms unfolding rep_defs blobNumberKey_def
  by (auto simp: dict_simps set_eq_iff)

lemma rep_put_block:
  assumes "rep_with b V etx ech"
  shows "rep_with (b\<lparr>pb_data := dput (bkKey i) (BlockDoc blk) (dput (ixKey i) (StringDoc c) (pb_data b))\<rparr>)
    (V\<lparr>v_blocks := (v_blocks V)(i \<mapsto> (c, blk))\<rparr>) etx ech"
  using assms unfolding rep_defs blobNumberKey_def
  by (auto simp: dict_simps image_iff set_eq_iff dom_def)

lemma rep_put_channel:
  assumes "rep_with b V etx ech"
  shows "rep_with (b\<lparr>pb_data := dput (chKey c) (ChannelDoc r) (pb_data b)\<rparr>)
    (V\<lparr>v_channels := (v_channels V)(c \<mapsto> r)\<rparr>) etx ech"
  using assms unfolding rep_defs blobNumberKey_def
  by (auto simp: dict_simps)

lemma rep_put_tx:
  assumes "rep_with b V etx ech"
  shows "rep_with (b\<lparr>pb_data := dput (txKey h) (TxDoc tx) (pb_data b)\<rparr>)
    (V\<lparr>v_txs := (v_txs V)(h \<mapsto> tx)\<rparr>) etx ech"
  using assms unfolding rep_defs blobNumberKey_def
  by (auto simp: dict_simps)

lemma rep_put_expiry:
  assumes "rep_with b V etx ech"
  shows "rep_with (b\<lparr>pb_data := dput (blobKey ''expiry/tx'' s) d (pb_data b)\<rparr>) V (insert s etx) ech"
    and "rep_with (b\<lparr>pb_data := dput (blobKey ''expiry/channel'' s) d (pb_data b)\<rparr>) V etx (insert s ech)"
  using assms unfolding rep_defs blobNumberKey_def
  by (auto simp: dict_simps set_eq_iff)

section \<open>Pruning channels\<close>

lemma expireBlock_yields:
  assumes "rep_with b V etx ech" and "v_blocks V i = Some (c, blk)" and "blk_Index blk = i"
  shows "yields b (expireBlock c i b) (\<lambda>b'. rep_with b' (V\<lparr>v_blocks := (v_blocks V)(i := None)\<rparr>) etx ech
    \<and> same_faults b b')"
proof -
  let ?b1 = "b\<lparr>pb_data := ddel (ixKey i) (pb_data b)\<rparr>"
  have ptr: "dget (pb_data b) (ixKey i) = Some (StringDoc c)"
    and blk: "dget (pb_data b) (bkKey i) = Some (BlockDoc blk)"
    using assms rep_lookup [OF assms(1)] by simp_all
  have del: "yields b (batchDelete ?b1 (bkKey i))
      (\<lambda>b'. rep_with b' (V\<lparr>v_blocks := (v_blocks V)(i := None)\<rparr>) etx ech \<and> same_faults b b')"
    using yields_batchDelete [of ?b1 "bkKey i"] rep_del_block [OF assms(1), of i]
    by (intro yields_same [of b ?b1]) (auto elim!: yields_mono)
  show ?thesis
    unfolding expireBlock_def
    by (rule yields_bind [OF yields_readRequired [OF ptr]], simp, simp,
        rule yields_bind [OF yields_readRequired [OF blk]], simp, simp add: assms(3),
        rule yields_bind [OF yields_batchDelete], simp add: del)
qed

lemma expireBlocks_yields:
  assumes rep: "rep_with b V etx ech" and "distinct bs"
    and own: "\<And>i. i \<in> set bs \<Longrightarrow> \<exists>blk. v_blocks V i = Some (c, blk) \<and> blk_Index blk = i"
  shows "yields b (foldE (expireBlock c) bs b)
    (\<lambda>b'. rep_with b' (V\<lparr>v_blocks := v_blocks V |` (- set bs)\<rparr>) etx ech \<and> same_faults b b')"
proof -
  let ?V = "\<lambda>ys. V\<lparr>v_blocks := v_blocks V |` (- (set bs - set ys))\<rparr>"
  define I where "I = (\<lambda>ys b'. rep_with b' (?V ys) etx ech \<and> distinct ys \<and> set ys \<subseteq> set bs)"
  have step: "yields d (expireBlock c y d) (\<lambda>d'. I ys d' \<and> same_faults d d')" if "I (y # ys) d" for y ys d
  proof -
    from that have r: "rep_with d (?V (y # ys)) etx ech" and y: "y \<in> set bs" "y \<notin> set ys"
      and ys: "distinct ys" "set ys \<subseteq> set bs" by (auto simp: I_def)
    from own [OF y(1)] obtain blk where blk: "v_blocks V y = Some (c, blk)" "blk_Index blk = y" by blast
    then have "v_blocks (?V (y # ys)) y = Some (c, blk)" by (simp add: restrict_map_def)
    from expireBlock_yields [OF r this blk(2)]
    have "yields d (expireBlock c y d) (\<lambda>d'. rep_with d'
        (?V (y # ys)\<lparr>v_blocks := (v_blocks (?V (y # ys)))(y := None)\<rparr>) etx ech \<and> same_faults d d')" .
    moreover have "?V (y # ys)\<lparr>v_blocks := (v_blocks (?V (y # ys)))(y := None)\<rparr> = ?V ys"
      using y ys by (auto simp: restrict_map_def fun_eq_iff)
    ultimately show ?thesis using ys by (simp add: I_def)
  qed
  have "v_blocks V |` UNIV = v_blocks V" by (simp add: restrict_map_def)
  then have "I bs b" using rep assms(2) by (simp add: I_def)
  from yields_foldE [of I, OF this step] show ?thesis
    by (rule yields_mono) (auto simp: I_def)
qed

text \<open>The loop fails at a block that it has deleted before.\<close>

lemma expireBlock_Inr:
  "expireBlock c i b = Inr b' \<Longrightarrow> dget (pb_data b) (ixKey i) \<noteq> None \<and>
     b' = b\<lparr>pb_data := ddel (bkKey i) (ddel (ixKey i) (pb_data b))\<rparr>"
  by (auto simp: expireBlock_def readRequired_def readJSON_def res_simps split: if_splits option.splits)

lemma expireBlocks_distinct:
  assumes "foldE (expireBlock c) bs b = Inr b'" "dict_ok (pb_data b)"
  shows "distinct bs \<and> (\<forall>i \<in> set bs. dget (pb_data b) (ixKey i) \<noteq> None)"
  using assms
proof (induction bs arbitrary: b)
  case (Cons i bs)
  then obtain d where one: "expireBlock c i b = Inr d" and more: "foldE (expireBlock c) bs d = Inr b'" by (auto simp: bindE_Inr)
  note del = expireBlock_Inr [OF one]
  have gone: "dget (pb_data d) (ixKey j) = (if j = i then None else dget (pb_data b) (ixKey j))" for j
    using del Cons.prems(2) by (auto simp: dict_simps blobNumberKey_def)
  have "dict_ok (pb_data d)" using del Cons.prems(2) by (simp add: dict_simps)
  from Cons.IH [OF more this, unfolded gone] conjunct1 [OF del] show ?case by (auto split: if_splits)
qed simp

lemma be64_append_inject [simp]: "be64 t @ xs = be64 u @ ys \<longleftrightarrow> t = u \<and> xs = ys"
  by simp

lemma be64_append_less [simp]: "be64 t @ xs < be64 c \<longleftrightarrow> t < c"
  by (simp add: less_append_right_iff)

lemma owned_blocks:
  assumes "view_ok V" "v_channels V c = Some r"
  shows "del_channel V c = V\<lparr>v_blocks := v_blocks V |` (- set (ch_Blocks r)),
    v_channels := (v_channels V)(c := None)\<rparr>"
proof -
  have "(\<exists>blk. v_blocks V i = Some (c, blk)) \<longleftrightarrow> i \<in> set (ch_Blocks r)" for i
    using assms unfolding view_ok_def channel_ok_def by fastforce
  then show ?thesis by (auto simp: del_channel_def restrict_map_def fun_eq_iff)
qed

lemma view_ok_del_channel:
  assumes "view_ok V"
  shows "view_ok (del_channel V c)"
proof -
  have "channel_ok (del_channel V c) d r" if "v_channels (del_channel V c) d = Some r" for d r
  proof -
    from that have d: "d \<noteq> c" and r: "v_channels V d = Some r"
      by (auto simp: del_channel_def split: if_splits)
    then have "channel_ok V d r" using assms by (simp add: view_ok_def)
    with d show ?thesis unfolding channel_ok_def del_channel_def by fastforce
  qed
  moreover have "\<exists>r. v_channels (del_channel V c) d = Some r \<and> i \<in> set (ch_Blocks r)"
    if "v_blocks (del_channel V c) i = Some (d, blk)" for i d blk
  proof -
    from that have "v_blocks V i = Some (d, blk)" "d \<noteq> c"
      by (auto simp: del_channel_def split: if_splits)
    with assms show ?thesis by (simp add: view_ok_def del_channel_def)
  qed
  ultimately show ?thesis
    using assms unfolding view_ok_def by (simp add: del_channel_def)
qed

lemma expireRecord_channel_yields:
  assumes "rep_with b V etx ech" and ok: "view_ok V" and r: "v_channels V c = Some r"
    and dist: "distinct (ch_Blocks r)"
  shows "yields b (expireRecord b ''channel'' (ascii c) (ch_ExpiresAt r))
    (\<lambda>b'. rep_with b' (del_channel V c) etx ech \<and> same_faults b b')"
proof -
  from ok r have "channel_ok V c r" by (simp add: view_ok_def)
  then have cid: "ch_ID r = c"
    and own: "\<And>i. i \<in> set (ch_Blocks r) \<Longrightarrow> \<exists>blk. v_blocks V i = Some (c, blk) \<and> blk_Index blk = i"
    by (auto simp: channel_ok_def)
  have doc: "dget (pb_data b) (chKey c) = Some (ChannelDoc r)"
    using rep_lookup [OF assms(1)] r by simp
  have loop: "yields b (foldE (expireBlock c) (ch_Blocks r) b)
      (\<lambda>b'. rep_with b' (V\<lparr>v_blocks := v_blocks V |` (- set (ch_Blocks r))\<rparr>) etx ech \<and> same_faults b b')"
    using expireBlocks_yields [OF assms(1) dist own] .
  have del: "yields b (batchDelete b1 (chKey c)) (\<lambda>b'. rep_with b' (del_channel V c) etx ech \<and> same_faults b b')"
    if b1: "rep_with b1 (V\<lparr>v_blocks := v_blocks V |` (- set (ch_Blocks r))\<rparr>) etx ech \<and> same_faults b b1" for b1
    using yields_batchDelete [of b1 "chKey c"] rep_del_channel [OF conjunct1 [OF b1], of c] b1
    by (intro yields_same [of b b1]) (auto elim!: yields_mono simp: owned_blocks [OF ok r])
  have "yields b (bindE (readRequired as_Channel b (chKey c)) (\<lambda>r'.
      if ch_ID r' \<noteq> string_of (ascii c) \<or> ch_ExpiresAt r' \<noteq> ch_ExpiresAt r then Inl (Err ErrIntegrity [])
      else foldE (expireBlock (ch_ID r')) (ch_Blocks r') b))
      (\<lambda>b'. rep_with b' (V\<lparr>v_blocks := v_blocks V |` (- set (ch_Blocks r))\<rparr>) etx ech \<and> same_faults b b')"
    by (rule yields_bind [OF yields_readRequired [OF doc]]) (use cid loop in auto)
  then show ?thesis
    unfolding expireRecord_def by simp (rule yields_bind, assumption, rule del)
qed

lemma expireRecord_channel_fails:
  assumes rep: "rep_with b V etx ech" and r: "v_channels V c = Some r" and dup: "\<not> distinct (ch_Blocks r)"
  shows "\<exists>e. expireRecord b ''channel'' (ascii c) t = Inl e"
proof (rule ccontr)
  assume "\<nexists>e. expireRecord b ''channel'' (ascii c) t = Inl e"
  then obtain b' where "expireRecord b ''channel'' (ascii c) t = Inr b'"
    by (cases "expireRecord b ''channel'' (ascii c) t") auto
  then obtain d b1 where d: "readRequired as_Channel b (chKey c) = Inr d"
    and loop: "foldE (expireBlock (ch_ID d)) (ch_Blocks d) b = Inr b1"
    unfolding expireRecord_def by (auto simp: bindE_Inr split: if_splits)
  have "d = r" using d rep_lookup(2) [OF rep, of c] r
    by (auto simp: readRequired_def readJSON_def res_simps split: option.splits)
  with expireBlocks_distinct [OF loop rep_dict_ok [OF rep]] dup show False by simp
qed

lemma pruneKey_eq:
  "pruneKey kind (blobKey (''expiry/'' @ kind) (be64 t @ x)) b =
     bindE (expireRecord b kind x t) (\<lambda>b1. batchDelete b1 (blobKey (''expiry/'' @ kind) (be64 t @ x)))"
  by (simp add: pruneKey_def Let_def blobKey_def)

lemma pruneKey_channel_impl:
  assumes rep: "blob_rep b V" and ok: "view_ok V" and r: "v_channels V c = Some r"
  shows "impl b (pruneKey ''channel'' (blobKey ''expiry/channel'' (be64 (ch_ExpiresAt r) @ ascii c)) b)
    blob_rep (if distinct (ch_Blocks r) then Some (del_channel V c) else None)"
proof (cases "distinct (ch_Blocks r)")
  case True
  let ?s = "be64 (ch_ExpiresAt r) @ ascii c"
  have ech: "exp_channels (del_channel V c) = exp_channels V - {?s}"
    using r unfolding exp_channels_def del_channel_def by (fastforce split: if_splits)
  have etx: "exp_txs (del_channel V c) = exp_txs V"
    by (simp add: exp_txs_def del_channel_def)
  have del: "yields b (batchDelete b1 (blobKey ''expiry/channel'' ?s)) (\<lambda>b'. blob_rep b' (del_channel V c) \<and> same_faults b b')"
    if b1: "rep_with b1 (del_channel V c) (exp_txs V) (exp_channels V) \<and> same_faults b b1" for b1
    using yields_batchDelete [of b1 "blobKey ''expiry/channel'' ?s"] rep_del_expiry(2) [OF conjunct1 [OF b1], of ?s] b1
    by (intro yields_same [of b b1]) (auto elim!: yields_mono simp: blob_rep_def ech etx)
  show ?thesis
    using yields_bind [OF expireRecord_channel_yields [OF rep [unfolded blob_rep_def] ok r True] del]
      pruneKey_eq [of "''channel''"] True by (simp add: impl_Some)
next
  case False
  from expireRecord_channel_fails [OF rep [unfolded blob_rep_def] r False]
  obtain e where "expireRecord b ''channel'' (ascii c) (ch_ExpiresAt r) = Inl e" by blast
  with False show ?thesis using pruneKey_eq [of "''channel''"] by (simp add: impl_None)
qed

lemma del_channel_sel:
  "v_txs (del_channel V c) = v_txs V" "v_channels (del_channel V c) = (v_channels V)(c := None)"
  "v_blocks (del_channel V c) i = (if \<exists>blk. v_blocks V i = Some (c, blk) then None else v_blocks V i)"
  "blob_view.more (del_channel V c) = blob_view.more V"
  by (simp_all add: del_channel_def)

lemma expired_channel_del:
  "expired_channel cutoff (del_channel V c) d \<longleftrightarrow> d \<noteq> c \<and> expired_channel cutoff V d"
  by (auto simp: expired_channel_def del_channel_sel)

lemma prune_channels_del:
  "expired_channel cutoff V c \<Longrightarrow> prune_channels cutoff (del_channel V c) = prune_channels cutoff V"
  by (intro blob_view.equality)
    (auto simp: prune_channels_def expired_channel_del del_channel_sel fun_eq_iff split: option.splits)

lemma prunable_del:
  assumes "v_channels V c = Some r" "distinct (ch_Blocks r)"
  shows "prunable cutoff (del_channel V c) \<longleftrightarrow> prunable cutoff V"
proof
  assume del: "prunable cutoff (del_channel V c)"
  have "distinct (ch_Blocks x)" if "v_channels V d = Some x" "ch_ExpiresAt x < cutoff" for d x
    using that assms del [unfolded prunable_def, rule_format, of d x]
    by (cases "d = c") (simp_all add: del_channel_sel)
  then show "prunable cutoff V" unfolding prunable_def by blast
next
  assume "prunable cutoff V"
  then show "prunable cutoff (del_channel V c)" unfolding prunable_def by (auto simp: del_channel_sel)
qed

lemma prune_channels_idle:
  "(\<And>c. \<not> expired_channel cutoff V c) \<Longrightarrow> prune_channels cutoff V = V"
  by (auto simp: prune_channels_def fun_eq_iff split: option.splits)

lemma scan_numbers:
  assumes "dict_ok (pb_data b)"
  shows "set (dscan (blobKey kind []) (blobNumberKey kind c) (pb_data b))
    = blobKey kind ` {s \<in> suffixes kind b. s < be64 c}"
proof (rule set_eqI)
  fix k
  have "k \<in> set (dscan (blobKey kind []) (blobNumberKey kind c) (pb_data b)) \<longleftrightarrow>
      (blobKey kind [] \<le> k \<and> k < blobNumberKey kind c) \<and> dget (pb_data b) k \<noteq> None"
    unfolding od.set_scan [OF assms] by simp
  then show "k \<in> set (dscan (blobKey kind []) (blobNumberKey kind c) (pb_data b)) \<longleftrightarrow>
      k \<in> blobKey kind ` {s \<in> suffixes kind b. s < be64 c}"
    unfolding number_range suffixes_def by auto
qed

definition expired_channel_keys :: "u64 \<Rightarrow> blob_view \<Rightarrow> bytes set" where
  "expired_channel_keys cutoff V =
     {blobKey ''expiry/channel'' (be64 (ch_ExpiresAt r) @ ascii c) | c r.
        v_channels V c = Some r \<and> ch_ExpiresAt r < cutoff}"

lemma expired_channel_keys_del:
  "v_channels V c = Some r \<Longrightarrow> expired_channel_keys cutoff (del_channel V c) =
     expired_channel_keys cutoff V - {blobKey ''expiry/channel'' (be64 (ch_ExpiresAt r) @ ascii c)}"
  unfolding expired_channel_keys_def del_channel_def by (fastforce split: if_splits)

lemma foldE_Inr_invariant:
  assumes "foldE f xs b = Inr b'" "I xs b" "\<And>y ys c c'. I (y # ys) c \<Longrightarrow> f y c = Inr c' \<Longrightarrow> I ys c'"
  shows "I [] b'"
  using assms by (induction xs arbitrary: b) (auto simp: bindE_Inr)

text \<open>What holds before each expiry key of the loop over the channels past the cutoff.\<close>

definition channels_left :: "u64 \<Rightarrow> blob_view \<Rightarrow> bytes list \<Rightarrow> pebble \<Rightarrow> bool" where
  "channels_left cutoff V ys b \<longleftrightarrow> distinct ys \<and> (\<exists>W. blob_rep b W \<and> view_ok W \<and>
     set ys = expired_channel_keys cutoff W \<and> prune_channels cutoff W = prune_channels cutoff V \<and>
     prunable cutoff W = prunable cutoff V)"

lemma channels_left_start:
  assumes "blob_rep b V" "view_ok V"
  shows "channels_left cutoff V (dscan (blobKey ''expiry/channel'' []) (blobNumberKey ''expiry/channel'' cutoff) (pb_data b)) b"
proof -
  have dok: "dict_ok (pb_data b)" using assms by (simp add: blob_rep_def rep_dict_ok)
  have "set (dscan (blobKey ''expiry/channel'' []) (blobNumberKey ''expiry/channel'' cutoff) (pb_data b))
      = expired_channel_keys cutoff V"
    using scan_numbers [OF dok, of "''expiry/channel''" cutoff] assms
    by (auto simp: blob_rep_def rep_with_def exp_channels_def expired_channel_keys_def)
  with assms od.scan_distinct [OF dok] show ?thesis by (auto simp: channels_left_def)
qed

lemma channels_left_step:
  assumes "channels_left cutoff V (y # ys) d"
  shows "prunable cutoff V \<Longrightarrow> yields d (pruneKey ''channel'' y d) (\<lambda>d'. channels_left cutoff V ys d' \<and> same_faults d d')"
    and "pruneKey ''channel'' y d = Inr d' \<Longrightarrow> channels_left cutoff V ys d'"
proof -
  from assms obtain W where W: "blob_rep d W" "view_ok W" "distinct (y # ys)"
    "insert y (set ys) = expired_channel_keys cutoff W" "prune_channels cutoff W = prune_channels cutoff V"
    "prunable cutoff W = prunable cutoff V"
    by (auto simp: channels_left_def)
  then have "y \<in> expired_channel_keys cutoff W" by blast
  then obtain c r where c: "v_channels W c = Some r" "ch_ExpiresAt r < cutoff"
    and y: "y = blobKey ''expiry/channel'' (be64 (ch_ExpiresAt r) @ ascii c)"
    by (auto simp: expired_channel_keys_def)
  have left: "channels_left cutoff V ys d'" if "blob_rep d' (del_channel W c)" "distinct (ch_Blocks r)" for d'
  proof -
    have "set ys = expired_channel_keys cutoff (del_channel W c)"
      using W(3,4) by (auto simp: expired_channel_keys_del [OF c(1)] y)
    moreover have "prune_channels cutoff (del_channel W c) = prune_channels cutoff V"
      using W(5) c by (simp add: prune_channels_del expired_channel_def)
    moreover have "prunable cutoff (del_channel W c) = prunable cutoff V"
      using W(6) prunable_del [OF c(1) that(2)] by simp
    ultimately show ?thesis
      using that W view_ok_del_channel by (auto simp: channels_left_def)
  qed
  note key = pruneKey_channel_impl [OF W(1,2) c(1), folded y]
  show "yields d (pruneKey ''channel'' y d) (\<lambda>d'. channels_left cutoff V ys d' \<and> same_faults d d')" if "prunable cutoff V"
  proof -
    have "distinct (ch_Blocks r)" using that W(6) c by (auto simp: prunable_def)
    with key left show ?thesis by (auto simp: impl_Some elim!: yields_mono)
  qed
  show "channels_left cutoff V ys d'" if "pruneKey ''channel'' y d = Inr d'"
    using key left that by (auto simp: impl_def split: if_splits)
qed

lemma channels_left_Nil:
  assumes "channels_left cutoff V [] b"
  shows "blob_rep b (prune_channels cutoff V) \<and> view_ok (prune_channels cutoff V) \<and> prunable cutoff V"
proof -
  from assms obtain W where W: "blob_rep b W" "view_ok W" "expired_channel_keys cutoff W = {}"
    "prune_channels cutoff W = prune_channels cutoff V" "prunable cutoff W = prunable cutoff V"
    by (auto simp: channels_left_def)
  then have none: "\<not> expired_channel cutoff W c" for c
    by (auto simp: expired_channel_keys_def expired_channel_def)
  then have "prune_channels cutoff W = W" by (rule prune_channels_idle)
  moreover from none have "prunable cutoff W" by (auto simp: expired_channel_def prunable_def)
  ultimately show ?thesis using W by simp
qed

lemma pruneKind_channel_impl:
  assumes "blob_rep b V" "view_ok V"
  shows "impl b (pruneKind ''channel'' cutoff b) (\<lambda>b' W. blob_rep b' W \<and> view_ok W)
    (if prunable cutoff V then Some (prune_channels cutoff V) else None)"
proof -
  let ?ks = "dscan (blobKey ''expiry/channel'' []) (blobNumberKey ''expiry/channel'' cutoff) (pb_data b)"
  note start = channels_left_start [OF assms, of cutoff]
  show ?thesis
  proof (cases "prunable cutoff V")
    case True
    have "yields b (foldE (pruneKey ''channel'') ?ks b) (\<lambda>b'. channels_left cutoff V [] b' \<and> same_faults b b')"
      by (rule yields_foldE [of "channels_left cutoff V", OF start]) (rule channels_left_step(1) [OF _ True])
    with channels_left_Nil have "yields b (foldE (pruneKey ''channel'') ?ks b)
        (\<lambda>b'. (blob_rep b' (prune_channels cutoff V) \<and> view_ok (prune_channels cutoff V)) \<and> same_faults b b')"
      by (auto elim!: yields_mono)
    with True show ?thesis by (simp add: impl_Some pruneKind_def Let_def yields_def fault_free_def)
  next
    case False
    have "channels_left cutoff V [] b'" if "foldE (pruneKey ''channel'') ?ks b = Inr b'" for b'
      using that start by (rule foldE_Inr_invariant) (rule channels_left_step(2))
    with channels_left_Nil False obtain e where "foldE (pruneKey ''channel'') ?ks b = Inl e"
      by (metis sum.exhaust)
    with False show ?thesis by (simp add: impl_None pruneKind_def Let_def)
  qed
qed

section \<open>Pruning transactions\<close>

lemma expireRecord_tx_yields:
  assumes rep: "rep_with b V etx ech" and ok: "view_ok V" and tx: "v_txs V h = Some tx"
  shows "yields b (expireRecord b ''tx'' (hash_bytes h) (btx_Timestamp tx))
    (\<lambda>b'. rep_with b' (del_tx V h) etx ech \<and> same_faults b b')"
proof -
  from ok tx have "btx_Hash tx = h" by (simp add: view_ok_def)
  moreover have doc: "dget (pb_data b) (txKey h) = Some (TxDoc tx)"
    using rep_lookup [OF rep] tx by simp
  moreover have "yields b (batchDelete b (txKey h)) (\<lambda>b'. rep_with b' (del_tx V h) etx ech \<and> same_faults b b')"
    using yields_batchDelete [of b "txKey h"] rep_del_tx [OF rep, of h]
    by (auto elim!: yields_mono simp: del_tx_def)
  ultimately show ?thesis
    unfolding expireRecord_def using yields_readRequired [OF doc, of as_Tx tx]
    by (auto simp: bindE_assoc elim!: yields_bind)
qed

lemma view_ok_del_tx:
  assumes "view_ok V" "v_txs V h = Some tx" and "\<And>c r. v_channels V c = Some r \<Longrightarrow> btx_Timestamp tx < ch_ExpiresAt r"
  shows "view_ok (del_tx V h)"
proof -
  have "channel_ok (del_tx V h) c r" if "v_channels V c = Some r" for c r
  proof -
    from that assms have ch: "channel_ok V c r" and lt: "btx_Timestamp tx < ch_ExpiresAt r"
      by (auto simp: view_ok_def)
    then have "h \<notin> set (ch_Sources r)"
      using assms(2) by (force simp: channel_ok_def)
    with ch show ?thesis unfolding channel_ok_def del_tx_def by (fastforce split: if_splits)
  qed
  with assms show ?thesis unfolding view_ok_def by (simp add: del_tx_def)
qed

end
