(* ===== verification/BlobCommit.thy ===== *)
theory BlobCommit
  imports BlobView
begin

text \<open>
  \<open>CommitBlob\<close> and \<open>GetBlock\<close> on the view of \<open>BlobView\<close>: pruning
  removes exactly what is older than the cutoff, the recorded latest index is the
  greatest retained block, a commit adds the given transactions and channels and then
  prunes, and a read returns the retained block with its deposits joined.
\<close>

section \<open>Pruning transactions\<close>

lemma pruneKey_tx_yields:
  assumes rep: "blob_rep b V" and ok: "view_ok V" and tx: "v_txs V h = Some tx"
  shows "yields b (pruneKey ''tx'' (blobKey ''expiry/tx'' (be64 (btx_Timestamp tx) @ hash_bytes h)) b)
    (\<lambda>b'. blob_rep b' (del_tx V h) \<and> same_faults b b')"
proof -
  let ?s = "be64 (btx_Timestamp tx) @ hash_bytes h"
  have etx: "exp_txs (del_tx V h) = exp_txs V - {?s}"
    using tx unfolding exp_txs_def del_tx_def by (fastforce split: if_splits)
  have ech: "exp_channels (del_tx V h) = exp_channels V"
    by (simp add: exp_channels_def del_tx_def)
  have del: "yields b (batchDelete b1 (blobKey ''expiry/tx'' ?s)) (\<lambda>b'. blob_rep b' (del_tx V h) \<and> same_faults b b')"
    if b1: "rep_with b1 (del_tx V h) (exp_txs V) (exp_channels V) \<and> same_faults b b1" for b1
    using yields_batchDelete [of b1 "blobKey ''expiry/tx'' ?s"] rep_del_expiry(1) [OF conjunct1 [OF b1], of ?s] b1
    by (intro yields_same [of b b1]) (auto elim!: yields_mono simp: blob_rep_def ech etx)
  show ?thesis
    using yields_bind [OF expireRecord_tx_yields [OF rep [unfolded blob_rep_def] ok tx] del]
      pruneKey_eq [of "''tx''"] by simp
qed

definition expired_tx_keys :: "u64 \<Rightarrow> blob_view \<Rightarrow> bytes set" where
  "expired_tx_keys cutoff V =
     {blobKey ''expiry/tx'' (be64 (btx_Timestamp tx) @ hash_bytes h) | h tx.
        v_txs V h = Some tx \<and> btx_Timestamp tx < cutoff}"

lemma expired_tx_keys_del:
  "v_txs V h = Some tx \<Longrightarrow> expired_tx_keys cutoff (del_tx V h) =
     expired_tx_keys cutoff V - {blobKey ''expiry/tx'' (be64 (btx_Timestamp tx) @ hash_bytes h)}"
  unfolding expired_tx_keys_def del_tx_def by (fastforce split: if_splits)

lemma prune_txs_del:
  "expired_tx cutoff V h \<Longrightarrow> prune_txs cutoff (del_tx V h) = prune_txs cutoff V"
  by (intro blob_view.equality) (auto simp: prune_txs_def expired_tx_def del_tx_def fun_eq_iff)

lemma prune_txs_idle: "(\<And>h. \<not> expired_tx cutoff V h) \<Longrightarrow> prune_txs cutoff V = V"
  by (simp add: prune_txs_def)

lemma pruneKind_tx_yields:
  assumes rep: "blob_rep b V" and ok: "view_ok V" and live: "\<And>c. \<not> expired_channel cutoff V c"
  shows "yields b (pruneKind ''tx'' cutoff b)
    (\<lambda>b'. blob_rep b' (prune_txs cutoff V) \<and> view_ok (prune_txs cutoff V) \<and> same_faults b b')"
proof -
  let ?ks = "dscan (blobKey ''expiry/tx'' []) (blobNumberKey ''expiry/tx'' cutoff) (pb_data b)"
  define I where "I = (\<lambda>ys b'. distinct ys \<and> (\<exists>W. blob_rep b' W \<and> view_ok W \<and> v_channels W = v_channels V \<and>
      set ys = expired_tx_keys cutoff W \<and> prune_txs cutoff W = prune_txs cutoff V))"
  have dok: "dict_ok (pb_data b)" using rep by (simp add: blob_rep_def rep_dict_ok)
  have "set ?ks = expired_tx_keys cutoff V"
    using scan_numbers [OF dok, of "''expiry/tx''" cutoff] rep
    by (auto simp: blob_rep_def rep_with_def exp_txs_def expired_tx_keys_def)
  then have start: "I ?ks b" using rep ok od.scan_distinct [OF dok] by (auto simp: I_def)
  have step: "yields d (pruneKey ''tx'' y d) (\<lambda>d'. I ys d' \<and> same_faults d d')" if "I (y # ys) d" for y ys d
  proof -
    from that obtain W where W: "blob_rep d W" "view_ok W" "distinct (y # ys)" "v_channels W = v_channels V"
      "insert y (set ys) = expired_tx_keys cutoff W" "prune_txs cutoff W = prune_txs cutoff V"
      by (auto simp: I_def)
    then have "y \<in> expired_tx_keys cutoff W" by blast
    then obtain h tx where h: "v_txs W h = Some tx" "btx_Timestamp tx < cutoff"
      and y: "y = blobKey ''expiry/tx'' (be64 (btx_Timestamp tx) @ hash_bytes h)"
      by (auto simp: expired_tx_keys_def)
    have "btx_Timestamp tx < ch_ExpiresAt r" if "v_channels W c = Some r" for c r
      using live [of c] that h(2) W(4) by (force simp: expired_channel_def)
    then have vok: "view_ok (del_tx W h)" using view_ok_del_tx [OF W(2) h(1)] by blast
    have "I ys d'" if "blob_rep d' (del_tx W h)" for d'
    proof -
      have "set ys = expired_tx_keys cutoff (del_tx W h)"
        using W(3,5) by (auto simp: expired_tx_keys_del [OF h(1)] y)
      moreover have "prune_txs cutoff (del_tx W h) = prune_txs cutoff V"
        using W(6) h by (simp add: prune_txs_del expired_tx_def)
      moreover have "v_channels (del_tx W h) = v_channels V" using W(4) by (simp add: del_tx_def)
      ultimately show ?thesis using that W(3) vok by (auto simp: I_def)
    qed
    with pruneKey_tx_yields [OF W(1,2) h(1)] y show ?thesis
      by (auto elim!: yields_mono)
  qed
  have fin: "blob_rep b' (prune_txs cutoff V) \<and> view_ok (prune_txs cutoff V)" if "I [] b'" for b'
  proof -
    from that obtain W where W: "blob_rep b' W" "view_ok W" "expired_tx_keys cutoff W = {}"
      "prune_txs cutoff W = prune_txs cutoff V" by (auto simp: I_def)
    then have "prune_txs cutoff W = W"
      by (intro prune_txs_idle) (auto simp: expired_tx_keys_def expired_tx_def)
    with W show ?thesis by simp
  qed
  have "yields b (foldE (pruneKey ''tx'') ?ks b) (\<lambda>b'. I [] b' \<and> same_faults b b')"
    using yields_foldE [of I, OF start step] .
  with fin have "yields b (foldE (pruneKey ''tx'') ?ks b)
      (\<lambda>b'. blob_rep b' (prune_txs cutoff V) \<and> view_ok (prune_txs cutoff V) \<and> same_faults b b')"
    by (auto elim!: yields_mono)
  then show ?thesis by (simp add: pruneKind_def Let_def yields_def fault_free_def)
qed

lemma foldE_pair: "foldE f [x, y] s = bindE (f x s) (f y)"
proof (cases "f x s")
  case (Inr t)
  then show ?thesis by (cases "f y t") simp_all
qed simp

lemma prune_channels_live: "\<not> expired_channel cutoff (prune_channels cutoff V) c"
  by (auto simp: expired_channel_def prune_channels_def)

lemma pruneBlob_impl:
  assumes "blob_rep b V" "view_ok V"
  shows "impl b (pruneBlob cutoff b) (\<lambda>b' W. blob_rep b' W \<and> view_ok W) (view_prune cutoff V)"
proof -
  have spec: "view_prune cutoff V =
      Option.bind (if prunable cutoff V then Some (prune_channels cutoff V) else None) (\<lambda>W. Some (prune_txs cutoff W))"
    by (simp add: view_prune_def prune_view_def)
  show ?thesis unfolding pruneBlob_def foldE_pair spec
  proof (rule impl_bind [OF pruneKind_channel_impl [OF assms]])
    fix b1 W
    assume b1: "blob_rep b1 W \<and> view_ok W" and W: "(if prunable cutoff V then Some (prune_channels cutoff V) else None) = Some W"
    then have "\<not> expired_channel cutoff W c" for c by (auto simp: prune_channels_live split: if_splits)
    with b1 show "impl b1 (pruneKind ''tx'' cutoff b1) (\<lambda>b' W. blob_rep b' W \<and> view_ok W) (Some (prune_txs cutoff W))"
      unfolding impl_Some by (intro yields_mono [OF pruneKind_tx_yields]) auto
  qed
qed

section \<open>The latest block\<close>

definition latest_is :: "u64 option \<Rightarrow> blob_view \<Rightarrow> bool" where
  "latest_is l V \<longleftrightarrow> (case l of None \<Rightarrow> dom (v_blocks V) = {}
     | Some n \<Rightarrow> n \<in> dom (v_blocks V) \<and> (\<forall>i \<in> dom (v_blocks V). i \<le> n))"

lemma latestBlockIndex_yields:
  assumes "blob_rep b V"
  shows "yields b (latestBlockIndex b) (\<lambda>l. latest_is l V)"
proof -
  let ?ks = "dscan (blobKey ''index'' []) (ascii ''blob/index0'') (pb_data b)"
  have dok: "dict_ok (pb_data b)" and suf: "suffixes ''index'' b = be64 ` dom (v_blocks V)"
    using assms by (simp_all add: blob_rep_def rep_defs)
  have keys: "set ?ks = ixKey ` dom (v_blocks V)"
  proof (rule set_eqI)
    fix k
    have "k \<in> set ?ks \<longleftrightarrow> (blobKey ''index'' [] \<le> k \<and> k < ascii ''blob/index0'') \<and> dget (pb_data b) k \<noteq> None"
      unfolding od.set_scan [OF dok] by simp
    also have "\<dots> \<longleftrightarrow> (\<exists>s \<in> suffixes ''index'' b. k = blobKey ''index'' s)"
      unfolding index_range suffixes_def by auto
    also have "\<dots> \<longleftrightarrow> k \<in> ixKey ` dom (v_blocks V)"
      unfolding suf blobNumberKey_def by auto
    finally show "k \<in> set ?ks \<longleftrightarrow> k \<in> ixKey ` dom (v_blocks V)" .
  qed
  show ?thesis
  proof (cases "?ks = []")
    case True
    with keys have "dom (v_blocks V) = {}" by simp
    with True show ?thesis by (simp add: latestBlockIndex_def latest_is_def Let_def yields_def fault_free_def)
  next
    case False
    with keys obtain n where n: "last ?ks = ixKey n" "n \<in> dom (v_blocks V)"
      using last_in_set [OF False] by auto
    have "i \<le> n" if "i \<in> dom (v_blocks V)" for i
    proof -
      have "ixKey i \<in> set ?ks" using that keys by blast
      then have "ixKey i \<le> last ?ks"
        using od.last_scan_greatest [OF dok False] unfolding od.set_scan [OF dok] by blast
      then show ?thesis using n(1) index_order by simp
    qed
    with n False show ?thesis
      by (simp add: latestBlockIndex_def latest_is_def Let_def yields_def fault_free_def
          blobNumberKey_def blobKey_def uint64_be_be64 [of n "[]", simplified])
  qed
qed

section \<open>Identical records\<close>

text \<open>Writing a record that is absent or identical.\<close>

lemma putIdentical_conflict:
  "dget (pb_data b) k = Some d \<Longrightarrow> d \<noteq> raw \<Longrightarrow> \<exists>e. putIdentical b k raw = Inl e"
  by (cases "pb_getErr b k") (simp_all add: putIdentical_def readValue_def)

lemma putIdentical_yields:
  "dget (pb_data b) k = None \<or> dget (pb_data b) k = Some raw \<Longrightarrow>
   yields b (putIdentical b k raw) (\<lambda>b'. b' = b\<lparr>pb_data := dput k raw (pb_data b)\<rparr>)"
  by (auto simp: putIdentical_def yields_def readValue_def batchSet_def fault_free_def)

section \<open>Adding transactions\<close>

definition view_put_tx :: "u64 \<Rightarrow> BlobTransaction \<Rightarrow> blob_view \<Rightarrow> blob_view option" where
  "view_put_tx cutoff tx V =
     (if btx_Timestamp tx < cutoff then Some V
      else if btx_Missing tx \<and> btx_Frames tx \<noteq> [] then None
      else case v_txs V (btx_Hash tx) of
        None \<Rightarrow> Some (add_tx V tx)
      | Some old \<Rightarrow> if old = tx then Some V else None)"

lemma exp_txs_add:
  "v_txs V (btx_Hash tx) = None \<Longrightarrow>
     exp_txs (add_tx V tx) = insert (be64 (btx_Timestamp tx) @ hash_bytes (btx_Hash tx)) (exp_txs V)"
  unfolding exp_txs_def add_tx_def by (fastforce split: if_splits)

lemma exp_txs_mem:
  "v_txs V (btx_Hash tx) = Some tx \<Longrightarrow> be64 (btx_Timestamp tx) @ hash_bytes (btx_Hash tx) \<in> exp_txs V"
  by (auto simp: exp_txs_def)

lemma add_tx_same: "v_txs V (btx_Hash tx) = Some tx \<Longrightarrow> add_tx V tx = V"
  by (simp add: add_tx_def map_upd_triv)

lemma putTransaction_impl:
  assumes rep: "blob_rep b V"
  shows "impl b (putTransaction cutoff tx b) blob_rep (view_put_tx cutoff tx V)"
proof (cases "btx_Timestamp tx < cutoff \<or> btx_Missing tx \<and> btx_Frames tx \<noteq> []")
  case True
  with rep show ?thesis by (auto simp: impl_def view_put_tx_def putTransaction_def)
next
  case False
  let ?h = "btx_Hash tx"
  have look: "dget (pb_data b) (txKey ?h) = map_option TxDoc (v_txs V ?h)"
    using rep rep_lookup(1) by (simp add: blob_rep_def)
  show ?thesis
  proof (cases "\<exists>old. v_txs V ?h = Some old \<and> old \<noteq> tx")
    case True
    then obtain old where "v_txs V ?h = Some old" "old \<noteq> tx" by blast
    moreover from this look obtain e where "putIdentical b (txKey ?h) (TxDoc tx) = Inl e"
      using putIdentical_conflict [of b "txKey ?h" "TxDoc old" "TxDoc tx"] by auto
    ultimately show ?thesis using False
      by (auto simp: impl_def view_put_tx_def putTransaction_def)
  next
    case fits: False
    let ?V = "add_tx V tx"
    have spec: "view_put_tx cutoff tx V = Some ?V"
      using False fits by (auto simp: view_put_tx_def add_tx_same split: option.splits)
    have exp: "insert (be64 (btx_Timestamp tx) @ hash_bytes ?h) (exp_txs V) = exp_txs ?V"
      using fits exp_txs_add [of V tx] exp_txs_mem [of V tx]
      by (cases "v_txs V ?h"; simp add: add_tx_same insert_absorb)+
    have ech: "exp_channels V = exp_channels ?V"
      by (simp add: exp_channels_def add_tx_def)
    have put: "yields b (putIdentical b (txKey ?h) (TxDoc tx)) (\<lambda>b1. b1 = b\<lparr>pb_data := dput (txKey ?h) (TxDoc tx) (pb_data b)\<rparr>)"
      using fits look by (cases "v_txs V ?h") (auto intro: putIdentical_yields)
    have "rep_with (b\<lparr>pb_data := dput (txKey ?h) (TxDoc tx) (pb_data b)\<rparr>) ?V (exp_txs V) (exp_channels V)"
      using rep_put_tx [OF rep [unfolded blob_rep_def]] by (simp add: add_tx_def)
    from rep_put_expiry(1) [OF this, of "be64 (btx_Timestamp tx) @ hash_bytes ?h" EmptyDoc]
    have "yields b (bindE (putIdentical b (txKey ?h) (TxDoc tx)) (\<lambda>b1. batchSet b1 (txExp (btx_Timestamp tx) ?h) EmptyDoc))
        (\<lambda>b'. blob_rep b' ?V \<and> same_faults b b')"
      by (intro yields_bind [OF put])
        (auto simp: expirationKey_eq blob_rep_def exp ech batchSet_def yields_def fault_free_def)
    with False spec show ?thesis by (auto simp: impl_Some putTransaction_def)
  qed
qed

lemma channel_ok_mono:
  assumes "channel_ok V c r" and txs: "\<And>h x. v_txs V h = Some x \<Longrightarrow> v_txs W h = Some x"
    and blocks: "\<And>i x. v_blocks V i = Some x \<Longrightarrow> v_blocks W i = Some x"
  shows "channel_ok W c r"
  using assms(1) unfolding channel_ok_def by (meson txs blocks)

lemma view_ok_put_tx:
  assumes "view_ok V" "view_put_tx cutoff tx V = Some W"
  shows "view_ok W"
proof (cases "W = V")
  case False
  with assms(2) have new: "v_txs V (btx_Hash tx) = None" and W: "W = add_tx V tx"
    and frames: "btx_Missing tx \<longrightarrow> btx_Frames tx = []"
    by (auto simp: view_put_tx_def split: if_splits option.splits)
  have "channel_ok W c r" if "channel_ok V c r" for c r
    using that by (rule channel_ok_mono) (use new in \<open>auto simp: W add_tx_def\<close>)
  with assms(1) frames show ?thesis unfolding view_ok_def W by (simp add: add_tx_def)
qed (use assms in simp)

section \<open>Adding channels\<close>

definition sources_ok :: "blob_view \<Rightarrow> hash list \<Rightarrow> bool" where
  "sources_ok V hs \<longleftrightarrow> (\<forall>h \<in> set hs. \<exists>tx. v_txs V h = Some tx \<and> \<not> btx_Missing tx)"

definition tx_time :: "blob_view \<Rightarrow> hash \<Rightarrow> u64" where
  "tx_time V h = (case v_txs V h of None \<Rightarrow> max_u64 | Some tx \<Rightarrow> btx_Timestamp tx)"

definition oldest_source :: "blob_view \<Rightarrow> hash list \<Rightarrow> u64" where
  "oldest_source V hs = Min (set (max_u64 # map (tx_time V) hs))"

definition view_put_block :: "ChannelRecord \<Rightarrow> u64 \<times> Block \<Rightarrow> blob_view \<Rightarrow> blob_view option" where
  "view_put_block r = (\<lambda>(i, blk) V.
     if blk_Index blk \<noteq> i \<or> blk_BatchIndex blk \<noteq> bat_Index (ch_Batch r) then None
     else if v_blocks V i = None \<or> v_blocks V i = Some (ch_ID r, blk)
     then Some (add_block (ch_ID r) V blk) else None)"

definition view_put_channel :: "u64 \<Rightarrow> BlobChannel \<Rightarrow> blob_view \<Rightarrow> blob_view option" where
  "view_put_channel cutoff ch V =
     (let r = bc_Record ch in
      if ch_Sources r = [] \<or> length (ch_Blocks r) \<noteq> length (bc_Blocks ch) \<or> bc_Blocks ch = [] \<or> ch_ID r = []
        \<or> \<not> sources_ok V (ch_Sources r) \<or> ch_ExpiresAt r \<noteq> oldest_source V (ch_Sources r)
      then None
      else if ch_ExpiresAt r < cutoff then Some V
      else if v_channels V (ch_ID r) = None \<or> v_channels V (ch_ID r) = Some r
      then foldO (view_put_block r) (zip (ch_Blocks r) (bc_Blocks ch))
             (V\<lparr>v_channels := (v_channels V)(ch_ID r \<mapsto> r)\<rparr>)
      else None)"

lemma oldest_source_fold: "oldest_source V hs = fold min (map (tx_time V) hs) max_u64"
  unfolding oldest_source_def by (rule Min.set_eq_fold)

text \<open>The loop over the sources computes their minimum.\<close>

lemma checkSources_ok:
  assumes rep: "blob_rep b V" and ok: "view_ok V" and "sources_ok V hs"
  shows "yields b (foldE (checkSourceTx b) hs t) (\<lambda>o'. o' = fold min (map (tx_time V) hs) t)"
  using assms(3)
proof (induction hs arbitrary: t)
  case (Cons h hs)
  then obtain tx where tx: "v_txs V h = Some tx" "\<not> btx_Missing tx" by (auto simp: sources_ok_def)
  then have "btx_Hash tx = h" using ok by (simp add: view_ok_def)
  moreover have "dget (pb_data b) (txKey h) = Some (TxDoc tx)"
    using rep_lookup(1) rep tx by (simp add: blob_rep_def)
  ultimately have "yields b (checkSourceTx b h t) (\<lambda>o'. o' = min (tx_time V h) t)"
    unfolding checkSourceTx_def using tx
    by (intro yields_bind [OF yields_readRequired]) (auto simp: tx_time_def min_def)
  moreover have "sources_ok V hs" using Cons.prems by (simp add: sources_ok_def)
  ultimately show ?case
    using Cons.IH [of "min (tx_time V h) t"] by (auto intro: yields_bind simp: comp_def)
qed simp

lemma checkSources_bad:
  assumes rep: "blob_rep b V" and "\<not> sources_ok V hs"
  shows "\<exists>e. foldE (checkSourceTx b) hs t = Inl e"
  using assms(2)
proof (induction hs arbitrary: t)
  case (Cons h hs)
  have look: "dget (pb_data b) (txKey h) = map_option TxDoc (v_txs V h)"
    using rep_lookup(1) rep by (simp add: blob_rep_def)
  show ?case
  proof (cases "checkSourceTx b h t")
    case (Inr t')
    with look have "\<exists>tx. v_txs V h = Some tx \<and> \<not> btx_Missing tx"
      by (auto simp: checkSourceTx_def readRequired_def readJSON_def res_simps split: if_splits option.splits)
    with Cons.prems have "\<not> sources_ok V hs" by (auto simp: sources_ok_def)
    from Cons.IH [OF this] Inr show ?thesis by simp
  qed simp
qed (simp add: sources_ok_def)

text \<open>The block loop, on the representation with the expiry keys fixed.\<close>

lemma putBlock_impl:
  assumes rep: "rep_with b V etx ech"
  shows "impl b (putBlock r p b) (\<lambda>b V. rep_with b V etx ech) (view_put_block r p V)"
proof -
  obtain i blk where p: "p = (i, blk)" by force
  show ?thesis
  proof (cases "blk_Index blk \<noteq> i \<or> blk_BatchIndex blk \<noteq> bat_Index (ch_Batch r)")
    case True
    then show ?thesis by (auto simp: p impl_def putBlock_def view_put_block_def)
  next
    case valid: False
    have ix: "dget (pb_data b) (ixKey i) = map_option (StringDoc \<circ> fst) (v_blocks V i)"
      and bk: "dget (pb_data b) (bkKey i) = map_option (BlockDoc \<circ> snd) (v_blocks V i)"
      using rep_lookup(3,4) [OF rep] by simp_all
    let ?b1 = "b\<lparr>pb_data := dput (ixKey i) (StringDoc (ch_ID r)) (pb_data b)\<rparr>"
    have bk1: "dget (pb_data ?b1) (bkKey i) = dget (pb_data b) (bkKey i)"
      using rep_dict_ok [OF rep] by (simp add: dict_simps blobNumberKey_def)
    show ?thesis
    proof (cases "v_blocks V i = None \<or> v_blocks V i = Some (ch_ID r, blk)")
      case True
      have first: "yields b (putIdentical b (ixKey i) (StringDoc (ch_ID r))) (\<lambda>b1. b1 = ?b1)"
        using True ix by (intro putIdentical_yields) auto
      have second: "yields ?b1 (putIdentical ?b1 (bkKey i) (BlockDoc blk))
          (\<lambda>b2. b2 = ?b1\<lparr>pb_data := dput (bkKey i) (BlockDoc blk) (pb_data ?b1)\<rparr>)"
        using True bk bk1 by (intro putIdentical_yields) auto
      have "rep_with (?b1\<lparr>pb_data := dput (bkKey i) (BlockDoc blk) (pb_data ?b1)\<rparr>) (add_block (ch_ID r) V blk) etx ech"
        using rep_put_block [OF rep, of i blk "ch_ID r"] valid by (simp add: add_block_def)
      with second have "yields b (putIdentical ?b1 (bkKey i) (BlockDoc blk))
          (\<lambda>b'. rep_with b' (add_block (ch_ID r) V blk) etx ech \<and> same_faults b b')"
        by (intro yields_same [of b ?b1]) (auto elim!: yields_mono)
      then have "yields b (bindE (putIdentical b (ixKey i) (StringDoc (ch_ID r)))
          (\<lambda>b1. putIdentical b1 (bkKey i) (BlockDoc blk)))
          (\<lambda>b'. rep_with b' (add_block (ch_ID r) V blk) etx ech \<and> same_faults b b')"
        by (intro yields_bind [OF first]) simp
      then show ?thesis
        using valid True by (auto simp: p impl_Some putBlock_def view_put_block_def)
    next
      case False
      then obtain c0 blk0 where old: "v_blocks V i = Some (c0, blk0)" "c0 \<noteq> ch_ID r \<or> blk0 \<noteq> blk" by auto
      have "\<exists>e. bindE (putIdentical b (ixKey i) (StringDoc (ch_ID r))) (\<lambda>b1. putIdentical b1 (bkKey i) (BlockDoc blk)) = Inl e"
      proof (cases "c0 = ch_ID r")
        case True
        with old bk have "\<exists>e. putIdentical ?b1 (bkKey i) (BlockDoc blk) = Inl e"
          by (intro putIdentical_conflict [of _ _ "BlockDoc blk0"]) (use bk1 in auto)
        then show ?thesis
          by (cases "putIdentical b (ixKey i) (StringDoc (ch_ID r))")
            (auto simp: putIdentical_def res_simps split: if_splits)
      next
        case False
        with old ix have "\<exists>e. putIdentical b (ixKey i) (StringDoc (ch_ID r)) = Inl e"
          by (intro putIdentical_conflict [of _ _ "StringDoc c0"]) auto
        then show ?thesis by auto
      qed
      with valid False show ?thesis by (auto simp: p impl_None putBlock_def view_put_block_def)
    qed
  qed
qed

lemma view_put_block_Some:
  "view_put_block r p V = Some W \<longleftrightarrow> blk_Index (snd p) = fst p \<and>
     blk_BatchIndex (snd p) = bat_Index (ch_Batch r) \<and>
     (v_blocks V (fst p) = None \<or> v_blocks V (fst p) = Some (ch_ID r, snd p)) \<and>
     W = V\<lparr>v_blocks := (v_blocks V)(fst p \<mapsto> (ch_ID r, snd p))\<rparr>"
  by (cases p) (auto simp: view_put_block_def add_block_def)

lemma put_blocks_frame:
  assumes "foldO (view_put_block r) ps V = Some W"
  shows "v_txs W = v_txs V \<and> v_channels W = v_channels V"
  using assms by (rule foldO_invariant) (auto simp: view_put_block_Some)

lemma put_blocks_keep:
  assumes "foldO (view_put_block r) ps V = Some W" and "v_blocks V i = Some x"
  shows "v_blocks W i = Some x"
  using assms by (rule foldO_invariant) (auto simp: view_put_block_Some)

lemma put_blocks_new:
  assumes "foldO (view_put_block r) ps V = Some W" and "p \<in> set ps"
  shows "v_blocks W (fst p) = Some (ch_ID r, snd p) \<and> blk_Index (snd p) = fst p \<and>
    blk_BatchIndex (snd p) = bat_Index (ch_Batch r)"
  using assms
proof (induction ps arbitrary: V)
  case (Cons q ps)
  then obtain U where U: "view_put_block r q V = Some U" "foldO (view_put_block r) ps U = Some W"
    by (auto simp: bind_eq_Some_conv)
  show ?case
  proof (cases "p = q")
    case True
    with U put_blocks_keep [OF U(2), of "fst q"] show ?thesis by (auto simp: view_put_block_Some)
  next
    case False
    with Cons U show ?thesis by auto
  qed
qed simp

lemma put_blocks_only:
  assumes "foldO (view_put_block r) ps V = Some W" and "v_blocks W i = Some x"
  shows "v_blocks V i = Some x \<or> (\<exists>blk. (i, blk) \<in> set ps \<and> x = (ch_ID r, blk))"
  using assms
proof (induction ps arbitrary: V)
  case (Cons q ps)
  then obtain U where U: "view_put_block r q V = Some U" "foldO (view_put_block r) ps U = Some W"
    by (auto simp: bind_eq_Some_conv)
  from Cons.IH [OF U(2) Cons.prems(2)] U(1) show ?case
    by (cases q) (auto simp: view_put_block_Some split: if_splits)
qed simp

lemma exp_channels_add:
  "v_channels V c = None \<or> v_channels V c = Some r \<Longrightarrow>
     exp_channels (V\<lparr>v_channels := (v_channels V)(c \<mapsto> r)\<rparr>) =
       insert (be64 (ch_ExpiresAt r) @ ascii c) (exp_channels V)"
  unfolding exp_channels_def by (fastforce split: if_splits)

lemma exp_cong:
  "v_txs V = v_txs W \<Longrightarrow> exp_txs V = exp_txs W"
  "v_channels V = v_channels W \<Longrightarrow> exp_channels V = exp_channels W"
  by (simp_all add: exp_txs_def exp_channels_def)

lemma putChannel_impl:
  assumes rep: "blob_rep b V" and ok: "view_ok V"
  shows "impl b (putChannel cutoff ch b) blob_rep (view_put_channel cutoff ch V)"
proof -
  let ?r = "bc_Record ch"
  let ?V1 = "V\<lparr>v_channels := (v_channels V)(ch_ID ?r \<mapsto> ?r)\<rparr>"
  let ?store = "\<lambda>oldest. bindE (putIdentical b (chKey (ch_ID ?r)) (ChannelDoc ?r)) (\<lambda>b1.
      bindE (foldE (putBlock ?r) (zip (ch_Blocks ?r) (bc_Blocks ch)) b1) (\<lambda>b2.
        batchSet b2 (chExp oldest (ch_ID ?r)) EmptyDoc))"
  let ?ps = "zip (ch_Blocks ?r) (bc_Blocks ch)"
  have store: "impl b (?store (ch_ExpiresAt ?r)) blob_rep (foldO (view_put_block ?r) ?ps ?V1)"
    if fits: "v_channels V (ch_ID ?r) = None \<or> v_channels V (ch_ID ?r) = Some ?r"
  proof -
    have first: "impl b (putIdentical b (chKey (ch_ID ?r)) (ChannelDoc ?r))
        (\<lambda>b1 W. rep_with b1 W (exp_txs V) (exp_channels V)) (Some ?V1)"
      unfolding impl_Some using fits rep_lookup(2) [OF rep [unfolded blob_rep_def]]
      by (intro yields_mono [OF putIdentical_yields]) (auto simp: rep_put_channel [OF rep [unfolded blob_rep_def]])
    have last: "impl b2 (batchSet b2 (chExp (ch_ExpiresAt ?r) (ch_ID ?r)) EmptyDoc) blob_rep (Some W)"
      if "rep_with b2 W (exp_txs V) (exp_channels V)" and "foldO (view_put_block ?r) ?ps ?V1 = Some W" for b2 W
    proof -
      from conjunct1 [OF put_blocks_frame [OF that(2)]] conjunct2 [OF put_blocks_frame [OF that(2)]] exp_channels_add [OF fits]
      have "exp_txs V = exp_txs W" "insert (be64 (ch_ExpiresAt ?r) @ ascii (ch_ID ?r)) (exp_channels V) = exp_channels W"
        using exp_cong [of W ?V1] exp_cong(1) [of V ?V1] by simp_all
      with rep_put_expiry(2) [OF that(1), of "be64 (ch_ExpiresAt ?r) @ ascii (ch_ID ?r)" EmptyDoc] show ?thesis
        unfolding impl_Some expirationKey_eq blob_rep_def
        by (intro yields_mono [OF yields_batchSet]) auto
    qed
    have "impl b (?store (ch_ExpiresAt ?r)) blob_rep (Option.bind (Some ?V1) (\<lambda>W1.
        Option.bind (foldO (view_put_block ?r) ?ps W1) Some))"
    proof (rule impl_bind [OF first], rule impl_bind)
      fix b1 W1
      assume "rep_with b1 W1 (exp_txs V) (exp_channels V)" "Some ?V1 = Some W1"
      then show "impl b1 (foldE (putBlock ?r) ?ps b1) (\<lambda>b W. rep_with b W (exp_txs V) (exp_channels V))
          (foldO (view_put_block ?r) ?ps W1)"
        by (intro impl_foldE putBlock_impl)
    next
      fix b1 W1 b2 W2
      assume "Some ?V1 = Some W1" "rep_with b2 W2 (exp_txs V) (exp_channels V)"
        "foldO (view_put_block ?r) ?ps W1 = Some W2"
      with last show "impl b2 (batchSet b2 (chExp (ch_ExpiresAt ?r) (ch_ID ?r)) EmptyDoc) blob_rep (Some W2)" by simp
    qed
    then show ?thesis by simp
  qed
  have conflict: "\<exists>e. ?store (ch_ExpiresAt ?r) = Inl e"
    if "\<not> (v_channels V (ch_ID ?r) = None \<or> v_channels V (ch_ID ?r) = Some ?r)"
  proof -
    from that obtain old where old: "v_channels V (ch_ID ?r) = Some old" "old \<noteq> ?r" by auto
    then have "dget (pb_data b) (chKey (ch_ID ?r)) = Some (ChannelDoc old)"
      using rep_lookup(2) [OF rep [unfolded blob_rep_def]] by simp
    from putIdentical_conflict [OF this] old(2) show ?thesis by fastforce
  qed
  show ?thesis
  proof (cases "ch_Sources ?r = [] \<or> length (ch_Blocks ?r) \<noteq> length (bc_Blocks ch) \<or> bc_Blocks ch = [] \<or> ch_ID ?r = []")
    case True
    then show ?thesis by (auto simp: impl_def putChannel_def view_put_channel_def Let_def)
  next
    case shape: False
    show ?thesis
    proof (cases "sources_ok V (ch_Sources ?r)")
      case False
      with checkSources_bad [OF rep False, of max_u64] shape show ?thesis
        by (auto simp: impl_def putChannel_def view_put_channel_def Let_def)
    next
      case src: True
      let ?spec = "if ch_ExpiresAt ?r \<noteq> oldest_source V (ch_Sources ?r) then None
        else if ch_ExpiresAt ?r < cutoff then Some V
        else if v_channels V (ch_ID ?r) = None \<or> v_channels V (ch_ID ?r) = Some ?r
        then foldO (view_put_block ?r) ?ps ?V1 else None"
      have spec: "view_put_channel cutoff ch V = ?spec"
        using shape src by (auto simp: view_put_channel_def Let_def)
      let ?rest = "\<lambda>oldest. if ch_ExpiresAt ?r \<noteq> oldest then Inl (Err ErrIntegrity [])
        else if oldest < cutoff then Inr b else ?store oldest"
      have code: "putChannel cutoff ch b = bindE (foldE (checkSourceTx b) (ch_Sources ?r) max_u64) ?rest"
        using shape by (simp add: putChannel_def Let_def)
      have rest: "impl b (?rest (oldest_source V (ch_Sources ?r))) blob_rep ?spec"
        using rep store conflict by (auto simp: impl_None impl_Some)
      from checkSources_ok [OF rep ok src, of max_u64, folded oldest_source_fold] rest
      show ?thesis unfolding spec code
        by (cases "foldE (checkSourceTx b) (ch_Sources ?r) max_u64")
          (auto simp: impl_def yields_def split: option.splits)
    qed
  qed
qed

lemma oldest_source_bounds:
  assumes "hs \<noteq> []"
  shows "\<forall>h \<in> set hs. oldest_source V hs \<le> tx_time V h" "\<exists>h \<in> set hs. tx_time V h = oldest_source V hs"
proof -
  have "oldest_source V hs = min max_u64 (Min (tx_time V ` set hs))"
    unfolding oldest_source_def using assms by (simp add: Min_insert)
  then have eq: "oldest_source V hs = Min (tx_time V ` set hs)"
    using min_absorb2 [OF word_n1_ge, of "Min (tx_time V ` set hs)"] by simp
  then show "\<forall>h \<in> set hs. oldest_source V hs \<le> tx_time V h" by simp
  have "Min (tx_time V ` set hs) \<in> tx_time V ` set hs" using assms by (intro Min_in) auto
  with eq show "\<exists>h \<in> set hs. tx_time V h = oldest_source V hs" by auto
qed

lemma view_ok_owner:
  "view_ok V \<Longrightarrow> v_blocks V i = Some (c, blk) \<Longrightarrow> \<exists>r. v_channels V c = Some r \<and> i \<in> set (ch_Blocks r)"
  unfolding view_ok_def by blast

lemma view_put_channel_stored:
  assumes "view_put_channel cutoff ch V = Some W" and "\<not> ch_ExpiresAt (bc_Record ch) < cutoff"
  shows "ch_Sources (bc_Record ch) \<noteq> []" "length (ch_Blocks (bc_Record ch)) = length (bc_Blocks ch)"
    "sources_ok V (ch_Sources (bc_Record ch))"
    "ch_ExpiresAt (bc_Record ch) = oldest_source V (ch_Sources (bc_Record ch))"
    "v_channels V (ch_ID (bc_Record ch)) = None \<or> v_channels V (ch_ID (bc_Record ch)) = Some (bc_Record ch)"
    "foldO (view_put_block (bc_Record ch)) (zip (ch_Blocks (bc_Record ch)) (bc_Blocks ch))
       (V\<lparr>v_channels := (v_channels V)(ch_ID (bc_Record ch) \<mapsto> bc_Record ch)\<rparr>) = Some W"
  using assms by (auto simp: view_put_channel_def Let_def split: if_splits)

lemma in_zip_left: "length xs = length ys \<Longrightarrow> x \<in> set xs \<Longrightarrow> \<exists>y. (x, y) \<in> set (zip xs ys)"
  by (metis fst_conv in_set_impl_in_set_zip1)

lemma view_ok_put_channel:
  assumes ok: "view_ok V" and put: "view_put_channel cutoff ch V = Some W"
  shows "view_ok W"
proof (cases "ch_ExpiresAt (bc_Record ch) < cutoff")
  case True
  with put have "W = V" by (auto simp: view_put_channel_def Let_def split: if_splits)
  with ok show ?thesis by simp
next
  case False
  let ?r = "bc_Record ch"
  let ?V1 = "V\<lparr>v_channels := (v_channels V)(ch_ID ?r \<mapsto> ?r)\<rparr>"
  note st = view_put_channel_stored [OF put False]
  note frame = put_blocks_frame [OF st(6)]
  have keep: "v_blocks W i = Some x" if "v_blocks V i = Some x" for i x
    using put_blocks_keep [OF st(6)] that by simp
  have txs: "v_txs W = v_txs V" and chans: "v_channels W = (v_channels V)(ch_ID ?r \<mapsto> ?r)"
    using frame by simp_all
  have new: "channel_ok W (ch_ID ?r) ?r"
  proof -
    have "\<exists>blk. v_blocks W i = Some (ch_ID ?r, blk) \<and> blk_Index blk = i \<and> blk_BatchIndex blk = bat_Index (ch_Batch ?r)"
      if "i \<in> set (ch_Blocks ?r)" for i
      using in_zip_left [OF st(2) that] put_blocks_new [OF st(6)] by force
    moreover have "\<exists>tx. v_txs V h = Some tx \<and> \<not> btx_Missing tx \<and> tx_time V h = btx_Timestamp tx"
      if "h \<in> set (ch_Sources ?r)" for h
      using st(3) that by (auto simp: sources_ok_def tx_time_def)
    moreover note oldest_source_bounds [OF st(1), of V]
    ultimately show ?thesis
      unfolding channel_ok_def txs st(4) using st(1) by fastforce
  qed
  have "channel_ok W c r" if "v_channels W c = Some r" for c r
  proof (cases "c = ch_ID ?r")
    case True
    with that chans new show ?thesis by simp
  next
    case False
    with that chans ok have "channel_ok V c r" by (simp add: view_ok_def)
    then show ?thesis by (rule channel_ok_mono) (use txs keep in auto)
  qed
  moreover have "\<exists>r. v_channels W c = Some r \<and> i \<in> set (ch_Blocks r)" if blk: "v_blocks W i = Some (c, blk)" for i c blk
  proof -
    from put_blocks_only [OF st(6) blk]
    consider "v_blocks V i = Some (c, blk)" | "i \<in> set (ch_Blocks ?r)" "c = ch_ID ?r"
      by (auto dest: set_zip_leftD)
    then show ?thesis
    proof cases
      case 1
      with ok obtain r where "v_channels V c = Some r" "i \<in> set (ch_Blocks r)" using view_ok_owner by blast
      with st(5) chans show ?thesis by auto
    qed (use chans in auto)
  qed
  ultimately show ?thesis using ok txs unfolding view_ok_def by auto
qed

section \<open>The commit\<close>

text \<open>
  The abstract commit: add the transactions, then the channels, then prune.  It is refused if a
  record conflicts or is malformed, or if a channel past the cutoff lists a block twice.
\<close>

definition view_commit :: "u64 \<Rightarrow> BlobTransaction list \<Rightarrow> BlobChannel list \<Rightarrow> blob_view \<Rightarrow> blob_view option" where
  "view_commit cutoff txs chs V =
     Option.bind (foldO (view_put_tx cutoff) txs V) (\<lambda>V1.
       Option.bind (foldO (view_put_channel cutoff) chs V1) (view_prune cutoff))"

text \<open>What holds between commits: the view, its checkpoint, and nothing past retention.\<close>

definition blob_inv :: "pebble \<Rightarrow> BlobState \<Rightarrow> blob_view \<Rightarrow> bool" where
  "blob_inv db st V \<longleftrightarrow> blob_rep db V \<and> view_ok V \<and>
     dget (pb_data db) blobStateKey = Some (BlobStateDoc st) \<and> latest_is (bst_Latest st) V \<and>
     (\<forall>h tx. v_txs V h = Some tx \<longrightarrow> bst_Cutoff st \<le> btx_Timestamp tx)"

definition stored_state :: "BlobState \<Rightarrow> BlobState" where
  "stored_state st = (if bst_Auth st = RawNil then st\<lparr>bst_Auth := RawNull\<rparr> else st)"

definition blob_ok :: "pebble \<Rightarrow> blob_view \<Rightarrow> bool" where
  "blob_ok b V \<longleftrightarrow> blob_rep b V \<and> view_ok V"

lemma impl_blob_ok:
  assumes "impl b m blob_rep v" and "\<And>x. v = Some x \<Longrightarrow> view_ok x"
  shows "impl b m blob_ok v"
  using assms by (cases v) (auto simp: impl_def blob_ok_def elim!: yields_mono)

lemma put_phase_impl:
  assumes "blob_ok b V"
  shows "impl b (bindE (foldE (putTransaction cutoff) txs b) (\<lambda>b1.
      bindE (foldE (putChannel cutoff) chs b1) (pruneBlob cutoff))) blob_ok (view_commit cutoff txs chs V)"
  unfolding view_commit_def
proof (rule impl_bind [of _ _ blob_ok], goal_cases)
  case 1
  have "impl b (putTransaction cutoff tx b) blob_ok (view_put_tx cutoff tx V)" if "blob_ok b V" for tx b V
    using that by (intro impl_blob_ok putTransaction_impl) (auto simp: blob_ok_def view_ok_put_tx)
  with assms show ?case by (intro impl_foldE)
next
  case (2 b1 V1)
  have "impl b (putChannel cutoff ch b) blob_ok (view_put_channel cutoff ch V)" if "blob_ok b V" for ch b V
    using that by (intro impl_blob_ok putChannel_impl) (auto simp: blob_ok_def view_ok_put_channel)
  with 2(1) have "impl b1 (foldE (putChannel cutoff) chs b1) blob_ok (foldO (view_put_channel cutoff) chs V1)"
    by (intro impl_foldE)
  then show ?case
  proof (rule impl_bind, goal_cases)
    case (1 b2 V2)
    then show ?case using pruneBlob_impl [of b2 V2 cutoff] by (simp add: blob_ok_def [abs_def])
  qed
qed

lemma prune_view_cutoff:
  "v_txs (prune_view cutoff V) h = Some tx \<Longrightarrow> cutoff \<le> btx_Timestamp tx"
  by (auto simp: prune_view_def prune_txs_def expired_tx_def prune_channels_def not_less split: if_splits)

lemma blob_rep_cong:
  assumes "blob_rep b V" and "dict_ok (pb_data c)"
    and "\<And>kind x. kind \<in> {''tx'', ''channel'', ''index'', ''block'', ''expiry/tx'', ''expiry/channel''} \<Longrightarrow>
      dget (pb_data c) (blobKey kind x) = dget (pb_data b) (blobKey kind x)"
  shows "blob_rep c V"
  using assms unfolding blob_rep_def rep_defs blobNumberKey_def by simp

lemma set_blobState_rep:
  "blob_rep b V \<Longrightarrow> blob_rep (b\<lparr>pb_data := dput blobStateKey d (pb_data b)\<rparr>) V"
  by (rule blob_rep_cong) (auto simp: blob_rep_def rep_defs dict_simps)

lemma readBlobState_Inr:
  "readBlobState g = Inr st \<Longrightarrow> dget (pb_data g) blobStateKey = Some (BlobStateDoc st)"
  by (auto simp: readBlobState_def readRequired_def readJSON_def res_simps split: option.splits)

lemma readBlobState_fault_free:
  "fault_free g \<Longrightarrow> dget (pb_data g) blobStateKey = Some (BlobStateDoc st) \<Longrightarrow> readBlobState g = Inr st"
  by (simp add: readBlobState_def readRequired_def readJSON_def)

text \<open>The batch of a commit, from the checks to the new checkpoint document.\<close>

definition commit_batch ::
  "pebble \<Rightarrow> u64 \<Rightarrow> BlobState \<Rightarrow> BlobTransaction list \<Rightarrow> BlobChannel list \<Rightarrow> pebble result" where
  "commit_batch db rv after txs chs =
     bindE (bindE (foldE (putTransaction (bst_Cutoff after)) txs db) (\<lambda>b1.
       bindE (foldE (putChannel (bst_Cutoff after)) chs b1) (pruneBlob (bst_Cutoff after)))) (\<lambda>b3.
     bindE (latestBlockIndex b3) (\<lambda>latest.
       batchSet b3 blobStateKey (marshalBlobState (after\<lparr>bst_Latest := latest, bst_Revision := rv\<rparr>))))"

lemma CommitBlob_eq:
  "CommitBlob s before after txs chs =
     (if s_closed s then (Inl (Err ErrClosed ''pebble: closed''), s)
      else case readBlobState (s_db s) of Inl e \<Rightarrow> (Inl e, s) | Inr actual \<Rightarrow>
        if actual \<noteq> before then (Inl (Err ErrIntegrity ''stale Blob checkpoint''), s)
        else if bst_Revision before = max_u64 \<or> bst_Cutoff after < bst_Cutoff before
        then (Inl (Err ErrIntegrity []), s)
        else case commit_batch (s_db s) (bst_Revision before + 1) after txs chs of
            Inl e \<Rightarrow> (Inl e, s)
          | Inr b \<Rightarrow> let (r, db) = batchCommit (s_db s) b in (r, s\<lparr>s_db := db\<rparr>))"
  unfolding CommitBlob_def commit_batch_def bindE_assoc by (rule refl)

definition committed :: "u64 \<Rightarrow> BlobState \<Rightarrow> pebble \<Rightarrow> blob_view \<Rightarrow> bool" where
  "committed rv after b V \<longleftrightarrow> (\<exists>l.
     blob_inv b (stored_state (after\<lparr>bst_Latest := l, bst_Revision := rv\<rparr>)) V)"

lemma marshalBlobState_eq: "marshalBlobState st = BlobStateDoc (stored_state st)"
  by (simp add: marshalBlobState_def stored_state_def)

lemma stored_state_sel [simp]:
  "bst_Latest (stored_state st) = bst_Latest st" "bst_Cutoff (stored_state st) = bst_Cutoff st"
  "bst_Revision (stored_state st) = bst_Revision st"
  by (simp_all add: stored_state_def)

lemma commit_batch_impl:
  assumes "blob_ok db V"
  shows "impl db (commit_batch db rv after txs chs) (committed rv after) (view_commit (bst_Cutoff after) txs chs V)"
proof -
  have "impl db (commit_batch db rv after txs chs) (committed rv after)
      (Option.bind (view_commit (bst_Cutoff after) txs chs V) Some)"
    unfolding commit_batch_def
  proof (rule impl_bind [OF put_phase_impl [OF assms]])
    fix b W
    assume b: "blob_ok b W" and W: "view_commit (bst_Cutoff after) txs chs V = Some W"
    let ?st = "\<lambda>l. after\<lparr>bst_Latest := l, bst_Revision := rv\<rparr>"
    have cut: "bst_Cutoff after \<le> btx_Timestamp tx" if "v_txs W h = Some tx" for h tx
      using W that prune_view_cutoff by (auto simp: view_commit_def view_prune_def bind_eq_Some_conv split: if_splits)
    have "committed rv after (b\<lparr>pb_data := dput blobStateKey (BlobStateDoc (stored_state (?st l))) (pb_data b)\<rparr>) W"
      if "latest_is l W" for l
      unfolding committed_def blob_inv_def
      using that b cut set_blobState_rep [of b W] rep_dict_ok [of b W]
      by (intro exI [of _ l]) (auto simp: blob_ok_def blob_rep_def dict_simps)
    then have "yields b (batchSet b blobStateKey (marshalBlobState (?st l))) (\<lambda>b'. committed rv after b' W \<and> same_faults b b')"
      if "latest_is l W" for l
      using that unfolding marshalBlobState_eq by (intro yields_mono [OF yields_batchSet]) auto
    then show "impl b (bindE (latestBlockIndex b) (\<lambda>l. batchSet b blobStateKey (marshalBlobState (?st l))))
        (committed rv after) (Some W)"
      unfolding impl_Some using b by (intro yields_bind [OF latestBlockIndex_yields [of b W]]) (auto simp: blob_ok_def)
  qed
  then show ?thesis by simp
qed

text \<open>The commit is sound for the abstract one, and complete on a database without faults.\<close>

lemma CommitBlob_Inr:
  assumes "CommitBlob s before after txs chs = (Inr (), s')"
  shows "\<not> s_closed s" "readBlobState (s_db s) = Inr before" "bst_Revision before \<noteq> max_u64"
    "bst_Cutoff before \<le> bst_Cutoff after"
    "commit_batch (s_db s) (bst_Revision before + 1) after txs chs = Inr (s_db s')" "s' = s\<lparr>s_db := s_db s'\<rparr>"
  using assms unfolding CommitBlob_eq
  by (auto simp: batchCommit_def not_less split: if_splits sum.splits)

lemma CommitBlob_sound:
  assumes inv: "blob_inv (s_db s) before V"
    and run: "CommitBlob s before after txs chs = (Inr (), s')"
  shows "\<exists>V' l. view_commit (bst_Cutoff after) txs chs V = Some V' \<and>
    blob_inv (s_db s') (stored_state (after\<lparr>bst_Latest := l, bst_Revision := bst_Revision before + 1\<rparr>)) V'"
proof -
  from inv have "blob_ok (s_db s) V" by (simp add: blob_inv_def blob_ok_def)
  from commit_batch_impl [OF this, of "bst_Revision before + 1" after txs chs] CommitBlob_Inr(5) [OF run]
  show ?thesis by (auto simp: impl_def committed_def split: option.splits)
qed

lemma CommitBlob_complete:
  assumes inv: "blob_inv (s_db s) before V"
    and "\<not> s_closed s" "fault_free (s_db s)"
    and "bst_Revision before \<noteq> max_u64" "bst_Cutoff before \<le> bst_Cutoff after"
    and "view_commit (bst_Cutoff after) txs chs V \<noteq> None"
  shows "\<exists>s'. CommitBlob s before after txs chs = (Inr (), s')"
proof -
  from inv have ok: "blob_ok (s_db s) V" and "readBlobState (s_db s) = Inr before"
    using assms(3) readBlobState_fault_free by (auto simp: blob_inv_def blob_ok_def)
  moreover from commit_batch_impl [OF ok, of "bst_Revision before + 1" after txs chs] assms(3,6)
  obtain b where "commit_batch (s_db s) (bst_Revision before + 1) after txs chs = Inr b"
    by (auto simp: impl_def yields_def split: sum.splits)
  ultimately show ?thesis using assms(2-5) by (simp add: CommitBlob_eq not_less)
qed

end
