(* ===== verification/BlobReads.thy ===== *)
theory BlobReads
  imports BlobCommit
begin

text \<open>
  The two halves of the database do not disturb each other (the deposit commit keeps the
  Blob view and the Blob commit keeps the deposit queue), block reads return the retained
  block with its deposits joined from the queue, initialisation gives an empty view, and
  the properties of the Blob namespace with their witnesses.
\<close>

section \<open>What a Blob commit leaves alone\<close>

definition blob_prefixed :: "bytes \<Rightarrow> bool" where
  "blob_prefixed k \<longleftrightarrow> take 5 k = ascii ''blob/''"

definition keeps_rest :: "pebble \<Rightarrow> pebble \<Rightarrow> bool" where
  "keeps_rest b b' \<longleftrightarrow> (dict_ok (pb_data b) \<longrightarrow> dict_ok (pb_data b') \<and>
     (\<forall>k. \<not> blob_prefixed k \<longrightarrow> dget (pb_data b') k = dget (pb_data b) k))"

lemma blob_prefixed_keys [simp]:
  "blob_prefixed (blobKey kind x)" "blob_prefixed (blobNumberKey kind n)"
  "blob_prefixed (expirationKey kind t x)" "blob_prefixed blobStateKey" "blob_prefixed blobIdentityKey"
  "\<not> blob_prefixed (key n)" "\<not> blob_prefixed stateKey" "\<not> blob_prefixed identityKey"
  by (simp_all add: blob_prefixed_def key_defs)

lemma keeps_rest_refl [simp]: "keeps_rest b b"
  by (simp add: keeps_rest_def)

lemma keeps_rest_trans: "keeps_rest b c \<Longrightarrow> keeps_rest c d \<Longrightarrow> keeps_rest b d"
  by (simp add: keeps_rest_def)

lemma keeps_rest_put: "blob_prefixed k \<Longrightarrow> keeps_rest b (b\<lparr>pb_data := dput k v (pb_data b)\<rparr>)"
  by (auto simp: keeps_rest_def dict_simps)

lemma keeps_rest_del: "blob_prefixed k \<Longrightarrow> keeps_rest b (b\<lparr>pb_data := ddel k (pb_data b)\<rparr>)"
  by (auto simp: keeps_rest_def dict_simps)

text \<open>
  A batch computation that only touches Blob keys, by its structure.  Unless a database call
  fails, its errors are integrity errors.
\<close>

definition intact :: "pebble \<Rightarrow> 'a result \<Rightarrow> bool" where
  "intact b m \<longleftrightarrow> (\<forall>e. m = Inl e \<longrightarrow> fault_free b \<longrightarrow> errors_is ErrIntegrity e)"

definition rests :: "pebble \<Rightarrow> pebble result \<Rightarrow> bool" where
  "rests b m \<longleftrightarrow> intact b m \<and> (\<forall>b'. m = Inr b' \<longrightarrow> keeps_rest b b' \<and> same_faults b b')"

named_theorems rest_intros \<open>computations that only touch Blob keys\<close>

lemma intact_ends [simp]: "intact b (Inr x)" "intact b (Inl (Err ErrIntegrity m))"
  by (simp_all add: intact_def)

lemma intact_bind: "intact b m \<Longrightarrow> (\<And>x. m = Inr x \<Longrightarrow> intact b (f x)) \<Longrightarrow> intact b (bindE m f)"
  by (cases m) (simp_all add: intact_def)

lemma intact_foldE: "(\<And>x s. intact b (f x s)) \<Longrightarrow> intact b (foldE f xs s)"
  by (induction xs arbitrary: s) (auto intro!: intact_bind)

lemma intact_readRequired [rest_intros]: "intact b (readRequired dec b k)"
  by (auto simp: intact_def readRequired_def readJSON_def readValue_def fault_free_def
      bindE_Inl split: option.splits if_splits)

lemma intact_checkSourceTx [rest_intros]: "intact b (checkSourceTx b h t)"
  unfolding checkSourceTx_def by (rule intact_bind [OF intact_readRequired]) simp

lemma intact_latestBlockIndex [rest_intros]: "intact b (latestBlockIndex b)"
  by (auto simp: latestBlockIndex_def Let_def intact_def fault_free_def)

lemma rests_ends [rest_intros]: "rests b (Inl (Err ErrIntegrity m))" "rests b (Inr b)"
  by (simp_all add: rests_def)

lemma rests_if [rest_intros]: "rests b m \<Longrightarrow> rests b n \<Longrightarrow> rests b (if p then m else n)"
  by simp

lemma rests_ops [rest_intros]:
  "blob_prefixed k \<Longrightarrow> rests b (batchSet b k v)"
  "blob_prefixed k \<Longrightarrow> rests b (batchDelete b k)"
  "blob_prefixed k \<Longrightarrow> rests b (putIdentical b k v)"
  by (auto simp: rests_def intact_def fault_free_def putIdentical_def res_simps keeps_rest_put keeps_rest_del
      bindE_Inl split: if_splits)

lemma rests_read: "intact b m \<Longrightarrow> (\<And>x. m = Inr x \<Longrightarrow> rests b (f x)) \<Longrightarrow> rests b (bindE m f)"
  by (cases m) (simp_all add: rests_def intact_def)

lemma rests_bind: "rests b m \<Longrightarrow> (\<And>c. m = Inr c \<Longrightarrow> rests c (f c)) \<Longrightarrow> rests b (bindE m f)"
  by (cases m) (auto simp: rests_def intact_def same_faults_fault_free intro: keeps_rest_trans same_faults_trans)

lemma rests_foldE:
  assumes "\<And>x c. x \<in> set xs \<Longrightarrow> rests c (f x c)"
  shows "rests b (foldE f xs b)"
  using assms
proof (induction xs arbitrary: b)
  case (Cons x xs)
  then show ?case by (auto intro: rests_bind)
qed (simp add: rests_def)

lemma putTransaction_rests: "rests b (putTransaction c tx b)"
  unfolding putTransaction_def by (intro rest_intros rests_bind) simp_all

lemma putBlock_rests: "rests b (putBlock r p b)"
  unfolding putBlock_def by (cases p) (auto intro!: rest_intros rests_bind)

lemma putChannel_rests: "rests b (putChannel c ch b)"
  unfolding putChannel_def Let_def
  by (intro rest_intros, rule rests_read, intro intact_foldE rest_intros,
      intro rest_intros rests_bind rests_foldE putBlock_rests) simp_all

lemma expireBlock_rests: "rests b (expireBlock c i b)"
  unfolding expireBlock_def
  by (rule rests_read [OF intact_readRequired], rule rests_if, rule rest_intros,
      rule rests_read [OF intact_readRequired], intro rest_intros rests_bind) simp_all

lemma expireRecord_rests: "rests b (expireRecord b kind x t)"
  unfolding expireRecord_def
proof (rule rests_bind, goal_cases)
  case 1
  show ?case
    by (rule rests_if; rule rests_read [OF intact_readRequired]) (intro rest_intros rests_foldE expireBlock_rests)+
qed (intro rest_intros, simp)

lemma pruneKind_rests:
  assumes ok: "dict_ok (pb_data b)"
  shows "rests b (pruneKind kind c b)"
proof -
  have "rests d (pruneKey kind k d)"
    if "k \<in> set (dscan (blobKey (''expiry/'' @ kind) []) (blobNumberKey (''expiry/'' @ kind) c) (pb_data b))" for k d
  proof -
    from that have "blob_prefixed k" unfolding scan_numbers [OF ok] by auto
    then show ?thesis
      unfolding pruneKey_def Let_def by (intro rest_intros rests_bind expireRecord_rests)
  qed
  then have "rests b (foldE (pruneKey kind)
      (dscan (blobKey (''expiry/'' @ kind) []) (blobNumberKey (''expiry/'' @ kind) c) (pb_data b)) b)"
    by (intro rests_foldE)
  then show ?thesis by (auto simp: pruneKind_def Let_def rests_def intact_def fault_free_def)
qed

lemma pruneBlob_rests:
  assumes ok: "dict_ok (pb_data b)"
  shows "rests b (pruneBlob c b)"
  unfolding pruneBlob_def foldE_pair
proof (rule rests_bind [OF pruneKind_rests [OF ok]])
  fix b1
  assume "pruneKind ''channel'' c b = Inr b1"
  with pruneKind_rests [OF ok] ok have "dict_ok (pb_data b1)" by (auto simp: rests_def keeps_rest_def)
  then show "rests b1 (pruneKind ''tx'' c b1)" by (rule pruneKind_rests)
qed

lemma commit_batch_rests:
  assumes ok: "dict_ok (pb_data b)"
  shows "rests b (commit_batch b rv after txs chs)"
proof -
  have puts: "rests b (bindE (foldE (putTransaction (bst_Cutoff after)) txs b)
      (foldE (putChannel (bst_Cutoff after)) chs))"
    by (intro rests_bind rests_foldE putTransaction_rests putChannel_rests)
  show ?thesis
    unfolding commit_batch_def bindE_assoc [symmetric]
  proof (rule rests_bind, rule rests_bind [OF puts])
    fix c
    assume "bindE (foldE (putTransaction (bst_Cutoff after)) txs b)
      (foldE (putChannel (bst_Cutoff after)) chs) = Inr c"
    with puts ok have "dict_ok (pb_data c)" by (auto simp: rests_def keeps_rest_def)
    then show "rests c (pruneBlob (bst_Cutoff after) c)" by (rule pruneBlob_rests)
  qed (rule rests_read [OF intact_latestBlockIndex], intro rest_intros, simp)
qed

lemma CommitBlob_rest:
  assumes "dict_ok (pb_data (s_db s))" and "CommitBlob s before after txs chs = (Inr (), s')"
  shows "keeps_rest (s_db s) (s_db s')"
  using commit_batch_rests [OF assms(1)] CommitBlob_Inr(5) [OF assms(2)] by (simp add: rests_def)

lemma CommitBlob_faults:
  assumes "dict_ok (pb_data (s_db s))" and "CommitBlob s before after txs chs = (Inr (), s')"
  shows "same_faults (s_db s) (s_db s') \<and> s_closed s' = s_closed s"
proof -
  have "same_faults (s_db s) (s_db s')"
    using commit_batch_rests [OF assms(1)] CommitBlob_Inr(5) [OF assms(2)] by (simp add: rests_def)
  moreover from CommitBlob_Inr(6) [OF assms(2)] have "s_closed s' = s_closed s"
    by (metis Store.ext_inject Store.surjective Store.update_convs(1))
  ultimately show ?thesis by simp
qed

text \<open>On a working database the only errors are integrity errors.\<close>

lemma CommitBlob_integrity:
  assumes "dict_ok (pb_data (s_db s))" "\<not> s_closed s" "fault_free (s_db s)"
    and "dget (pb_data (s_db s)) blobStateKey = Some (BlobStateDoc st)"
    and "CommitBlob s before after txs chs = (Inl e, s')"
  shows "errors_is ErrIntegrity e"
proof -
  have "batchCommit (s_db s) b = (Inr (), b)" for b
    using assms(3) by (simp add: batchCommit_def fault_free_def)
  then show ?thesis
    using assms(2,3,5) readBlobState_fault_free [OF assms(3,4)]
      commit_batch_rests [OF assms(1), of "bst_Revision before + 1" after txs chs]
    by (auto simp: CommitBlob_eq rests_def intact_def Let_def split: if_splits sum.splits)
qed

lemma queue_rep_dict_ok: "queue_rep b st q \<Longrightarrow> dict_ok (pb_data b)"
  by (simp add: queue_rep_def queue_at_def)

lemma keeps_rest_queue: "keeps_rest b b' \<Longrightarrow> queue_rep b st q \<Longrightarrow> queue_rep b' st q"
  by (auto simp: keeps_rest_def queue_rep_def queue_at_def state_of_def)

text \<open>The document that a commit leaves as checkpoint.\<close>

lemma CommitBlob_state:
  assumes "dict_ok (pb_data (s_db s))" "CommitBlob s before after txs chs = (Inr (), s')"
  shows "\<exists>l. dict_ok (pb_data (s_db s')) \<and> dget (pb_data (s_db s')) blobStateKey =
    Some (BlobStateDoc (stored_state (after\<lparr>bst_Latest := l, bst_Revision := bst_Revision before + 1\<rparr>)))"
proof -
  from CommitBlob_Inr(5) [OF assms(2)] obtain b l where
    "batchSet b blobStateKey (marshalBlobState (after\<lparr>bst_Latest := l, bst_Revision := bst_Revision before + 1\<rparr>)) = Inr (s_db s')"
    and "dict_ok (pb_data (s_db s'))"
    using CommitBlob_rest [OF assms] assms(1) by (auto simp: commit_batch_def bindE_Inr keeps_rest_def)
  then show ?thesis by (auto simp: res_simps marshalBlobState_eq dget_dput_same)
qed

text \<open>An error leaves the store as it was.\<close>

lemma CommitBlob_Inl: "CommitBlob s before after txs chs = (Inl e, s') \<Longrightarrow> s' = s"
  by (auto simp: CommitBlob_eq batchCommit_def Let_def split: if_splits sum.splits prod.splits)

text \<open>The converse: a deposit commit keeps the Blob view.\<close>

lemma deposit_key_blob: "blob_prefixed k \<Longrightarrow> \<not> deposit_key k"
  by (auto simp: deposit_key_def)

lemma Commit_keeps_blob_inv:
  assumes inv: "blob_inv (s_db s) bst V" and rep: "queue_rep (s_db s) st q"
    and run: "Commit s before after rs = (Inr (), s')"
  shows "blob_inv (s_db s') bst V"
proof -
  have ok: "dict_ok (pb_data (s_db s))" using rep by (simp add: queue_rep_def queue_at_def)
  have same: "dget (pb_data (s_db s')) k = dget (pb_data (s_db s)) k" if "blob_prefixed k" for k
    using Commit_frame [OF run ok deposit_key_blob [OF that]] .
  have "dict_ok (pb_data (s_db s'))"
    using Commit_sound [OF rep run] by (auto simp: queue_rep_def queue_at_def)
  with inv same show ?thesis by (auto simp: blob_inv_def intro: blob_rep_cong)
qed

section \<open>Block reads\<close>

text \<open>The deposit join, over the queue instead of the database.\<close>

definition queue_index :: "u64 \<Rightarrow> u64" where
  "queue_index qi = (if 20397 \<le> qi then qi + 1 else qi)"

definition fill_deposit :: "BlockTransaction \<Rightarrow> u64 \<Rightarrow> Record \<Rightarrow> BlockTransaction" where
  "fill_deposit tx qi e = tx\<lparr>tx_BlockNumber := enq_BlockNumber e,
     tx_Timestamp := (if tx_Timestamp tx = 0 then enq_Timestamp e else tx_Timestamp tx),
     tx_GasLimit := enq_GasLimit e, tx_Target := enq_Target e, tx_Origin := enq_Origin e,
     tx_Data := enq_Data e, tx_QueueIndex := Some qi\<rparr>"

definition deposit_ok :: "BlockTransaction \<Rightarrow> bool" where
  "deposit_ok tx \<longleftrightarrow> tx_QueueOrigin tx = ''l1'' \<longrightarrow> tx_QueueIndex tx \<noteq> None \<and> tx_QueueIndex tx \<noteq> Some max_u64"

definition arrived :: "Record list \<Rightarrow> BlockTransaction \<Rightarrow> bool" where
  "arrived q tx \<longleftrightarrow> tx_QueueOrigin tx = ''l1'' \<longrightarrow> unat (queue_index (the (tx_QueueIndex tx))) < length q"

definition full_tx :: "Record list \<Rightarrow> BlockTransaction \<Rightarrow> BlockTransaction" where
  "full_tx q tx = (if tx_QueueOrigin tx \<noteq> ''l1'' then tx
     else let qi = queue_index (the (tx_QueueIndex tx)) in fill_deposit tx qi (q ! unat qi))"

definition full_block :: "Record list \<Rightarrow> Block \<Rightarrow> Block" where
  "full_block q blk = blk\<lparr>blk_Transactions := map (full_tx q) (blk_Transactions blk)\<rparr>"

lemma readEnqueue_index:
  assumes "queue_rep g st q" "fault_free g"
  shows "readEnqueue g (Some i) = Inr (if unat i < length q then Some (Enqueue.truncate (q ! unat i)) else None)"
  using Get_index [of "\<lparr>s_db = g, s_closed = False\<rparr>" st q i] assms by (simp add: Get_def)

lemma truncate_sel [simp]:
  "enq_Index (Enqueue.truncate r) = enq_Index r" "enq_Target (Enqueue.truncate r) = enq_Target r"
  "enq_Data (Enqueue.truncate r) = enq_Data r" "enq_GasLimit (Enqueue.truncate r) = enq_GasLimit r"
  "enq_Origin (Enqueue.truncate r) = enq_Origin r" "enq_BlockNumber (Enqueue.truncate r) = enq_BlockNumber r"
  "enq_Timestamp (Enqueue.truncate r) = enq_Timestamp r"
  by (simp_all add: Enqueue.truncate_def)

lemma joinDeposit_queue:
  assumes "queue_rep g st q" "fault_free g" "deposit_ok tx"
  shows "joinDeposit g tx = Inr (if arrived q tx then Some (full_tx q tx) else None)"
  using assms readEnqueue_index [OF assms(1,2)]
  by (auto simp: joinDeposit_def deposit_ok_def arrived_def full_tx_def fill_deposit_def queue_index_def Let_def)

text \<open>The first transaction at which the loop over the deposits of a block stops.\<close>

definition obstacle :: "Record list \<Rightarrow> BlockTransaction list \<Rightarrow> BlockTransaction option" where
  "obstacle q txs = find (\<lambda>tx. \<not> deposit_ok tx \<or> \<not> arrived q tx) txs"

lemma joinDeposit_unusable: "\<not> deposit_ok tx \<Longrightarrow> joinDeposit g tx = Inl (Err ErrIntegrity [])"
  by (auto simp: joinDeposit_def deposit_ok_def split: option.splits)

lemma joinDeposits_queue:
  assumes "queue_rep g st q" "fault_free g"
  shows "joinDeposits g txs = (case obstacle q txs of
      None \<Rightarrow> Inr (Some (map (full_tx q) txs))
    | Some tx \<Rightarrow> if deposit_ok tx then Inr None else Inl (Err ErrIntegrity []))"
proof (induction txs)
  case (Cons tx txs)
  then show ?case
    by (cases "deposit_ok tx") (auto simp: obstacle_def joinDeposit_unusable joinDeposit_queue [OF assms] split: option.splits)
qed (simp add: obstacle_def)

text \<open>What a read of the view returns.\<close>

definition read_block :: "Record list \<Rightarrow> Block \<Rightarrow> BlockBatch option \<Rightarrow> BlockResponse result" where
  "read_block q blk batch = (case obstacle q (blk_Transactions blk) of
      None \<Rightarrow> Inr \<lparr>resp_Block = Some (full_block q blk), resp_Batch = batch\<rparr>
    | Some tx \<Rightarrow> if deposit_ok tx then Inr empty_response else Inl (Err ErrIntegrity []))"

definition view_get :: "Record list \<Rightarrow> blob_view \<Rightarrow> u64 option \<Rightarrow> BlockResponse result" where
  "view_get q V index = (case index of None \<Rightarrow> Inr empty_response | Some i \<Rightarrow>
     (case v_blocks V i of None \<Rightarrow> Inr empty_response
      | Some (c, blk) \<Rightarrow> read_block q blk (map_option ch_Batch (v_channels V c))))"

definition deposits_ok :: "blob_view \<Rightarrow> bool" where
  "deposits_ok V \<longleftrightarrow> (\<forall>i c blk. v_blocks V i = Some (c, blk) \<longrightarrow> (\<forall>tx \<in> set (blk_Transactions blk). deposit_ok tx))"

lemma view_get_total:
  assumes "deposits_ok V"
  shows "\<exists>b. view_get q V index = Inr b"
proof -
  have "deposit_ok tx" if "v_blocks V i = Some (c, blk)" "obstacle q (blk_Transactions blk) = Some tx" for i c blk tx
    using that assms unfolding deposits_ok_def obstacle_def find_Some_iff by (metis nth_mem)
  then show ?thesis by (auto simp: view_get_def read_block_def split: option.splits)
qed

lemma checkSourceRead_ok:
  assumes inv: "blob_inv g st V" and ff: "fault_free g"
    and "\<forall>h \<in> set hs. \<exists>tx. v_txs V h = Some tx \<and> \<not> btx_Missing tx"
  shows "foldE (checkSourceRead g (bst_Cutoff st)) hs () = Inr ()"
  using assms(3)
proof (induction hs)
  case (Cons h hs)
  then obtain tx where tx: "v_txs V h = Some tx" "\<not> btx_Missing tx" by auto
  from inv have rep: "rep_with g V (exp_txs V) (exp_channels V)" by (simp add: blob_inv_def blob_rep_def)
  from tx inv have "btx_Hash tx = h" "bst_Cutoff st \<le> btx_Timestamp tx"
    by (auto simp: blob_inv_def view_ok_def)
  moreover have "readRequired as_Tx g (txKey h) = Inr tx"
    using rep_lookup(1) [OF rep] tx ff by (simp add: readRequired_def readJSON_def)
  ultimately have "checkSourceRead g (bst_Cutoff st) h () = Inr ()"
    using tx(2) by (simp add: checkSourceRead_def not_less)
  with Cons show ?case by simp
qed simp

lemma GetBlock_view:
  assumes inv: "blob_inv (s_db s) st V" and q: "queue_rep (s_db s) dst q" and ff: "fault_free (s_db s)"
    and opn: "\<not> s_closed s"
  shows "GetBlock s index = view_get q V (case index of None \<Rightarrow> bst_Latest st | Some i \<Rightarrow> Some i)"
proof -
  from inv have rep: "rep_with (s_db s) V (exp_txs V) (exp_channels V)" and vok: "view_ok V"
    and lat: "latest_is (bst_Latest st) V"
    and cut: "\<And>h tx. v_txs V h = Some tx \<Longrightarrow> bst_Cutoff st \<le> btx_Timestamp tx"
    by (auto simp: blob_inv_def blob_rep_def)
  from inv ff have state: "readBlobState (s_db s) = Inr st"
    by (simp add: blob_inv_def readBlobState_fault_free)
  let ?i = "case index of None \<Rightarrow> bst_Latest st | Some i \<Rightarrow> Some i"
  show ?thesis
  proof (cases "Option.bind ?i (v_blocks V)")
    case None
    then have "readJSON as_String (s_db s) (ixKey i) (index = None) = Inr None" if "?i = Some i" for i
      using that lat rep_lookup(3) [OF rep] ff
      by (cases index) (auto simp: readJSON_def latest_is_def)
    with None state opn show ?thesis
      by (cases index; cases ?i) (auto simp: GetBlock_def view_get_def Let_def)
  next
    case (Some p)
    then obtain i c blk where i: "?i = Some i" and blk: "v_blocks V i = Some (c, blk)"
      by (cases ?i; cases p) auto
    from view_ok_owner [OF vok blk] obtain r where r: "v_channels V c = Some r" "i \<in> set (ch_Blocks r)" by blast
    with vok have ch: "channel_ok V c r" by (simp add: view_ok_def)
    with r(2) blk have b: "blk_Index blk = i" "blk_BatchIndex blk = bat_Index (ch_Batch r)"
      and cid: "ch_ID r = c" and src: "ch_Sources r \<noteq> []"
      and srcs: "\<forall>h \<in> set (ch_Sources r). \<exists>tx. v_txs V h = Some tx \<and> \<not> btx_Missing tx"
      by (auto simp: channel_ok_def)
    from ch cut have "bst_Cutoff st \<le> ch_ExpiresAt r" unfolding channel_ok_def by metis
    moreover have "readJSON as_String (s_db s) (ixKey i) m = Inr (Some c)" for m
      using blk rep_lookup(3) [OF rep] ff by (simp add: readJSON_def)
    moreover have "readRequired as_Channel (s_db s) (chKey c) = Inr r"
      "readRequired as_Block (s_db s) (bkKey i) = Inr blk"
      using blk r rep_lookup(2,4) [OF rep] ff by (simp_all add: readRequired_def readJSON_def)
    moreover note joinDeposits_queue [OF q ff]
    moreover note checkSourceRead_ok [OF inv ff srcs]
    moreover have "(if index = None then bst_Latest st else index) = Some i"
      using i by (cases index) auto
    ultimately show ?thesis
      using state opn b cid src r i blk
      by (auto simp: GetBlock_def view_get_def read_block_def full_block_def Let_def not_less split: option.splits)
  qed
qed

section \<open>Initialisation\<close>

definition empty_view :: blob_view where
  "empty_view = \<lparr>v_txs = Map.empty, v_channels = Map.empty, v_blocks = Map.empty\<rparr>"

lemma blob_range: "ascii ''blob/'' \<le> k \<and> k < ascii ''blob0'' \<longleftrightarrow> blob_prefixed k"
proof
  assume k: "ascii ''blob/'' \<le> k \<and> k < ascii ''blob0''"
  have succ: "z = 47" if "(47 :: byte) \<le> z" "z < 48" for z
    using that by (simp add: word_le_nat_alt word_less_nat_alt word_unat_eq_iff)
  have "ascii ''blob'' @ [47] \<le> k" "k < ascii ''blob'' @ [48]" using k by (simp_all add: ascii_def)
  from between_successor [OF succ this] obtain s where "k = (ascii ''blob'' @ [47]) @ s" by blast
  then show "blob_prefixed k" by (simp add: blob_prefixed_def ascii_def)
next
  assume "blob_prefixed k"
  then obtain s where "k = ascii ''blob/'' @ s" by (metis append_take_drop_id blob_prefixed_def)
  then show "ascii ''blob/'' \<le> k \<and> k < ascii ''blob0''" by (simp add: ascii_def)
qed

lemma empty_view_rep:
  assumes "dict_ok (pb_data b)" and "\<And>k. blob_prefixed k \<Longrightarrow> dget (pb_data b) k = None"
  shows "blob_rep b empty_view"
  using assms by (simp add: blob_rep_def rep_defs empty_view_def exp_txs_def exp_channels_def blobNumberKey_def)

lemma empty_view_ok: "view_ok empty_view"
  by (simp add: view_ok_def empty_view_def)

lemma InitBlob_fresh:
  assumes "fault_free (s_db s)" "\<not> s_closed s" "dict_ok (pb_data (s_db s))"
    and none: "\<And>k. blob_prefixed k \<Longrightarrow> dget (pb_data (s_db s)) k = None"
  obtains s' where "InitBlob s ident = (Inr (), s')" "keeps_rest (s_db s) (s_db s')"
    "dget (pb_data (s_db s')) blobIdentityKey = Some (BlobIdentityDoc ident)"
    "blob_inv (s_db s') (stored_state zero_BlobState) empty_view"
proof -
  let ?d1 = "dput blobIdentityKey (BlobIdentityDoc ident) (pb_data (s_db s))"
  let ?b = "(s_db s)\<lparr>pb_data := dput blobStateKey (BlobStateDoc (stored_state zero_BlobState)) ?d1\<rparr>"
  have scan: "dscan (ascii ''blob/'') (ascii ''blob0'') (pb_data (s_db s)) = []"
    unfolding od.scan_empty_iff [OF assms(3)] using none blob_range by blast
  have "InitBlob s ident = (Inr (), s\<lparr>s_db := ?b\<rparr>)"
    using assms scan none [of blobIdentityKey]
    by (simp add: InitBlob_def readJSON_def marshalBlobState_eq)
  moreover have "keeps_rest (s_db s) ?b"
    using assms(3) by (auto simp: keeps_rest_def dict_simps)
  moreover have "blob_rep ?b empty_view"
    by (rule blob_rep_cong [OF empty_view_rep [OF assms(3) none]]) (use assms(3) in \<open>auto simp: dict_simps\<close>)
  ultimately show ?thesis
    using assms(3) empty_view_ok that [of "s\<lparr>s_db := ?b\<rparr>"]
    by (simp add: blob_inv_def dict_simps latest_is_def zero_BlobState_def stored_state_def)
      (simp add: empty_view_def)
qed

lemma InitBlob_existing:
  assumes "fault_free (s_db s)" "\<not> s_closed s" "blob_inv (s_db s) st V"
    and "dget (pb_data (s_db s)) blobIdentityKey = Some (BlobIdentityDoc known)"
  shows "InitBlob s ident = (if known = ident then Inr () else Inl (Err ErrIntegrity ''Blob database identity mismatch''), s)"
  using assms readBlobState_fault_free [OF assms(1)]
  by (auto simp: InitBlob_def readJSON_def blob_inv_def)

section \<open>Retention\<close>

lemma prune_view_blocks:
  assumes "view_ok V" and "v_channels V c = Some r" "v_blocks V i = Some (c, blk)"
  shows "v_blocks (prune_view cutoff V) i =
    (if \<forall>h \<in> set (ch_Sources r). \<forall>tx. v_txs V h = Some tx \<longrightarrow> cutoff \<le> btx_Timestamp tx then Some (c, blk) else None)"
proof -
  from assms have ch: "channel_ok V c r" by (simp add: view_ok_def)
  then obtain h0 tx0 where h0: "h0 \<in> set (ch_Sources r)" "v_txs V h0 = Some tx0" "btx_Timestamp tx0 = ch_ExpiresAt r"
    by (auto simp: channel_ok_def)
  have low: "ch_ExpiresAt r \<le> btx_Timestamp tx" if "h \<in> set (ch_Sources r)" "v_txs V h = Some tx" for h tx
    using ch that by (force simp: channel_ok_def)
  have "cutoff \<le> ch_ExpiresAt r \<longleftrightarrow> (\<forall>h \<in> set (ch_Sources r). \<forall>tx. v_txs V h = Some tx \<longrightarrow> cutoff \<le> btx_Timestamp tx)"
    (is "_ \<longleftrightarrow> ?live")
  proof
    assume "cutoff \<le> ch_ExpiresAt r"
    then show ?live using low order_trans by blast
  next
    assume ?live
    with h0 show "cutoff \<le> ch_ExpiresAt r" by auto
  qed
  then show ?thesis
    using assms by (cases ?live) (simp_all add: prune_view_def prune_txs_def prune_channels_def expired_channel_def not_less
        flip: not_le)
qed

section \<open>Properties\<close>

lemma blob_inv_dict_ok: "blob_inv b st V \<Longrightarrow> dict_ok (pb_data b)"
  unfolding blob_inv_def blob_rep_def using rep_dict_ok by blast

lemma blob_inv_state: "blob_inv b st V \<Longrightarrow> dget (pb_data b) blobStateKey = Some (BlobStateDoc st)"
  by (simp add: blob_inv_def)

lemma CommitBlob_succeeds:
  assumes "blob_inv (s_db s) st V" and "\<not> s_closed s" and "fault_free (s_db s)"
  shows "fst (CommitBlob s before after txs chs) = Inr () \<longleftrightarrow> before = st \<and> bst_Revision st \<noteq> max_u64 \<and>
    bst_Cutoff st \<le> bst_Cutoff after \<and> view_commit (bst_Cutoff after) txs chs V \<noteq> None"
proof
  assume "fst (CommitBlob s before after txs chs) = Inr ()"
  then obtain s' where run: "CommitBlob s before after txs chs = (Inr (), s')" by (metis prod.collapse)
  have "before = st"
    using readBlobState_Inr [OF CommitBlob_Inr(2) [OF run]] assms(1) by (simp add: blob_inv_def)
  with CommitBlob_sound [OF _ run, of V] CommitBlob_Inr(3,4) [OF run] assms(1)
  show "before = st \<and> bst_Revision st \<noteq> max_u64 \<and> bst_Cutoff st \<le> bst_Cutoff after \<and>
    view_commit (bst_Cutoff after) txs chs V \<noteq> None" by auto
next
  assume "before = st \<and> bst_Revision st \<noteq> max_u64 \<and> bst_Cutoff st \<le> bst_Cutoff after \<and>
    view_commit (bst_Cutoff after) txs chs V \<noteq> None"
  with CommitBlob_complete [OF assms(1,2,3)] show "fst (CommitBlob s before after txs chs) = Inr ()"
    by fastforce
qed

text \<open>A channel is never overwritten, so one that lists a block twice blocks every commit that
  would expire it.\<close>

lemma view_put_channel_keeps:
  assumes "view_put_channel cutoff ch V = Some W" "v_channels V c = Some r"
  shows "v_channels W c = Some r"
proof (cases "ch_ExpiresAt (bc_Record ch) < cutoff")
  case True
  with assms show ?thesis by (auto simp: view_put_channel_def Let_def split: if_splits)
next
  case False
  note st = view_put_channel_stored [OF assms(1) False]
  show ?thesis using put_blocks_frame [OF st(6)] st(5) assms(2) by auto
qed

lemma view_put_tx_channels: "view_put_tx cutoff tx V = Some W \<Longrightarrow> v_channels W = v_channels V"
  by (auto simp: view_put_tx_def add_tx_def split: if_splits option.splits)

lemma view_commit_refuses:
  assumes "v_channels V c = Some r" "\<not> distinct (ch_Blocks r)" "ch_ExpiresAt r < cutoff"
  shows "view_commit cutoff txs chs V = None"
proof -
  have "v_channels V1 c = Some r" if "foldO (view_put_tx cutoff) txs V = Some V1" for V1
    using that assms(1) by (rule foldO_invariant [where I = "\<lambda>W. v_channels W c = Some r"])
      (simp add: view_put_tx_channels)
  moreover have "v_channels V2 c = Some r" if "foldO (view_put_channel cutoff) chs V1 = Some V2" "v_channels V1 c = Some r" for V1 V2
    using that by (rule foldO_invariant [where I = "\<lambda>W. v_channels W c = Some r"]) (simp add: view_put_channel_keeps)
  ultimately have "\<not> prunable cutoff V2"
    if "foldO (view_put_tx cutoff) txs V = Some V1" "foldO (view_put_channel cutoff) chs V1 = Some V2" for V1 V2
    using that assms(2,3) unfolding prunable_def by blast
  then have "view_commit cutoff txs chs V \<noteq> Some W" for W
    by (auto simp: view_commit_def view_prune_def bind_eq_Some_conv)
  then show ?thesis by (metis option.exhaust)
qed

lemma duplicate_blocks_commit:
  assumes inv: "blob_inv (s_db s) st V" and c: "v_channels V c = Some r" "\<not> distinct (ch_Blocks r)" "ch_ExpiresAt r < bst_Cutoff after"
    and opn: "\<not> s_closed s" and ff: "fault_free (s_db s)"
  shows "\<exists>e. CommitBlob s before after txs chs = (Inl e, s) \<and> errors_is ErrIntegrity e"
proof -
  obtain x s' where run: "CommitBlob s before after txs chs = (x, s')" by force
  with CommitBlob_succeeds [OF inv opn ff, of before after txs chs] view_commit_refuses [OF c]
  obtain e where "x = Inl e" by (cases x) auto
  with run CommitBlob_Inl CommitBlob_integrity [OF blob_inv_dict_ok [OF inv] opn ff blob_inv_state [OF inv]]
  show ?thesis by blast
qed

text \<open>C7.  \<open>CommitBlob\<close> implements the abstract commit.  On a database that represents the
  view \<open>V\<close>: a commit that succeeds had the current snapshot, and its result represents the
  view after adding the transactions and channels and pruning, with the checkpoint of the
  caller, the revision raised by one and \<open>Latest\<close> the greatest retained block; every
  retained record is within retention.  A commit that fails changes nothing.  If the database is
  open and none of its calls fails, it succeeds exactly if the snapshot is current, the
  revision does not overflow, the cutoff does not move back and the abstract commit accepts
  the records, and every failure is an integrity error.  The abstract commit is partial: it
  refuses a conflicting or malformed record, and it refuses to prune a channel that lists a
  block twice.  A channel that repeats a block is added like any other.\<close>

theorem CommitBlob_refines_view:
  assumes "blob_inv (s_db s) st V" and "CommitBlob s before after txs chs = (r, s')"
  shows "(r = Inr () \<longrightarrow> before = st \<and> (\<exists>V' l. view_commit (bst_Cutoff after) txs chs V = Some V' \<and> latest_is l V' \<and>
      blob_inv (s_db s') (stored_state (after\<lparr>bst_Latest := l, bst_Revision := bst_Revision st + 1\<rparr>)) V')) \<and>
    (r \<noteq> Inr () \<longrightarrow> s' = s) \<and>
    (\<not> s_closed s \<and> fault_free (s_db s) \<longrightarrow> (r = Inr () \<longleftrightarrow> before = st \<and> bst_Revision st \<noteq> max_u64 \<and>
      bst_Cutoff st \<le> bst_Cutoff after \<and> view_commit (bst_Cutoff after) txs chs V \<noteq> None) \<and>
      (\<forall>e. r = Inl e \<longrightarrow> errors_is ErrIntegrity e))"
proof (intro conjI impI allI)
  assume "r = Inr ()"
  with assms(2) have run: "CommitBlob s before after txs chs = (Inr (), s')" by simp
  show before: "before = st"
    using readBlobState_Inr [OF CommitBlob_Inr(2) [OF run]] assms(1) by (simp add: blob_inv_def)
  with CommitBlob_sound [OF _ run, of V] assms(1)
  show "\<exists>V' l. view_commit (bst_Cutoff after) txs chs V = Some V' \<and> latest_is l V' \<and>
      blob_inv (s_db s') (stored_state (after\<lparr>bst_Latest := l, bst_Revision := bst_Revision st + 1\<rparr>)) V'"
    by (fastforce simp: blob_inv_def)
next
  assume "r \<noteq> Inr ()"
  then obtain e where "r = Inl e" by (cases r) auto
  with assms(2) CommitBlob_Inl show "s' = s" by blast
next
  assume "\<not> s_closed s \<and> fault_free (s_db s)"
  with CommitBlob_succeeds [OF assms(1), of before after txs chs] assms(2)
  show "r = Inr () \<longleftrightarrow> before = st \<and> bst_Revision st \<noteq> max_u64 \<and>
      bst_Cutoff st \<le> bst_Cutoff after \<and> view_commit (bst_Cutoff after) txs chs V \<noteq> None" by simp
next
  fix e
  assume "\<not> s_closed s \<and> fault_free (s_db s)" "r = Inl e"
  with CommitBlob_integrity [OF blob_inv_dict_ok [OF assms(1)] _ _ blob_inv_state [OF assms(1)]] assms(2)
  show "errors_is ErrIntegrity e" by blast
qed

text \<open>C12.  Retention, exactly: on a working database a commit without records that advances the
  cutoff succeeds exactly if every channel that has expired by the new cutoff lists each of its
  blocks once.  Then a block is retained afterwards exactly if every transaction its channel came
  from is at or after the cutoff, and no block appears.  Otherwise the commit fails with an
  integrity error and changes nothing.\<close>

theorem retention_exact:
  assumes inv: "blob_inv (s_db s) st V" and opn: "\<not> s_closed s" and ff: "fault_free (s_db s)"
    and rev: "bst_Revision st \<noteq> max_u64" and cut: "bst_Cutoff st \<le> bst_Cutoff after"
  shows "((\<forall>c r. v_channels V c = Some r \<and> ch_ExpiresAt r < bst_Cutoff after \<longrightarrow> distinct (ch_Blocks r)) \<longrightarrow>
    (\<exists>s' V' l. CommitBlob s st after [] [] = (Inr (), s') \<and>
      blob_inv (s_db s') (stored_state (after\<lparr>bst_Latest := l, bst_Revision := bst_Revision st + 1\<rparr>)) V' \<and>
      (\<forall>i c blk r. v_blocks V i = Some (c, blk) \<and> v_channels V c = Some r \<longrightarrow>
        v_blocks V' i = (if \<forall>h \<in> set (ch_Sources r). \<forall>tx. v_txs V h = Some tx \<longrightarrow> bst_Cutoff after \<le> btx_Timestamp tx
          then Some (c, blk) else None)) \<and>
      (\<forall>i. v_blocks V i = None \<longrightarrow> v_blocks V' i = None))) \<and>
    ((\<exists>c r. v_channels V c = Some r \<and> ch_ExpiresAt r < bst_Cutoff after \<and> \<not> distinct (ch_Blocks r)) \<longrightarrow>
      (\<exists>e. CommitBlob s st after [] [] = (Inl e, s) \<and> errors_is ErrIntegrity e))"
proof (intro conjI impI)
  assume "\<forall>c r. v_channels V c = Some r \<and> ch_ExpiresAt r < bst_Cutoff after \<longrightarrow> distinct (ch_Blocks r)"
  then have True: "prunable (bst_Cutoff after) V" unfolding prunable_def .
  have spec: "view_commit (bst_Cutoff after) [] [] V = Some (prune_view (bst_Cutoff after) V)"
    using True by (simp add: view_commit_def view_prune_def)
  then have "view_commit (bst_Cutoff after) [] [] V \<noteq> None" by simp
  from CommitBlob_complete [OF inv opn ff rev cut this] obtain s' where
    run: "CommitBlob s st after [] [] = (Inr (), s')" by blast
  from CommitBlob_sound [OF inv run] spec obtain l where
    "blob_inv (s_db s') (stored_state (after\<lparr>bst_Latest := l, bst_Revision := bst_Revision st + 1\<rparr>))
      (prune_view (bst_Cutoff after) V)" by auto
  moreover from inv have "view_ok V" by (simp add: blob_inv_def)
  moreover have "v_blocks (prune_view (bst_Cutoff after) V) i = None" if "v_blocks V i = None" for i
    using that by (simp add: prune_view_def prune_txs_def prune_channels_def)
  ultimately show "\<exists>s' V' l. CommitBlob s st after [] [] = (Inr (), s') \<and>
      blob_inv (s_db s') (stored_state (after\<lparr>bst_Latest := l, bst_Revision := bst_Revision st + 1\<rparr>)) V' \<and>
      (\<forall>i c blk r. v_blocks V i = Some (c, blk) \<and> v_channels V c = Some r \<longrightarrow>
        v_blocks V' i = (if \<forall>h \<in> set (ch_Sources r). \<forall>tx. v_txs V h = Some tx \<longrightarrow> bst_Cutoff after \<le> btx_Timestamp tx
          then Some (c, blk) else None)) \<and>
      (\<forall>i. v_blocks V i = None \<longrightarrow> v_blocks V' i = None)"
    using run prune_view_blocks by blast
next
  assume "\<exists>c r. v_channels V c = Some r \<and> ch_ExpiresAt r < bst_Cutoff after \<and> \<not> distinct (ch_Blocks r)"
  then show "\<exists>e. CommitBlob s st after [] [] = (Inl e, s) \<and> errors_is ErrIntegrity e"
    using duplicate_blocks_commit [OF inv _ _ _ opn ff] by blast
qed

text \<open>Optimistic concurrency: after a successful commit every other commit prepared
  from the same snapshot fails and changes nothing, so scanner and pruner never overwrite
  each other.\<close>

lemma stale_snapshot_refused:
  assumes "dict_ok (pb_data (s_db s))" and "CommitBlob s before after txs chs = (Inr (), s')"
  shows "\<exists>e. CommitBlob s' before after' txs' chs' = (Inl e, s')"
proof -
  from CommitBlob_state [OF assms] obtain l where "dget (pb_data (s_db s')) blobStateKey =
      Some (BlobStateDoc (stored_state (after\<lparr>bst_Latest := l, bst_Revision := bst_Revision before + 1\<rparr>)))" by blast
  then have "readBlobState (s_db s') \<noteq> Inr before"
  proof (intro notI)
    assume rd: "readBlobState (s_db s') = Inr before" and doc: "dget (pb_data (s_db s')) blobStateKey =
      Some (BlobStateDoc (stored_state (after\<lparr>bst_Latest := l, bst_Revision := bst_Revision before + 1\<rparr>)))"
    from readBlobState_Inr [OF rd] doc
    have "before = stored_state (after\<lparr>bst_Latest := l, bst_Revision := bst_Revision before + 1\<rparr>)" by simp
    then have "bst_Revision before = bst_Revision before + 1"
      by (metis BlobState.select_convs(1) BlobState.surjective BlobState.update_convs(1) stored_state_sel(3))
    then show False by simp
  qed
  then show ?thesis
    by (auto simp: CommitBlob_def split: sum.splits)
qed

text \<open>The two namespaces are independent: a Blob commit keeps the deposit checkpoint
  and queue, and a deposit commit keeps the Blob checkpoint and view.\<close>

lemma namespaces_independent:
  assumes "queue_rep (s_db s) st q" and "blob_inv (s_db s) bst V"
  shows "(CommitBlob s before after txs chs = (Inr (), s') \<longrightarrow> queue_rep (s_db s') st q) \<and>
    (Commit s dbefore dafter rs = (Inr (), s'') \<longrightarrow> blob_inv (s_db s'') bst V)"
proof -
  have "dict_ok (pb_data (s_db s))" using assms(1) by (simp add: queue_rep_def queue_at_def)
  then show ?thesis
    using CommitBlob_rest keeps_rest_queue assms Commit_keeps_blob_inv by blast
qed

text \<open>C10.  Block reads, exactly: on a working database \<open>GetBlock\<close> returns the retained
  block of the requested index, or of the greatest one when no index is given, with every
  deposit filled in from the queue.  If the block is not retained, or its deposits are joined in
  order until one has not arrived, it returns the empty response.  It fails in one case only, when
  it comes to a deposit without a usable queue index (missing or the greatest number).\<close>

theorem GetBlock_reads_view:
  assumes "blob_inv (s_db s) st V" and "queue_rep (s_db s) dst q" and "fault_free (s_db s)"
    and "\<not> s_closed s"
  shows "GetBlock s (Some i) = view_get q V (Some i) \<and> GetBlock s None = view_get q V (bst_Latest st) \<and>
    (deposits_ok V \<longrightarrow> (\<exists>b. GetBlock s (Some i) = Inr b) \<and> (\<exists>b. GetBlock s None = Inr b))"
  using GetBlock_view [OF assms, of "Some i"] GetBlock_view [OF assms, of None] view_get_total by simp

text \<open>C19.  Initialisation of the Blob namespace: a database without Blob keys gets the
  identity, the zero checkpoint and an empty view, and its other keys stay; an initialised
  one is accepted exactly for the same identity and is not changed.\<close>

theorem InitBlob_fresh_or_same:
  assumes "fault_free (s_db s)" and "\<not> s_closed s" and "dict_ok (pb_data (s_db s))"
  shows "((\<forall>k. blob_prefixed k \<longrightarrow> dget (pb_data (s_db s)) k = None) \<longrightarrow>
      (\<exists>s'. InitBlob s ident = (Inr (), s') \<and> keeps_rest (s_db s) (s_db s') \<and>
        blob_inv (s_db s') (stored_state zero_BlobState) empty_view)) \<and>
    (\<forall>st V known. blob_inv (s_db s) st V \<and> dget (pb_data (s_db s)) blobIdentityKey = Some (BlobIdentityDoc known) \<longrightarrow>
      (fst (InitBlob s ident) = Inr () \<longleftrightarrow> known = ident) \<and> snd (InitBlob s ident) = s)"
proof (intro conjI allI impI)
  assume "\<forall>k. blob_prefixed k \<longrightarrow> dget (pb_data (s_db s)) k = None"
  with InitBlob_fresh [OF assms] show "\<exists>s'. InitBlob s ident = (Inr (), s') \<and> keeps_rest (s_db s) (s_db s') \<and>
      blob_inv (s_db s') (stored_state zero_BlobState) empty_view" by metis
next
  fix st V known
  assume "blob_inv (s_db s) st V \<and> dget (pb_data (s_db s)) blobIdentityKey = Some (BlobIdentityDoc known)"
  then have "InitBlob s ident = (if known = ident then Inr () else Inl (Err ErrIntegrity ''Blob database identity mismatch''), s)"
    using InitBlob_existing [OF assms(1,2)] by blast
  then show "fst (InitBlob s ident) = Inr () \<longleftrightarrow> known = ident" "snd (InitBlob s ident) = s" by simp_all
qed

section \<open>Sample records and witnesses\<close>

definition sample_bid :: BlobIdentity where
  "sample_bid = \<lparr>bid_Version = 1, bid_Inbox = 1, bid_BatchSender = 2, bid_BlobSender = 3, bid_Start = 4\<rparr>"

definition sample_btx :: BlobTransaction where
  "sample_btx = \<lparr>btx_Hash = 1, btx_BlockHash = 2, btx_Height = 10, btx_Timestamp = 100, btx_TxIndex = 0,
     btx_Missing = False, btx_Frames = []\<rparr>"

definition sample_batch :: BlockBatch where
  "sample_batch = \<lparr>bat_Index = 5, bat_Root = 0, bat_Size = 1, bat_PrevTotalElements = 0, bat_ExtraData = [],
     bat_BlockNumber = 10, bat_Timestamp = 100, bat_Submitter = 2, bat_L1TransactionHash = 1\<rparr>"

definition sample_block :: "u64 \<Rightarrow> Block" where
  "sample_block i = \<lparr>blk_Index = i, blk_BatchIndex = 5, blk_Timestamp = 90, blk_ExtraData = [],
     blk_Transactions = [], blk_Confirmed = True\<rparr>"

definition sample_channel :: "u64 list \<Rightarrow> BlobChannel" where
  "sample_channel is = \<lparr>bc_Record = \<lparr>ch_ID = ''c'', ch_Sources = [1], ch_Blocks = is, ch_Batch = sample_batch,
     ch_ExpiresAt = 100\<rparr>, bc_Blocks = map sample_block is\<rparr>"

definition sample_blob_store :: Store where
  "sample_blob_store = sample_store [(blobIdentityKey, BlobIdentityDoc sample_bid),
     (blobStateKey, BlobStateDoc (stored_state zero_BlobState))]"

definition sample_after :: "u64 \<Rightarrow> BlobState" where
  "sample_after c = \<lparr>bst_Revision = 0, bst_Height = Some 10, bst_Hash = 2, bst_Cutoff = c,
     bst_RetentionHeight = Some 10, bst_RetentionHash = 2, bst_Latest = None, bst_Auth = RawInvalid ''x''\<rparr>"

lemma sample_InitBlob: "InitBlob (sample_store []) sample_bid = (Inr (), sample_blob_store)"
  by (simp add: InitBlob_def readJSON_def dscan_def marshalBlobState_eq sample_blob_store_def
      blobIdentityKey_def blobStateKey_def ascii_def) (simp add: sample_store_def sample_pebble_def)

lemma sample_blob_inv: "blob_inv (s_db sample_blob_store) (stored_state zero_BlobState) empty_view"
proof -
  have "\<exists>s'. InitBlob (sample_store []) sample_bid = (Inr (), s') \<and>
      blob_inv (s_db s') (stored_state zero_BlobState) empty_view"
    by (rule InitBlob_fresh [of "sample_store []" sample_bid]) auto
  then show ?thesis by (simp add: sample_InitBlob)
qed

lemma sample_blob_store_simps [simp]:
  "\<not> s_closed sample_blob_store" "fault_free (s_db sample_blob_store)"
  by (simp_all add: sample_blob_store_def)

lemma sample_queue_rep: "queue_rep (s_db sample_blob_store) zero_State []"
proof -
  have "keeps_rest (sample_pebble []) (s_db sample_blob_store)"
    using InitBlob_fresh [of "sample_store []" sample_bid] sample_InitBlob by fastforce
  then show ?thesis using queue_rep_sample_empty by (rule keeps_rest_queue)
qed

definition sample_view :: blob_view where
  "sample_view = \<lparr>v_txs = [1 \<mapsto> sample_btx], v_channels = [''c'' \<mapsto> bc_Record (sample_channel [7])],
     v_blocks = [7 \<mapsto> (''c'', sample_block 7)]\<rparr>"

lemma sample_view_commit: "view_commit 50 [sample_btx] [sample_channel [7]] empty_view = Some sample_view"
  by (auto simp: view_commit_def view_put_tx_def add_tx_def empty_view_def sample_btx_def view_put_channel_def
      sample_channel_def sources_ok_def oldest_source_def tx_time_def view_put_block_def sample_block_def
      sample_batch_def add_block_def prune_view_def prune_txs_def prune_channels_def expired_channel_def
      expired_tx_def sample_view_def fun_eq_iff view_prune_def prunable_def)

lemma sample_commit_auth:
  assumes "auth \<noteq> RawNil"
  obtains s' where
    "CommitBlob sample_blob_store (stored_state zero_BlobState) ((sample_after 50)\<lparr>bst_Auth := auth\<rparr>) [sample_btx] [sample_channel [7]] = (Inr (), s')"
    "blob_inv (s_db s') ((sample_after 50)\<lparr>bst_Auth := auth, bst_Latest := Some 7, bst_Revision := 1\<rparr>) sample_view"
    "fault_free (s_db s')" "\<not> s_closed s'" "queue_rep (s_db s') zero_State []"
proof -
  let ?after = "(sample_after 50)\<lparr>bst_Auth := auth\<rparr>"
  let ?run = "CommitBlob sample_blob_store (stored_state zero_BlobState) ?after [sample_btx] [sample_channel [7]]"
  have spec: "view_commit (bst_Cutoff ?after) [sample_btx] [sample_channel [7]] empty_view = Some sample_view"
    using sample_view_commit by (simp add: sample_after_def)
  obtain s' where run: "?run = (Inr (), s')"
    using CommitBlob_complete [OF sample_blob_inv, of ?after "[sample_btx]"] spec
    by (auto simp: zero_BlobState_def sample_after_def)
  from CommitBlob_sound [OF sample_blob_inv run] spec obtain l where
    inv: "blob_inv (s_db s') (stored_state (?after\<lparr>bst_Latest := l, bst_Revision := 1\<rparr>)) sample_view"
    by (auto simp: zero_BlobState_def)
  then have "l = Some 7"
    by (auto simp: blob_inv_def latest_is_def sample_view_def split: option.splits if_splits)
  with inv assms have "blob_inv (s_db s') (?after\<lparr>bst_Latest := Some 7, bst_Revision := 1\<rparr>) sample_view"
    by (simp add: stored_state_def)
  moreover have "fault_free (s_db s') \<and> \<not> s_closed s'"
    using CommitBlob_faults [OF queue_rep_dict_ok [OF sample_queue_rep] run] same_faults_fault_free by force
  moreover have "queue_rep (s_db s') zero_State []"
    using CommitBlob_rest [OF queue_rep_dict_ok [OF sample_queue_rep] run] sample_queue_rep by (rule keeps_rest_queue)
  ultimately show ?thesis using run that by blast
qed

lemma sample_commit:
  obtains s' where
    "CommitBlob sample_blob_store (stored_state zero_BlobState) (sample_after 50) [sample_btx] [sample_channel [7]] = (Inr (), s')"
    "blob_inv (s_db s') ((sample_after 50)\<lparr>bst_Latest := Some 7, bst_Revision := 1\<rparr>) sample_view"
    "fault_free (s_db s')" "\<not> s_closed s'" "queue_rep (s_db s') zero_State []"
proof -
  have "(sample_after 50)\<lparr>bst_Auth := RawInvalid ''x''\<rparr> = sample_after 50" by (simp add: sample_after_def)
  note eq = this
  show ?thesis
    by (rule sample_commit_auth [of "RawInvalid ''x''"], simp) (rule that, simp_all add: eq)
qed

theorem CommitBlob_refines_view_witness:
  "\<exists>s'. CommitBlob sample_blob_store (stored_state zero_BlobState) (sample_after 50) [sample_btx] [sample_channel [7]] = (Inr (), s') \<and>
    (\<exists>l. latest_is l sample_view \<and>
      blob_inv (s_db s') (stored_state ((sample_after 50)\<lparr>bst_Latest := l, bst_Revision := 1\<rparr>)) sample_view) \<and>
    fst (CommitBlob sample_blob_store (stored_state zero_BlobState) (sample_after 50) [] [sample_channel [7]]) \<noteq> Inr ()"
proof -
  obtain s' where run: "CommitBlob sample_blob_store (stored_state zero_BlobState) (sample_after 50) [sample_btx] [sample_channel [7]] = (Inr (), s')"
    by (rule sample_commit)
  obtain r t where refused: "CommitBlob sample_blob_store (stored_state zero_BlobState) (sample_after 50) [] [sample_channel [7]] = (r, t)" by force
  have "view_commit 50 [] [sample_channel [7]] empty_view = None"
    by (simp add: view_commit_def view_put_channel_def sample_channel_def empty_view_def sources_ok_def)
  with CommitBlob_refines_view [OF sample_blob_inv refused] refused
  have "fst (CommitBlob sample_blob_store (stored_state zero_BlobState) (sample_after 50) [] [sample_channel [7]]) \<noteq> Inr ()"
    by (simp add: sample_after_def)
  with CommitBlob_refines_view [OF sample_blob_inv run] sample_view_commit run
  show ?thesis by (auto simp: sample_after_def zero_BlobState_def)
qed

theorem retention_exact_witness:
  "\<exists>s s' V' l. blob_inv (s_db s) ((sample_after 50)\<lparr>bst_Latest := Some 7, bst_Revision := 1\<rparr>) sample_view \<and>
    CommitBlob s ((sample_after 50)\<lparr>bst_Latest := Some 7, bst_Revision := 1\<rparr>) (sample_after 200) [] [] = (Inr (), s') \<and>
    blob_inv (s_db s') (stored_state ((sample_after 200)\<lparr>bst_Latest := l, bst_Revision := 2\<rparr>)) V' \<and> v_blocks V' 7 = None"
proof -
  obtain s where "CommitBlob sample_blob_store (stored_state zero_BlobState) (sample_after 50) [sample_btx] [sample_channel [7]] = (Inr (), s)"
    and s: "blob_inv (s_db s) ((sample_after 50)\<lparr>bst_Latest := Some 7, bst_Revision := 1\<rparr>) sample_view"
      "fault_free (s_db s)" "\<not> s_closed s" "queue_rep (s_db s) zero_State []" by (rule sample_commit)
  have "bst_Cutoff ((sample_after 50)\<lparr>bst_Latest := Some 7, bst_Revision := 1\<rparr>) \<le> bst_Cutoff (sample_after 200)"
    "bst_Revision ((sample_after 50)\<lparr>bst_Latest := Some 7, bst_Revision := 1\<rparr>) \<noteq> max_u64"
    by (simp_all add: sample_after_def)
  note retention = conjunct1 [OF retention_exact [OF s(1,3,2) this(2,1)], THEN mp]
  have "\<forall>c r. v_channels sample_view c = Some r \<and> ch_ExpiresAt r < bst_Cutoff (sample_after 200) \<longrightarrow> distinct (ch_Blocks r)"
    by (auto simp: sample_view_def sample_channel_def)
  from retention [OF this] obtain s' V' l where
    run: "CommitBlob s ((sample_after 50)\<lparr>bst_Latest := Some 7, bst_Revision := 1\<rparr>) (sample_after 200) [] [] = (Inr (), s')"
    and inv: "blob_inv (s_db s') (stored_state ((sample_after 200)\<lparr>bst_Latest := l, bst_Revision := 2\<rparr>)) V'"
    and blocks: "\<forall>i c blk r. v_blocks sample_view i = Some (c, blk) \<and> v_channels sample_view c = Some r \<longrightarrow>
      v_blocks V' i = (if \<forall>h \<in> set (ch_Sources r). \<forall>tx. v_txs sample_view h = Some tx \<longrightarrow>
        bst_Cutoff (sample_after 200) \<le> btx_Timestamp tx then Some (c, blk) else None)"
    by auto
  have "v_blocks V' 7 = None"
    using blocks [THEN spec, of 7, THEN spec, of "''c''", THEN spec, of "sample_block 7",
        THEN spec, of "bc_Record (sample_channel [7])"]
    by (simp add: sample_view_def sample_channel_def sample_after_def sample_btx_def)
  with s run inv show ?thesis by blast
qed

lemma stale_snapshot_refused_witness:
  "\<exists>s' e. CommitBlob sample_blob_store (stored_state zero_BlobState) (sample_after 50) [sample_btx] [sample_channel [7]] = (Inr (), s') \<and>
    CommitBlob s' (stored_state zero_BlobState) (sample_after 60) [] [] = (Inl e, s')"
proof -
  obtain s' where run: "CommitBlob sample_blob_store (stored_state zero_BlobState) (sample_after 50) [sample_btx] [sample_channel [7]] = (Inr (), s')"
    by (rule sample_commit)
  from stale_snapshot_refused [OF queue_rep_dict_ok [OF sample_queue_rep] run] run show ?thesis by blast
qed

lemma namespaces_independent_witness:
  "\<exists>s'. CommitBlob sample_blob_store (stored_state zero_BlobState) (sample_after 50) [sample_btx] [sample_channel [7]] = (Inr (), s') \<and>
    queue_rep (s_db s') zero_State [] \<and>
    (\<exists>s''. Commit sample_blob_store zero_State sample_State [sample_record 0] = (Inr (), s'') \<and>
      blob_inv (s_db s'') (stored_state zero_BlobState) empty_view)"
proof -
  obtain s' where run: "CommitBlob sample_blob_store (stored_state zero_BlobState) (sample_after 50) [sample_btx] [sample_channel [7]] = (Inr (), s')"
    by (rule sample_commit)
  obtain s'' where run': "Commit sample_blob_store zero_State sample_State [sample_record 0] = (Inr (), s'')"
    using Commit_complete [OF sample_queue_rep _ _ queue_append_sample] by auto
  from namespaces_independent [OF sample_queue_rep sample_blob_inv] run run' show ?thesis by blast
qed

theorem GetBlock_reads_view_witness:
  "\<exists>s'. CommitBlob sample_blob_store (stored_state zero_BlobState) (sample_after 50) [sample_btx] [sample_channel [7]] = (Inr (), s') \<and>
    GetBlock s' (Some 7) = Inr \<lparr>resp_Block = Some (sample_block 7), resp_Batch = Some sample_batch\<rparr> \<and>
    GetBlock s' (Some 8) = Inr empty_response \<and> GetBlock s' None = GetBlock s' (Some 7)"
proof -
  obtain s' where run: "CommitBlob sample_blob_store (stored_state zero_BlobState) (sample_after 50) [sample_btx] [sample_channel [7]] = (Inr (), s')"
    and s': "blob_inv (s_db s') ((sample_after 50)\<lparr>bst_Latest := Some 7, bst_Revision := 1\<rparr>) sample_view"
      "fault_free (s_db s')" "\<not> s_closed s'" "queue_rep (s_db s') zero_State []" by (rule sample_commit)
  from GetBlock_reads_view [OF s'(1,4,2,3), of 7] GetBlock_reads_view [OF s'(1,4,2,3), of 8] run
  show ?thesis
    by (auto simp: view_get_def read_block_def obstacle_def sample_view_def sample_block_def sample_channel_def full_block_def)
qed

theorem InitBlob_fresh_or_same_witness:
  "\<exists>s'. InitBlob (sample_store []) sample_bid = (Inr (), s') \<and>
    blob_inv (s_db s') (stored_state zero_BlobState) empty_view \<and>
    fst (InitBlob sample_blob_store sample_bid) = Inr () \<and>
    fst (InitBlob sample_blob_store (sample_bid\<lparr>bid_Start := 9\<rparr>)) \<noteq> Inr ()"
proof -
  have known: "dget (pb_data (s_db sample_blob_store)) blobIdentityKey = Some (BlobIdentityDoc sample_bid)"
    by (simp add: sample_blob_store_def)
  have other: "sample_bid \<noteq> sample_bid\<lparr>bid_Start := 9\<rparr>" by (simp add: sample_bid_def)
  have ok: "dict_ok (pb_data (s_db sample_blob_store))" using sample_queue_rep by (rule queue_rep_dict_ok)
  have "\<exists>s'. InitBlob (sample_store []) sample_bid = (Inr (), s') \<and> blob_inv (s_db s') (stored_state zero_BlobState) empty_view"
    using InitBlob_fresh_or_same [of "sample_store []" sample_bid] by auto
  moreover have "fst (InitBlob sample_blob_store i) = Inr () \<longleftrightarrow> sample_bid = i" for i
    using InitBlob_fresh_or_same [of sample_blob_store i] ok known sample_blob_inv
      sample_blob_store_simps by blast
  ultimately show ?thesis using other by simp
qed

end
