(* ===== verification/Status.thy ===== *)
theory Status
  imports Store
begin

text \<open>
  \<open>internal/ingest/status.go\<close>: the shared health of the service.  The mutex makes
  every method one atomic step.  The channel \<open>halted\<close> is absent, open or closed;
  closing a closed channel panics in Go, which the model represents by the value
  \<open>None\<close> of \<open>setStatus\<close>, so that the absence of the panic is a theorem.
\<close>

section \<open>Model\<close>

datatype chan = ChanOpen | ChanClosed

record Status =
  ss_ready :: bool
  ss_blobEnabled :: bool
  ss_blobReady :: bool
  ss_fatal :: "error option"
  ss_halted :: "chan option"

definition zero_Status :: Status where
  "zero_Status = \<lparr>ss_ready = False, ss_blobEnabled = False, ss_blobReady = False, ss_fatal = None, ss_halted = None\<rparr>"

definition Snapshot :: "Status \<Rightarrow> bool \<times> error option" where
  "Snapshot s = (ss_ready s \<and> (\<not> ss_blobEnabled s \<or> ss_blobReady s), ss_fatal s)"

definition EnableBlob :: "Status \<Rightarrow> Status" where
  "EnableBlob s = s\<lparr>ss_blobEnabled := True, ss_blobReady := False\<rparr>"

definition SetBlobReady :: "bool \<Rightarrow> Status \<Rightarrow> Status" where
  "SetBlobReady ready s = s\<lparr>ss_blobReady := (ready \<and> ss_fatal s = None)\<rparr>"

definition closeChan :: "chan \<Rightarrow> chan option" where
  "closeChan c = (case c of ChanOpen \<Rightarrow> Some ChanClosed | ChanClosed \<Rightarrow> None)"

definition setStatus :: "bool \<Rightarrow> error option \<Rightarrow> Status \<Rightarrow> Status option" where
  "setStatus ready err s =
     Option.bind
       (if err \<noteq> None \<and> ss_fatal s = None then
          let s = s\<lparr>ss_fatal := err\<rparr>;
              h = (case ss_halted s of None \<Rightarrow> ChanOpen | Some c \<Rightarrow> c)
          in map_option (\<lambda>c. s\<lparr>ss_halted := Some c\<rparr>) (closeChan h)
        else Some s)
       (\<lambda>s. Some (s\<lparr>ss_ready := (ready \<and> ss_fatal s = None)\<rparr>))"

definition Done :: "Status \<Rightarrow> chan \<times> Status" where
  "Done s = (case ss_halted s of None \<Rightarrow> (ChanOpen, s\<lparr>ss_halted := Some ChanOpen\<rparr>) | Some c \<Rightarrow> (c, s))"

text \<open>The commit callback runs under the lock of the status, on the store.\<close>

definition commitIfHealthy :: "Status \<Rightarrow> ('s \<Rightarrow> unit result \<times> 's) \<Rightarrow> 's \<Rightarrow> unit result \<times> 's" where
  "commitIfHealthy s commit x = (case ss_fatal s of Some e \<Rightarrow> (Inl e, x) | None \<Rightarrow> commit x)"

definition CommitIfHealthy :: "Status \<Rightarrow> ('s \<Rightarrow> unit result \<times> 's) \<Rightarrow> 's \<Rightarrow> unit result \<times> 's" where
  "CommitIfHealthy s commit = commitIfHealthy s commit"

section \<open>Reachable states\<close>

text \<open>The state machine of the methods, called in any order by any goroutine.\<close>

inductive status_step :: "Status \<Rightarrow> Status option \<Rightarrow> bool" where
  enable: "status_step s (Some (EnableBlob s))"
| blob: "status_step s (Some (SetBlobReady b s))"
| set: "status_step s (setStatus b e s)"
| wait: "status_step s (Some (snd (Done s)))"

inductive status_reach :: "Status option \<Rightarrow> bool" where
  init: "status_reach (Some zero_Status)"
| step: "status_reach (Some s) \<Longrightarrow> status_step s s' \<Longrightarrow> status_reach s'"

definition status_inv :: "Status \<Rightarrow> bool" where
  "status_inv s \<longleftrightarrow> (ss_fatal s = None \<longleftrightarrow> ss_halted s \<noteq> Some ChanClosed) \<and>
     (ss_fatal s \<noteq> None \<longrightarrow> \<not> ss_ready s)"

lemma status_inv_set:
  assumes "status_inv s"
  shows "\<exists>s'. setStatus b e s = Some s' \<and> status_inv s'"
  using assms
  by (cases "ss_halted s"; cases "ss_fatal s")
    (auto simp: setStatus_def status_inv_def closeChan_def Let_def split: chan.splits)

text \<open>Recording an error.\<close>

lemma status_inv_records:
  assumes "status_inv s"
  shows "\<exists>t. setStatus b (Some e) s = Some t \<and> status_inv t \<and> ss_fatal t \<noteq> None \<and> \<not> fst (Snapshot t)"
proof -
  from status_inv_set [OF assms, of b "Some e"] obtain t where t: "setStatus b (Some e) s = Some t" "status_inv t" by blast
  then have "ss_fatal t \<noteq> None" by (auto simp: setStatus_def Let_def bind_eq_Some_conv split: if_splits)
  with t show ?thesis by (auto simp: status_inv_def Snapshot_def)
qed

lemma status_step_inv:
  assumes "status_step s r" "status_inv s"
  shows "\<exists>s'. r = Some s' \<and> status_inv s' \<and> (ss_fatal s \<noteq> None \<longrightarrow> ss_fatal s' = ss_fatal s)"
  using assms
proof (cases rule: status_step.cases)
  case (set b e)
  with status_inv_set [OF assms(2), of b e] show ?thesis
    by (auto simp: setStatus_def Let_def split: if_splits)
qed (auto simp: EnableBlob_def SetBlobReady_def Done_def status_inv_def split: option.splits)

lemma status_reach_inv: "status_reach r \<Longrightarrow> \<exists>s. r = Some s \<and> status_inv s"
proof (induction rule: status_reach.induct)
  case init
  then show ?case by (simp add: status_inv_def zero_Status_def)
next
  case (step s s')
  then show ?case using status_step_inv by fastforce
qed

inductive status_run :: "Status \<Rightarrow> Status \<Rightarrow> bool" where
  same: "status_run s s"
| more: "status_step s (Some t) \<Longrightarrow> status_run t u \<Longrightarrow> status_run s u"

lemma status_run_fatal:
  "status_run s u \<Longrightarrow> status_inv s \<and> ss_fatal s = Some e \<Longrightarrow> status_inv u \<and> ss_fatal u = Some e"
proof (induction rule: status_run.induct)
  case (more s t u)
  then show ?case using status_step_inv by fastforce
qed

lemma status_run_inv: "status_run s u \<Longrightarrow> status_inv s \<Longrightarrow> status_inv u"
proof (induction rule: status_run.induct)
  case (more s t u)
  then show ?case using status_step_inv by fastforce
qed

section \<open>Properties\<close>

text \<open>C14.  In every state the methods can reach, in any order: no call has panicked (the
  halt channel is closed at most once), the channel is closed exactly if a fatal error is
  recorded, a service with a fatal error is never ready, and the first fatal error stays.\<close>

theorem status_machine_safe:
  assumes "status_reach r"
  shows "\<exists>s. r = Some s \<and> (ss_halted s = Some ChanClosed \<longleftrightarrow> ss_fatal s \<noteq> None) \<and>
    (ss_fatal s \<noteq> None \<longrightarrow> \<not> fst (Snapshot s)) \<and>
    (\<forall>r'. status_step s r' \<longrightarrow> (\<exists>s'. r' = Some s' \<and> (ss_fatal s \<noteq> None \<longrightarrow> ss_fatal s' = ss_fatal s)))"
proof -
  from status_reach_inv [OF assms] obtain s where "r = Some s" "status_inv s" by blast
  moreover have "\<exists>s'. r' = Some s' \<and> (ss_fatal s \<noteq> None \<longrightarrow> ss_fatal s' = ss_fatal s)"
    if "status_step s r'" for r'
    using status_step_inv [OF that] \<open>status_inv s\<close> by blast
  ultimately show ?thesis by (auto simp: status_inv_def Snapshot_def)
qed

theorem status_machine_safe_witness:
  "\<exists>s. setStatus True (Some (Err ErrFatal ''x'')) zero_Status = Some s \<and> ss_halted s = Some ChanClosed \<and> \<not> fst (Snapshot s)"
proof -
  have reach: "status_reach (setStatus True (Some (Err ErrFatal ''x'')) zero_Status)"
    by (rule status_reach.step [OF status_reach.init status_step.set])
  have fatal: "setStatus True (Some (Err ErrFatal ''x'')) zero_Status = Some s \<Longrightarrow> ss_fatal s \<noteq> None" for s
    by (auto simp: setStatus_def zero_Status_def closeChan_def)
  from status_machine_safe [OF reach] fatal show ?thesis by blast
qed

text \<open>C13.  The fatal barrier: once any goroutine has recorded a fatal error \<open>e\<close> on a
  healthy status, every commit attempted after any further calls of the methods returns
  \<open>e\<close> without running its callback.\<close>

theorem commitIfHealthy_barrier:
  assumes "status_reach (Some s)" and "ss_fatal s = None" and "setStatus b (Some e) s = Some t"
    and "status_run t u"
  shows "commitIfHealthy u commit x = (Inl e, x)"
proof -
  from status_reach_inv [OF assms(1)] have "status_inv s" by auto
  with assms(2,3) have "status_inv t \<and> ss_fatal t = Some e"
    using status_inv_set [of s b "Some e"] by (auto simp: setStatus_def Let_def bind_eq_Some_conv split: if_splits)
  with assms(4) have "status_inv u \<and> ss_fatal u = Some e"
    using status_run_fatal by blast
  then show ?thesis by (simp add: commitIfHealthy_def)
qed

theorem commitIfHealthy_barrier_witness:
  "\<exists>t. setStatus True (Some (Err ErrFatal ''x'')) zero_Status = Some t \<and>
     commitIfHealthy (SetBlobReady True t) (\<lambda>n. (Inr (), Suc n)) 3 = (Inl (Err ErrFatal ''x''), 3)"
proof -
  obtain t where t: "setStatus True (Some (Err ErrFatal ''x'')) zero_Status = Some t"
    by (simp add: setStatus_def zero_Status_def closeChan_def)
  have run: "status_run t (SetBlobReady True t)"
    by (rule status_run.more [OF status_step.blob status_run.same])
  have "ss_fatal zero_Status = None" by (simp add: zero_Status_def)
  from commitIfHealthy_barrier [OF status_reach.init this t run]
  show ?thesis by (intro exI [of _ t] conjI t)
qed

end
