(* ===== verification/Strconv.thy ===== *)
theory Strconv
  imports Bytes
begin

unbundle bit_operations_syntax

text \<open>
  The parts of the Go standard library that read numbers for this program:
  \<open>strconv.ParseUint\<close> with base 10 and with base 0, and \<open>time.ParseDuration\<close>, with the
  round trips of printed numbers.  Strings are their bytes.  The conversion of a decimal fraction
  through \<open>float64\<close> is a parameter.
\<close>

section \<open>Decimal numbers\<close>

definition isDigit :: "char \<Rightarrow> bool" where
  "isDigit c \<longleftrightarrow> 48 \<le> (of_char c :: nat) \<and> (of_char c :: nat) \<le> 57"

definition decimalValue :: "string \<Rightarrow> nat" where
  "decimalValue s = foldl (\<lambda>a c. a * 10 + (of_char c - 48)) 0 s"

text \<open>\<open>strconv.ParseUint(s, 10, 64)\<close>\<close>

definition ParseUint :: "string \<Rightarrow> u64 option" where
  "ParseUint s = (if s \<noteq> [] \<and> list_all isDigit s \<and> decimalValue s < 2 ^ 64 then Some (word_of_nat (decimalValue s)) else None)"

section \<open>Numbers with a base prefix\<close>

definition parse_err :: "string \<Rightarrow> error" where
  "parse_err m = Err ErrOther m"

text \<open>\<open>lower(c) = c | ('x' - 'X')\<close>\<close>

definition lowerCode :: "char \<Rightarrow> nat" where
  "lowerCode c = of_char c OR 32"

definition digitOf :: "char \<Rightarrow> nat option" where
  "digitOf c = (if isDigit c then Some (of_char c - 48)
     else if 97 \<le> lowerCode c \<and> lowerCode c \<le> 122 then Some (lowerCode c - 87) else None)"

text \<open>One character: the number so far and whether there was an underscore.\<close>

definition scanDigit :: "nat \<Rightarrow> char \<Rightarrow> u64 \<times> bool \<Rightarrow> (u64 \<times> bool) result" where
  "scanDigit base c = (\<lambda>(n, underscores).
     if c = CHR ''_'' then Inr (n, True)
     else case digitOf c of None \<Rightarrow> Inl (parse_err ''invalid syntax'')
     | Some d \<Rightarrow>
         if base \<le> d then Inl (parse_err ''invalid syntax'')
         else if max_u64 div word_of_nat base + 1 \<le> n then Inl (parse_err ''value out of range'')
         else let m = n * word_of_nat base; n1 = m + word_of_nat d in
           if n1 < m then Inl (parse_err ''value out of range'') else Inr (n1, underscores))"

text \<open>The base and the digits, from the prefix.\<close>

definition basePrefix :: "string \<Rightarrow> nat \<times> string" where
  "basePrefix s = (if hd s \<noteq> CHR ''0'' then (10, s)
     else if 3 \<le> length s \<and> lowerCode (s ! 1) = 98 then (2, drop 2 s)
     else if 3 \<le> length s \<and> lowerCode (s ! 1) = 111 then (8, drop 2 s)
     else if 3 \<le> length s \<and> lowerCode (s ! 1) = 120 then (16, drop 2 s)
     else (8, drop 1 s))"

text \<open>\<open>underscoreOK\<close>: the previous character is a digit, an underscore, or something else.\<close>

datatype previous = Digit | Underscore | Other

primrec underscoresFrom :: "bool \<Rightarrow> previous \<Rightarrow> string \<Rightarrow> bool" where
  "underscoresFrom hex i [] = (i \<noteq> Underscore)"
| "underscoresFrom hex i (c # s) =
     (if isDigit c \<or> hex \<and> 97 \<le> lowerCode c \<and> lowerCode c \<le> 102 then underscoresFrom hex Digit s
      else if c = CHR ''_'' then i = Digit \<and> underscoresFrom hex Underscore s
      else i \<noteq> Underscore \<and> underscoresFrom hex Other s)"

definition underscoreOK :: "string \<Rightarrow> bool" where
  "underscoreOK s0 = (let s = (if s0 \<noteq> [] \<and> (hd s0 = CHR ''-'' \<or> hd s0 = CHR ''+'') then tl s0 else s0) in
     if 2 \<le> length s \<and> hd s = CHR ''0'' \<and> lowerCode (s ! 1) \<in> {98, 111, 120}
     then underscoresFrom (lowerCode (s ! 1) = 120) Digit (drop 2 s)
     else underscoresFrom False Other s)"

text \<open>\<open>strconv.ParseUint(s, 0, 64)\<close>\<close>

definition ParseUint0 :: "string \<Rightarrow> u64 result" where
  "ParseUint0 s = (if s = [] then Inl (parse_err ''invalid syntax'')
     else case basePrefix s of (base, digits) \<Rightarrow>
       bindE (foldE (scanDigit base) digits (0, False)) (\<lambda>(n, underscores).
         if underscores \<and> \<not> underscoreOK s then Inl (parse_err ''invalid syntax'') else Inr n))"

section \<open>Durations\<close>

text \<open>A fraction \<open>f\<close> of \<open>k\<close> digits of a unit, through \<open>float64\<close>.\<close>

type_synonym fraction = "u64 \<Rightarrow> nat \<Rightarrow> u64 \<Rightarrow> u64"

definition leadingDigit :: "char \<Rightarrow> u64 \<Rightarrow> u64 result" where
  "leadingDigit c x = (if 2 ^ 63 div 10 < x then Inl (parse_err ''time: bad [0-9]*'')
     else let y = x * 10 + word_of_nat (of_char c) - 48 in
       if 2 ^ 63 < y then Inl (parse_err ''time: bad [0-9]*'') else Inr y)"

definition leadingInt :: "string \<Rightarrow> (u64 \<times> string) result" where
  "leadingInt s = bindE (foldE leadingDigit (takeWhile isDigit s) 0) (\<lambda>x. Inr (x, dropWhile isDigit s))"

definition fractionDigit :: "u64 \<times> nat \<times> bool \<Rightarrow> char \<Rightarrow> u64 \<times> nat \<times> bool" where
  "fractionDigit = (\<lambda>(x, k, overflow) c.
     if overflow then (x, k, True)
     else if (2 ^ 63 - 1) div 10 < x then (x, k, True)
     else let y = x * 10 + word_of_nat (of_char c) - 48 in
       if 2 ^ 63 < y then (x, k, True) else (y, Suc k, False))"

definition leadingFraction :: "string \<Rightarrow> u64 \<times> nat \<times> string" where
  "leadingFraction s = (case foldl fractionDigit (0, 0, False) (takeWhile isDigit s) of
     (x, k, overflow) \<Rightarrow> (x, k, dropWhile isDigit s))"

definition unitMap :: "string \<Rightarrow> u64 option" where
  "unitMap u = map_of [(''ns'', 1), (''us'', 1000), ([char_of (194 :: nat), char_of (181 :: nat), CHR ''s''], 1000),
     ([char_of (206 :: nat), char_of (188 :: nat), CHR ''s''], 1000), (''ms'', 1000000), (''s'', 1000000000),
     (''m'', 60000000000), (''h'', 3600000000000)] u"

definition unitChar :: "char \<Rightarrow> bool" where
  "unitChar c \<longleftrightarrow> c \<noteq> CHR ''.'' \<and> \<not> isDigit c"

text \<open>\<open>(\.[0-9]*)?\<close>: the fraction, its length, whether it has digits, and the rest.\<close>

definition pointFraction :: "string \<Rightarrow> u64 \<times> nat \<times> bool \<times> string" where
  "pointFraction s = (case s of c # r \<Rightarrow> if c = CHR ''.''
       then (case leadingFraction r of (f, k, rest) \<Rightarrow> (f, k, length rest \<noteq> length r, rest)) else (0, 0, False, s)
     | [] \<Rightarrow> (0, 0, False, s))"

text \<open>One term of a duration, a number with a unit: its value and the rest of the string.\<close>

definition durationTerm :: "fraction \<Rightarrow> string \<Rightarrow> (u64 \<times> string) result" where
  "durationTerm fr s = (if s = [] \<or> \<not> (hd s = CHR ''.'' \<or> isDigit (hd s)) then Inl (parse_err ''time: invalid duration'')
     else bindE (leadingInt s) (\<lambda>(v, s1).
       case pointFraction s1 of (f, k, post, s2) \<Rightarrow>
         if length s1 = length s \<and> \<not> post then Inl (parse_err ''time: invalid duration'')
         else if takeWhile unitChar s2 = [] then Inl (parse_err ''time: missing unit in duration'')
         else case unitMap (takeWhile unitChar s2) of None \<Rightarrow> Inl (parse_err ''time: unknown unit in duration'')
         | Some scale \<Rightarrow>
             if 2 ^ 63 div scale < v then Inl (parse_err ''time: invalid duration'')
             else let w = (if 0 < f then v * scale + fr f k scale else v * scale) in
               if 0 < f \<and> 2 ^ 63 < w then Inl (parse_err ''time: invalid duration'')
               else Inr (w, dropWhile unitChar s2)))"

lemma pointFraction_rest: "pointFraction s = (f, k, post, rest) \<Longrightarrow> length rest \<le> length s"
  by (auto simp: pointFraction_def leadingFraction_def intro: le_SucI length_dropWhile_le
      split: list.splits if_splits prod.splits)

lemma durationTerm_shorter: "durationTerm fr s = Inr (v, rest) \<Longrightarrow> length rest < length s"
proof -
  assume run: "durationTerm fr s = Inr (v, rest)"
  obtain x where int: "leadingInt s = Inr (x, dropWhile isDigit s)"
    using run by (auto simp: durationTerm_def leadingInt_def bindE_Inr split: if_splits)
  obtain f k post s2 where point: "pointFraction (dropWhile isDigit s) = (f, k, post, s2)" by (metis prod_cases4)
  from pointFraction_rest [OF point] have "length s2 \<le> length (dropWhile isDigit s)" .
  moreover have unit: "rest = dropWhile unitChar s2" "takeWhile unitChar s2 \<noteq> []"
    using run int point by (auto simp: durationTerm_def Let_def split: if_splits option.splits)
  moreover have "length s2 = length (takeWhile unitChar s2) + length (dropWhile unitChar s2)"
    by (simp flip: length_append)
  moreover have "length (dropWhile isDigit s) \<le> length s" by (rule length_dropWhile_le)
  moreover have "0 < length (takeWhile unitChar s2)" using unit(2) by simp
  ultimately show ?thesis by (simp only:)
qed

function durationTerms :: "fraction \<Rightarrow> string \<Rightarrow> u64 \<Rightarrow> u64 result" where
  "durationTerms fr s d = (if s = [] then Inr d
     else bindE (durationTerm fr s) (\<lambda>x.
       if 2 ^ 63 < d + fst x then Inl (parse_err ''time: invalid duration'') else durationTerms fr (snd x) (d + fst x)))"
  by pat_completeness auto
termination
  by (relation "measure (\<lambda>(fr, s, d). length s)") (auto simp: durationTerm_shorter)

declare durationTerms.simps [simp del]

text \<open>\<open>time.ParseDuration\<close> in nanoseconds.\<close>

definition ParseDuration :: "fraction \<Rightarrow> string \<Rightarrow> int result" where
  "ParseDuration fr orig =
     (let signed = orig \<noteq> [] \<and> (hd orig = CHR ''-'' \<or> hd orig = CHR ''+'');
          s = (if signed then tl orig else orig) in
      if s = ''0'' then Inr 0
      else if s = [] then Inl (parse_err ''time: invalid duration'')
      else bindE (durationTerms fr s 0) (\<lambda>d.
        if signed \<and> hd orig = CHR ''-'' then Inr (sint (- d))
        else if 2 ^ 63 - 1 < d then Inl (parse_err ''time: invalid duration'')
        else Inr (uint d)))"

section \<open>Printed numbers\<close>

lemma digit_char: "n < 10 \<Longrightarrow> isDigit (char_of (48 + n)) \<and> (of_char (char_of (48 + n)) :: nat) = 48 + n"
  by (simp add: isDigit_def of_char_of)

lemma decimal_digits: "decimal n \<noteq> [] \<and> list_all isDigit (decimal n) \<and> decimalValue (decimal n) = n"
proof (induction n rule: decimal.induct)
  case (1 n)
  show ?case
  proof (cases "n < 10")
    case True
    with digit_char [OF True] show ?thesis by (simp add: decimal.simps [of n] decimalValue_def)
  next
    case False
    have "n mod 10 < 10" by simp
    from digit_char [OF this] 1 [OF False] False show ?thesis by (simp add: decimal.simps [of n] decimalValue_def)
  qed
qed

lemma isDigit_not: "isDigit c \<Longrightarrow> c \<noteq> CHR ''_'' \<and> c \<noteq> CHR ''-'' \<and> c \<noteq> CHR ''+'' \<and> c \<noteq> CHR ''.''"
  by (auto simp: isDigit_def)

lemma decimal_head: "n \<noteq> 0 \<Longrightarrow> hd (decimal n) \<noteq> CHR ''0''"
proof (induction n rule: decimal.induct)
  case (1 n)
  show ?case
  proof (cases "n < 10")
    case True
    have "(of_char (CHR ''0'') :: nat) = 48" by simp
    moreover have "(of_char (char_of (48 + n)) :: nat) = 48 + n" using digit_char [OF True] by blast
    ultimately have "char_of (48 + n) \<noteq> CHR ''0''" using 1(2) by (metis add_cancel_right_right)
    with True show ?thesis by (simp add: decimal.simps [of n])
  next
    case False
    with 1 decimal_digits [of "n div 10"] show ?thesis by (simp add: decimal.simps [of n])
  qed
qed

lemma decimalValue_snoc: "decimalValue (s @ [c]) = decimalValue s * 10 + (of_char c - 48)"
  by (simp add: decimalValue_def)

lemma u64_add: "a + b < 2 ^ 64 \<Longrightarrow> unat (word_of_nat a + word_of_nat b :: u64) = a + b"
  by (simp add: unat_of_nat flip: of_nat_add)

lemma scanDigit_decimal:
  assumes "isDigit c" "k * 10 + d < 2 ^ 64" and d: "d = (of_char c :: nat) - 48"
  shows "scanDigit 10 c (word_of_nat k, u) = Inr (word_of_nat (k * 10 + d), u)"
proof -
  have c: "d \<le> 9" "digitOf c = Some d" using assms(1) by (auto simp: isDigit_def digitOf_def d)
  have n: "unat (word_of_nat k :: u64) = k" using assms(2) by (simp add: unat_of_nat)
  have "\<not> max_u64 div word_of_nat 10 + 1 \<le> (word_of_nat k :: u64)"
    using assms(2) n by (simp add: word_le_nat_alt unat_div)
  moreover have "\<not> (word_of_nat (k * 10) + word_of_nat d :: u64) < word_of_nat (k * 10)"
    using u64_add [OF assms(2)] assms(2) by (simp add: word_less_nat_alt unat_of_nat del: of_nat_mult of_nat_add)
  moreover have "word_of_nat k * word_of_nat 10 = (word_of_nat (k * 10) :: u64)"
    "word_of_nat (k * 10) + word_of_nat d = (word_of_nat (k * 10 + d) :: u64)" by simp_all
  moreover have "c \<noteq> CHR ''_''" "\<not> 10 \<le> d" using isDigit_not [OF assms(1)] c(1) by simp_all
  ultimately show ?thesis
    unfolding scanDigit_def prod.case c(2) option.case Let_def by (simp only: if_False)
qed

lemma scan_digits:
  "list_all isDigit s \<Longrightarrow> decimalValue s < 2 ^ 64 \<Longrightarrow>
     foldE (scanDigit 10) s (0, u) = Inr (word_of_nat (decimalValue s), u)"
proof (induction s rule: rev_induct)
  case Nil
  then show ?case by (simp add: decimalValue_def)
next
  case (snoc c s)
  then have c: "isDigit c" and less: "decimalValue s * 10 + (of_char c - 48) < 2 ^ 64" by (simp_all add: decimalValue_snoc)
  from snoc less have ih: "foldE (scanDigit 10) s (0, u) = Inr (word_of_nat (decimalValue s), u)" by simp
  show ?case
    unfolding foldE_append ih bindE_simps foldE.simps scanDigit_decimal [OF c less refl] decimalValue_snoc ..
qed

lemma ParseUint0_decimal: "ParseUint0 (decimal (unat n)) = Inr n"
proof (cases "n = 0")
  case True
  then show ?thesis by (simp add: decimal.simps ParseUint0_def basePrefix_def char_of_def bit_0)
next
  case False
  then have "hd (decimal (unat n)) \<noteq> CHR ''0''" by (intro decimal_head) (simp add: unat_eq_0)
  moreover have "unat n < 2 ^ 64" using unsigned_less [of n, where ?'a = nat] by simp
  ultimately show ?thesis
    using decimal_digits [of "unat n"] scan_digits [of "decimal (unat n)" False]
    by (simp add: ParseUint0_def basePrefix_def)
qed

section \<open>Printed durations\<close>

lemma leadingDigit_decimal:
  assumes "isDigit c" "k * 10 + d \<le> 2 ^ 63" and d: "d = (of_char c :: nat) - 48"
  shows "leadingDigit c (word_of_nat k) = Inr (word_of_nat (k * 10 + d))"
proof -
  have c: "of_char c = d + 48" using assms(1) by (auto simp: isDigit_def d)
  have "\<not> 2 ^ 63 div 10 < (word_of_nat k :: u64)"
    using assms(2) by (simp add: word_less_nat_alt unat_of_nat unat_div)
  moreover have "word_of_nat k * 10 + word_of_nat (of_char c) - 48 = (word_of_nat (k * 10 + d) :: u64)"
    unfolding c by simp
  moreover have "\<not> 2 ^ 63 < (word_of_nat (k * 10 + d) :: u64)"
    using assms(2) by (simp add: word_less_nat_alt unat_of_nat del: of_nat_add of_nat_mult)
  ultimately show ?thesis
    unfolding leadingDigit_def Let_def by (simp only: if_False)
qed

lemma leading_digits:
  "list_all isDigit s \<Longrightarrow> decimalValue s \<le> 2 ^ 63 \<Longrightarrow> foldE leadingDigit s 0 = Inr (word_of_nat (decimalValue s))"
proof (induction s rule: rev_induct)
  case Nil
  then show ?case by (simp add: decimalValue_def)
next
  case (snoc c s)
  then have c: "isDigit c" and less: "decimalValue s * 10 + (of_char c - 48) \<le> 2 ^ 63" by (simp_all add: decimalValue_snoc)
  from snoc less have ih: "foldE leadingDigit s 0 = Inr (word_of_nat (decimalValue s))" by simp
  show ?case
    unfolding foldE_append ih bindE_simps foldE.simps leadingDigit_decimal [OF c less refl] decimalValue_snoc ..
qed

lemma ParseDuration_decimal:
  assumes "k < 2 ^ 63"
  shows "ParseDuration fr (decimal k @ ''ns'') = Inr (int k)"
proof -
  note digits = decimal_digits [of k]
  then obtain c cs where dec: "decimal k = c # cs" by (cases "decimal k") auto
  with digits have c: "isDigit c" "\<forall>x \<in> set (decimal k). isDigit x" by (auto simp: list_all_iff)
  have unit: "\<not> isDigit (CHR ''n'')" "\<not> isDigit (CHR ''s'')" by (simp_all add: isDigit_def)
  have take: "takeWhile isDigit (decimal k @ ''ns'') = decimal k" "dropWhile isDigit (decimal k @ ''ns'') = ''ns''"
    using c unit by (simp_all add: takeWhile_append2 dropWhile_append2)
  have lead: "leadingInt (decimal k @ ''ns'') = Inr (word_of_nat k, ''ns'')"
    using leading_digits [of "decimal k"] digits assms by (simp add: leadingInt_def take)
  have bound: "unat (word_of_nat k :: u64) = k" using assms by (simp add: unat_of_nat)
  have "durationTerm fr (decimal k @ ''ns'') = Inr (word_of_nat k, [])"
    using lead c bound assms dec
    by (simp add: durationTerm_def pointFraction_def unitChar_def unit unitMap_def word_less_nat_alt Let_def)
  moreover have "durationTerms fr [] d = Inr d" for d by (simp add: durationTerms.simps [of fr "[]"])
  moreover have "\<not> 2 ^ 63 < 0 + (word_of_nat k :: u64)" using bound assms by (simp add: word_less_nat_alt)
  moreover have "decimal k @ ''ns'' \<noteq> []" by simp
  ultimately have terms: "durationTerms fr (decimal k @ ''ns'') 0 = Inr (word_of_nat k)"
    unfolding durationTerms.simps [of fr "decimal k @ ''ns''"] by (simp only: bindE_simps fst_conv snd_conv if_False) simp
  have "uint (word_of_nat k :: u64) = int k" unfolding uint_nat bound ..
  with terms isDigit_not [OF c(1)] bound assms dec show ?thesis
    by (simp add: ParseDuration_def Let_def word_less_nat_alt)
qed

end
