(* ===== verification/Flags.thy ===== *)
theory Flags
  imports Strconv
begin

text \<open>
  \<open>flag.FlagSet.Parse\<close> of the Go standard library, for flags with a value: the command lines of
  the service and of its health check.
\<close>

section \<open>Command lines\<close>

text \<open>
  A flag set: for every flag what \<open>Value.Set\<close> does with the text.  No flag of the program is
  boolean, so every flag takes a value.
\<close>

type_synonym 'a flagset = "(string \<times> (string \<Rightarrow> 'a \<Rightarrow> 'a result)) list"

definition stringVar :: "(string \<Rightarrow> 'a \<Rightarrow> 'a) \<Rightarrow> string \<Rightarrow> 'a \<Rightarrow> 'a result" where
  "stringVar upd v x = Inr (upd v x)"

definition uint64Var :: "(u64 \<Rightarrow> 'a \<Rightarrow> 'a) \<Rightarrow> string \<Rightarrow> 'a \<Rightarrow> 'a result" where
  "uint64Var upd v x = bindE (ParseUint0 v) (\<lambda>n. Inr (upd n x))"

definition durationVar :: "fraction \<Rightarrow> (int \<Rightarrow> 'a \<Rightarrow> 'a) \<Rightarrow> string \<Rightarrow> 'a \<Rightarrow> 'a result" where
  "durationVar fr upd v x = bindE (ParseDuration fr v) (\<lambda>d. Inr (upd d x))"

text \<open>The name and the value after the first \<open>=\<close>.\<close>

definition splitName :: "string \<Rightarrow> string \<times> string option" where
  "splitName s = (case dropWhile (\<lambda>c. c \<noteq> CHR ''='') s of
     [] \<Rightarrow> (s, None) | c # v \<Rightarrow> (takeWhile (\<lambda>c. c \<noteq> CHR ''='') s, Some v))"

text \<open>\<open>f.actual\<close>: the flags that were set, each once.\<close>

definition visit :: "string \<Rightarrow> string list \<Rightarrow> string list" where
  "visit name visited = (if name \<in> set visited then visited else visited @ [name])"

definition isFlag :: "string \<Rightarrow> bool" where
  "isFlag s \<longleftrightarrow> 2 \<le> length s \<and> hd s = CHR ''-''"

definition flagName :: "string \<Rightarrow> string" where
  "flagName s = (if s ! 1 = CHR ''-'' then drop 2 s else drop 1 s)"

text \<open>
  \<open>parseOne\<close>: whether a flag was seen, the remaining arguments, the variables and the flags
  that were set.  The help text is not modelled.
\<close>

definition parseOne :: "'a flagset \<Rightarrow> string list \<Rightarrow> 'a \<times> string list \<Rightarrow> (bool \<times> string list \<times> 'a \<times> string list) result" where
  "parseOne F args st = (case args of
     [] \<Rightarrow> Inr (False, [], st)
   | s # rest \<Rightarrow>
       if \<not> isFlag s then Inr (False, s # rest, st)
       else if s = ''--'' then Inr (False, rest, st)
       else let text = flagName s in
         if text = [] \<or> hd text = CHR ''-'' \<or> hd text = CHR ''='' then Inl (parse_err ''bad flag syntax'')
         else case splitName text of (name, val) \<Rightarrow>
           (case map_of F name of
              None \<Rightarrow> Inl (if name = ''help'' \<or> name = ''h'' then Err ErrHelp ''flag: help requested''
                else parse_err ''flag provided but not defined'')
            | Some assign \<Rightarrow>
                bindE (case val of Some v \<Rightarrow> Inr (v, rest)
                  | None \<Rightarrow> (case rest of [] \<Rightarrow> Inl (parse_err ''flag needs an argument'') | v # rest \<Rightarrow> Inr (v, rest))) (\<lambda>(v, rest).
                bindE (assign v (fst st)) (\<lambda>x. Inr (True, rest, x, visit name (snd st))))))"

lemma parseOne_seen:
  assumes "parseOne F args st = Inr (True, args', st')"
  shows "length args' < length args \<and> (\<exists>name assign v. map_of F name = Some assign \<and>
    assign v (fst st) = Inr (fst st') \<and> snd st' = visit name (snd st))"
  using assms unfolding parseOne_def Let_def
  by (cases args) (auto simp: bindE_Inr split: if_splits prod.splits option.splits list.splits, blast+)

lemma parseOne_end: "parseOne F args st = Inr (False, args', st') \<Longrightarrow> st' = st"
  unfolding parseOne_def Let_def
  by (cases args) (auto simp: bindE_Inr split: if_splits prod.splits option.splits list.splits)

text \<open>\<open>FlagSet.Parse\<close>: the variables with the flags that were set, and the positional arguments.\<close>

function parseFlags :: "'a flagset \<Rightarrow> string list \<Rightarrow> 'a \<times> string list \<Rightarrow> (('a \<times> string list) \<times> string list) result" where
  "parseFlags F args st = bindE (parseOne F args st) (\<lambda>r.
     if fst r then parseFlags F (fst (snd r)) (snd (snd r)) else Inr (snd (snd r), fst (snd r)))"
  by pat_completeness auto
termination
  by (relation "measure (\<lambda>(F, args, st). length args)") (auto dest: parseOne_seen)

declare parseFlags.simps [simp del]

section \<open>Rendered command lines\<close>

lemma parseFlags_keeps:
  assumes "parseFlags F args st = Inr (st', rest)" and "P st"
    and "\<And>name assign v st x'. map_of F name = Some assign \<Longrightarrow> assign v (fst st) = Inr x' \<Longrightarrow> P st \<Longrightarrow> P (x', visit name (snd st))"
  shows "P st'"
  using assms
proof (induction F args st rule: parseFlags.induct)
  case (1 F args st)
  from 1(2) obtain r where r: "parseOne F args st = Inr r"
    and next_step: "(if fst r then parseFlags F (fst (snd r)) (snd (snd r)) else Inr (snd (snd r), fst (snd r))) = Inr (st', rest)"
    unfolding parseFlags.simps [of F args st] bindE_Inr by blast
  obtain seen args1 st1 where rr: "r = (seen, args1, st1)" by (cases r)
  note one = r [unfolded rr] and rest = next_step [unfolded rr fst_conv snd_conv]
  show ?case
  proof (cases seen)
    case True
    with one have "parseOne F args st = Inr (True, args1, st1)" by simp
    from parseOne_seen [OF this] obtain name assign v where
      found: "map_of F name = Some assign" "assign v (fst st) = Inr (fst st1)" and "snd st1 = visit name (snd st)" by blast
    then have "P (fst st1, snd st1)" using 1(4) [OF found 1(3)] by simp
    then have "P st1" by (simp only: prod.collapse)
    with 1(1) [OF one, unfolded fst_conv snd_conv, OF True _ _ 1(4)] rest True show ?thesis by simp
  next
    case False
    with one have "parseOne F args st = Inr (False, args1, st1)" by simp
    with parseOne_end [OF this] rest False 1(3) show ?thesis by simp
  qed
qed

text \<open>The four ways of giving a flag: one dash or two, joined by \<open>=\<close> or as two arguments.\<close>

definition flagArgs :: "bool \<times> bool \<Rightarrow> string \<times> string \<Rightarrow> string list" where
  "flagArgs = (\<lambda>(long, joined) (name, v). let s = (if long then ''--'' else ''-'') @ name in
     if joined then [s @ ''='' @ v] else [s, v])"

definition plainName :: "string \<Rightarrow> bool" where
  "plainName name \<longleftrightarrow> name \<noteq> [] \<and> hd name \<noteq> CHR ''-'' \<and> CHR ''='' \<notin> set name"

lemma splitName_plain:
  "CHR ''='' \<notin> set name \<Longrightarrow> splitName name = (name, None)"
  "CHR ''='' \<notin> set name \<Longrightarrow> splitName (name @ CHR ''='' # v) = (name, Some v)"
proof -
  assume "CHR ''='' \<notin> set name"
  then have all: "\<And>c. c \<in> set name \<Longrightarrow> c \<noteq> CHR ''=''" by blast
  have "dropWhile (\<lambda>c. c \<noteq> CHR ''='') name = []" using all by (simp add: dropWhile_eq_Nil_conv)
  then show "splitName name = (name, None)" unfolding splitName_def by (simp only: list.case)
  show "splitName (name @ CHR ''='' # v) = (name, Some v)"
    using all by (simp add: splitName_def dropWhile_append2 takeWhile_append2)
qed

lemma parseFlags_flag:
  assumes "plainName name" "map_of F name = Some assign" "assign v x = Inr x'"
  shows "parseFlags F (flagArgs style (name, v) @ args) (x, visited) = parseFlags F args (x', visit name visited)"
proof -
  obtain c cs where name: "name = c # cs" "c \<noteq> CHR ''-''" "c \<noteq> CHR ''=''" "CHR ''='' \<notin> set name"
    using assms(1) by (cases name) (auto simp: plainName_def)
  note split = splitName_plain [OF name(4)]
  obtain long joined where style: "style = (long, joined)" by (cases style)
  have "parseOne F (flagArgs style (name, v) @ args) (x, visited) = Inr (True, args, x', visit name visited)"
    using name(2,3) split [unfolded name(1)] assms(2,3)
    by (cases long; cases joined) (simp_all add: parseOne_def style flagArgs_def isFlag_def flagName_def name(1))
  then show ?thesis by (simp add: parseFlags.simps [of F "flagArgs style (name, v) @ args"])
qed

definition setFlag :: "'a flagset \<Rightarrow> string \<times> string \<Rightarrow> 'a \<Rightarrow> 'a result" where
  "setFlag F = (\<lambda>(name, v) x. case map_of F name of None \<Rightarrow> Inl (parse_err name) | Some assign \<Rightarrow> assign v x)"

lemma parseFlags_rendered:
  assumes "length styles = length settings" "\<forall>(name, v) \<in> set settings. plainName name"
    and "foldE (setFlag F) settings x = Inr y"
  shows "parseFlags F (concat (map2 flagArgs styles settings)) (x, visited) =
    Inr ((y, foldl (\<lambda>vs (name, v). visit name vs) visited settings), [])"
  using assms
proof (induction styles settings arbitrary: x visited rule: list_induct2)
  case (Cons style styles setting settings)
  obtain name v where s: "setting = (name, v)" by (cases setting)
  from Cons.prems(2) obtain assign x' where a: "map_of F name = Some assign" "assign v x = Inr x'"
    and rest: "foldE (setFlag F) settings x' = Inr y"
    by (auto simp: s setFlag_def bindE_Inr split: option.splits)
  have "plainName name" using Cons.prems(1) by (simp add: s)
  from parseFlags_flag [OF this a] Cons.IH [OF _ rest] Cons.prems(1) show ?case by (simp add: s)
qed (simp add: parseFlags.simps parseOne_def)

end
