(* ===== verification/Config.thy ===== *)
theory Config
  imports Flags
begin

text \<open>
  \<open>internal/config/config.go\<close>: the configuration, its flags and its validation.  The
  command line is read by \<open>Flags\<close>.  \<open>common.IsHexAddress\<close>,
  \<open>common.HexToAddress\<close>, \<open>url.Parse\<close> and the arithmetic of fractional durations are
  parameters.  Durations are nanoseconds.
\<close>

record Config =
  c_RPC :: string
  c_L1ChainID :: u64
  c_L2ChainID :: u64
  c_AddressManager :: address
  c_Start :: u64
  c_Confirmations :: u64
  c_BatchSize :: u64
  c_Poll :: int
  c_DB :: string
  c_Listen :: string
  c_Beacon :: string
  c_Inbox :: address
  c_InboxSender :: address
  c_BlobSender :: address
  c_InboxStart :: u64

definition BlobEnabled :: "Config \<Rightarrow> bool" where
  "BlobEnabled c \<longleftrightarrow> c_Beacon c \<noteq> []"

text \<open>The destination variables of the flags.\<close>

record flags =
  f_config :: Config
  f_manager :: string
  f_inbox :: string
  f_sender :: string
  f_blobSender :: string

record url =
  u_Scheme :: string
  u_Host :: string
  u_Fragment :: string

record config_env =
  ce_IsHexAddress :: "string \<Rightarrow> bool"
  ce_HexToAddress :: "string \<Rightarrow> address"
  ce_urlParse :: "string \<Rightarrow> url result"
  ce_fraction :: fraction

definition blob_flag_names :: "string list" where
  "blob_flag_names = [''l1-beacon'', ''batch-inbox-address'', ''batch-inbox-l1-height'',
     ''batch-inbox-sender'', ''batch-inbox-blob-sender'']"

definition config_err :: "string \<Rightarrow> error" where
  "config_err m = Err ErrOther m"

definition validAddress :: "config_env \<Rightarrow> string \<Rightarrow> bool" where
  "validAddress E a \<longleftrightarrow> ce_IsHexAddress E a \<and> ce_HexToAddress E a \<noteq> 0"

definition validBeacon :: "config_env \<Rightarrow> string \<Rightarrow> bool" where
  "validBeacon E b \<longleftrightarrow> (case ce_urlParse E b of Inl _ \<Rightarrow> False
     | Inr u \<Rightarrow> u_Host u \<noteq> [] \<and> (u_Scheme u = ''http'' \<or> u_Scheme u = ''https'') \<and> u_Fragment u = [])"

text \<open>The flags with their defaults.\<close>

definition defaultFlags :: flags where
  "defaultFlags = \<lparr>f_config = \<lparr>c_RPC = [], c_L1ChainID = 0, c_L2ChainID = 0, c_AddressManager = 0, c_Start = 0,
     c_Confirmations = 35, c_BatchSize = 2000, c_Poll = 5 * 1000000000, c_DB = ''data'', c_Listen = ''0.0.0.0:7878'',
     c_Beacon = [], c_Inbox = 0, c_InboxSender = 0, c_BlobSender = 0, c_InboxStart = 0\<rparr>,
     f_manager = [], f_inbox = [], f_sender = [], f_blobSender = []\<rparr>"

definition configFlags :: "config_env \<Rightarrow> flags flagset" where
  "configFlags E =
     [(''l1-rpc'', stringVar (\<lambda>v f. f\<lparr>f_config := f_config f\<lparr>c_RPC := v\<rparr>\<rparr>)),
      (''l1-chain-id'', uint64Var (\<lambda>v f. f\<lparr>f_config := f_config f\<lparr>c_L1ChainID := v\<rparr>\<rparr>)),
      (''l2-chain-id'', uint64Var (\<lambda>v f. f\<lparr>f_config := f_config f\<lparr>c_L2ChainID := v\<rparr>\<rparr>)),
      (''address-manager'', stringVar (\<lambda>v f. f\<lparr>f_manager := v\<rparr>)),
      (''l1-start-height'', uint64Var (\<lambda>v f. f\<lparr>f_config := f_config f\<lparr>c_Start := v\<rparr>\<rparr>)),
      (''confirmations'', uint64Var (\<lambda>v f. f\<lparr>f_config := f_config f\<lparr>c_Confirmations := v\<rparr>\<rparr>)),
      (''batch-size'', uint64Var (\<lambda>v f. f\<lparr>f_config := f_config f\<lparr>c_BatchSize := v\<rparr>\<rparr>)),
      (''poll-interval'', durationVar (ce_fraction E) (\<lambda>v f. f\<lparr>f_config := f_config f\<lparr>c_Poll := v\<rparr>\<rparr>)),
      (''db'', stringVar (\<lambda>v f. f\<lparr>f_config := f_config f\<lparr>c_DB := v\<rparr>\<rparr>)),
      (''listen'', stringVar (\<lambda>v f. f\<lparr>f_config := f_config f\<lparr>c_Listen := v\<rparr>\<rparr>)),
      (''l1-beacon'', stringVar (\<lambda>v f. f\<lparr>f_config := f_config f\<lparr>c_Beacon := v\<rparr>\<rparr>)),
      (''batch-inbox-address'', stringVar (\<lambda>v f. f\<lparr>f_inbox := v\<rparr>)),
      (''batch-inbox-l1-height'', uint64Var (\<lambda>v f. f\<lparr>f_config := f_config f\<lparr>c_InboxStart := v\<rparr>\<rparr>)),
      (''batch-inbox-sender'', stringVar (\<lambda>v f. f\<lparr>f_sender := v\<rparr>)),
      (''batch-inbox-blob-sender'', stringVar (\<lambda>v f. f\<lparr>f_blobSender := v\<rparr>))]"

text \<open>
  The rest of \<open>Parse\<close>: the variables, the flags that were set (\<open>f.Visit\<close>, each once; only
  their number and whether one is among them matters) and \<open>f.NArg\<close>.
\<close>

definition validate :: "config_env \<Rightarrow> flags \<Rightarrow> string list \<Rightarrow> nat \<Rightarrow> Config result" where
  "validate E f visited nargs =
    (let c = f_config f;
         startSet = (''l1-start-height'' \<in> set visited);
         blobFlags = length (filter (\<lambda>n. n \<in> set blob_flag_names) visited)
     in if nargs \<noteq> 0 \<or> c_RPC c = [] \<or> c_L1ChainID c = 0 \<or> c_L2ChainID c = 0 \<or> \<not> ce_IsHexAddress E (f_manager f)
          \<or> \<not> startSet \<or> c_BatchSize c = 0 \<or> c_Poll c \<le> 0 \<or> c_DB c = [] \<or> c_Listen c = []
        then Inl (config_err ''require'')
        else let c = c\<lparr>c_AddressManager := ce_HexToAddress E (f_manager f)\<rparr> in
          if c_AddressManager c = 0 then Inl (config_err ''zero AddressManager'')
          else if blobFlags = 0 then Inr c
          else if blobFlags \<noteq> 5 \<or> \<not> validBeacon E (c_Beacon c) then Inl (config_err ''blob ingestion requires'')
          else if \<exists>a \<in> set [f_inbox f, f_sender f, f_blobSender f]. \<not> validAddress E a
          then Inl (config_err ''blob addresses must be nonzero addresses'')
          else Inr (c\<lparr>c_Inbox := ce_HexToAddress E (f_inbox f), c_InboxSender := ce_HexToAddress E (f_sender f),
            c_BlobSender := ce_HexToAddress E (f_blobSender f)\<rparr>))"

definition Parse :: "config_env \<Rightarrow> string list \<Rightarrow> Config result" where
  "Parse E args = bindE (parseFlags (configFlags E) args (defaultFlags, [])) (\<lambda>((f, visited), rest). validate E f visited (length rest))"

text \<open>What the rest of the program relies on in a configuration it was given.\<close>

definition config_ok :: "Config \<Rightarrow> bool" where
  "config_ok c \<longleftrightarrow> c_RPC c \<noteq> [] \<and> c_L1ChainID c \<noteq> 0 \<and> c_L2ChainID c \<noteq> 0 \<and> c_AddressManager c \<noteq> 0 \<and>
     c_BatchSize c \<noteq> 0 \<and> 0 < c_Poll c \<and> c_DB c \<noteq> [] \<and> c_Listen c \<noteq> [] \<and>
     (BlobEnabled c \<longrightarrow> c_Inbox c \<noteq> 0 \<and> c_InboxSender c \<noteq> 0 \<and> c_BlobSender c \<noteq> 0)"

text \<open>Each set flag is recorded once, and a flag that was not set keeps its default.\<close>

definition flags_ok :: "flags \<times> string list \<Rightarrow> bool" where
  "flags_ok = (\<lambda>(f, visited). distinct visited \<and> (''l1-beacon'' \<notin> set visited \<longrightarrow> c_Beacon (f_config f) = []))"

lemma visit_distinct: "distinct visited \<Longrightarrow> distinct (visit name visited) \<and> set (visit name visited) = insert name (set visited)"
  by (auto simp: visit_def)

lemma configFlags_beacon:
  assumes "map_of (configFlags E) name = Some assign" "assign v f = Inr f'" "name \<noteq> ''l1-beacon''"
  shows "c_Beacon (f_config f') = c_Beacon (f_config f)"
proof -
  from map_of_SomeD [OF assms(1)] assms(2,3) show ?thesis
    by (auto simp: configFlags_def stringVar_def uint64Var_def durationVar_def bindE_Inr)
qed

lemma parsed_flags_ok:
  assumes "parseFlags (configFlags E) args (defaultFlags, []) = Inr (st, rest)"
  shows "flags_ok st"
  using assms
proof (rule parseFlags_keeps)
  show "flags_ok (defaultFlags, [])" by (simp add: flags_ok_def defaultFlags_def)
next
  fix name assign v st x'
  assume found: "map_of (configFlags E) name = Some assign" and run: "assign v (fst st) = Inr x'" and ok: "flags_ok st"
  obtain f visited where st: "st = (f, visited)" by (cases st)
  note vis = visit_distinct [of visited name]
  show "flags_ok (x', visit name (snd st))"
  proof (cases "name = ''l1-beacon''")
    case True
    with ok vis show ?thesis by (simp add: flags_ok_def st)
  next
    case False
    from configFlags_beacon [OF found run False] ok vis show ?thesis by (simp add: flags_ok_def st)
  qed
qed

lemma no_blob_flags: "filter (\<lambda>n. n \<in> set blob_flag_names) vs = [] \<Longrightarrow> ''l1-beacon'' \<notin> set vs"
  by (auto simp: blob_flag_names_def filter_empty_conv)

lemma validate_config_ok:
  assumes "flags_ok (f, visited)" and "validate E f visited n = Inr c"
  shows "config_ok c \<and> (BlobEnabled c \<longrightarrow> validBeacon E (c_Beacon c))"
proof -
  have beacon: "c_Beacon (f_config f) = []" if "filter (\<lambda>n. n \<in> set blob_flag_names) visited = []"
    using no_blob_flags [OF that] assms(1) by (simp add: flags_ok_def)
  show ?thesis
    using assms(2) beacon
    by (auto simp: validate_def Let_def config_ok_def BlobEnabled_def validAddress_def split: if_splits)
qed

section \<open>Rendered configurations\<close>

text \<open>The flags of a configuration, for given texts of its addresses.\<close>

definition settings :: "Config \<Rightarrow> string \<Rightarrow> string \<Rightarrow> string \<Rightarrow> string \<Rightarrow> (string \<times> string) list" where
  "settings c m i s b =
     [(''l1-rpc'', c_RPC c), (''l1-chain-id'', decimal (unat (c_L1ChainID c))), (''l2-chain-id'', decimal (unat (c_L2ChainID c))),
      (''address-manager'', m), (''l1-start-height'', decimal (unat (c_Start c))),
      (''confirmations'', decimal (unat (c_Confirmations c))), (''batch-size'', decimal (unat (c_BatchSize c))),
      (''poll-interval'', decimal (nat (c_Poll c)) @ ''ns''), (''db'', c_DB c), (''listen'', c_Listen c)] @
     (if BlobEnabled c then
       [(''l1-beacon'', c_Beacon c), (''batch-inbox-address'', i), (''batch-inbox-l1-height'', decimal (unat (c_InboxStart c))),
        (''batch-inbox-sender'', s), (''batch-inbox-blob-sender'', b)] else [])"

definition setFlags :: "Config \<Rightarrow> string \<Rightarrow> string \<Rightarrow> string \<Rightarrow> string \<Rightarrow> flags" where
  "setFlags c m i s b = (let f = (f_config defaultFlags)\<lparr>c_RPC := c_RPC c, c_L1ChainID := c_L1ChainID c, c_L2ChainID := c_L2ChainID c,
       c_Start := c_Start c, c_Confirmations := c_Confirmations c, c_BatchSize := c_BatchSize c, c_Poll := c_Poll c,
       c_DB := c_DB c, c_Listen := c_Listen c\<rparr> in
     if BlobEnabled c then \<lparr>f_config = f\<lparr>c_Beacon := c_Beacon c, c_InboxStart := c_InboxStart c\<rparr>, f_manager = m, f_inbox = i,
       f_sender = s, f_blobSender = b\<rparr>
     else \<lparr>f_config = f, f_manager = m, f_inbox = [], f_sender = [], f_blobSender = []\<rparr>)"

lemma settings_set:
  assumes "0 \<le> c_Poll c" "c_Poll c < 2 ^ 63"
  shows "foldE (setFlag (configFlags E)) (settings c m i s b) defaultFlags = Inr (setFlags c m i s b)"
proof -
  have "ParseDuration (ce_fraction E) (decimal (nat (c_Poll c)) @ ''ns'') = Inr (c_Poll c)"
    using ParseDuration_decimal [of "nat (c_Poll c)"] assms by simp
  then show ?thesis
    by (simp add: settings_def setFlags_def setFlag_def configFlags_def stringVar_def uint64Var_def durationVar_def
        ParseUint0_decimal defaultFlags_def Let_def foldE_append)
qed

lemma settings_visited:
  "foldl (\<lambda>vs (name, v). visit name vs) [] (settings c m i s b) = map fst (settings c m i s b)"
  by (simp add: settings_def visit_def)

lemma settings_plain: "\<forall>(name, v) \<in> set (settings c m i s b). plainName name"
  by (auto simp: settings_def plainName_def)

lemma settings_parsed:
  assumes "config_ok c" and "c_Poll c < 2 ^ 63"
    and "ce_IsHexAddress E m" and "ce_HexToAddress E m = c_AddressManager c"
    and "BlobEnabled c \<longrightarrow> validBeacon E (c_Beacon c) \<and> list_all (ce_IsHexAddress E) [i, s, b] \<and>
      map (ce_HexToAddress E) [i, s, b] = [c_Inbox c, c_InboxSender c, c_BlobSender c]"
    and "\<not> BlobEnabled c \<longrightarrow> c_Inbox c = 0 \<and> c_InboxSender c = 0 \<and> c_BlobSender c = 0 \<and> c_InboxStart c = 0"
    and "length styles = length (settings c m i s b)"
  shows "Parse E (concat (map2 flagArgs styles (settings c m i s b))) = Inr c"
proof -
  have "0 \<le> c_Poll c" using assms(1) by (simp add: config_ok_def)
  note parsed = parseFlags_rendered [OF assms(7) settings_plain settings_set [OF this assms(2)], of E "[]", unfolded settings_visited]
  have "validate E (setFlags c m i s b) (map fst (settings c m i s b)) 0 = Inr c"
    using assms(1,3-6)
    by (cases "BlobEnabled c") (simp_all add: validate_def setFlags_def settings_def config_ok_def blob_flag_names_def
        validAddress_def Let_def defaultFlags_def BlobEnabled_def)
  with parsed show ?thesis by (simp add: Parse_def)
qed

section \<open>Properties\<close>

text \<open>C21.  Whatever the command line, \<open>Parse\<close> only returns configurations the program can run
  with: chain IDs, database path, addresses and batch size are set, and when the Beacon URL enables
  Blob ingestion it is an HTTP(S) URL and all Blob addresses are nonzero.\<close>

theorem Parse_config_ok:
  assumes "Parse E args = Inr c"
  shows "config_ok c \<and> (BlobEnabled c \<longrightarrow> validBeacon E (c_Beacon c))"
proof -
  from assms obtain f visited rest where "parseFlags (configFlags E) args (defaultFlags, []) = Inr ((f, visited), rest)"
    and "validate E f visited (length rest) = Inr c"
    by (auto simp: Parse_def bindE_Inr)
  with validate_config_ok [OF parsed_flags_ok] show ?thesis by blast
qed

text \<open>C22.  Every configuration the program accepts has a command line, and it is read back exactly:
  one flag for each field, numbers in decimal, the poll interval in nanoseconds, each flag with one
  dash or two and with the value after \<open>=\<close> or as the next argument.\<close>

theorem Parse_roundtrip:
  assumes "config_ok c" and "c_Poll c < 2 ^ 63"
    and "ce_IsHexAddress E m" and "ce_HexToAddress E m = c_AddressManager c"
    and "BlobEnabled c \<longrightarrow> validBeacon E (c_Beacon c) \<and> list_all (ce_IsHexAddress E) [i, s, b] \<and>
      map (ce_HexToAddress E) [i, s, b] = [c_Inbox c, c_InboxSender c, c_BlobSender c]"
    and "\<not> BlobEnabled c \<longrightarrow> c_Inbox c = 0 \<and> c_InboxSender c = 0 \<and> c_BlobSender c = 0 \<and> c_InboxStart c = 0"
    and "length styles = length (settings c m i s b)"
  shows "Parse E (concat (map2 flagArgs styles (settings c m i s b))) = Inr c"
  by (rule settings_parsed [OF assms])

definition sample_config_env :: config_env where
  "sample_config_env = \<lparr>ce_IsHexAddress = (\<lambda>_. True), ce_HexToAddress = (\<lambda>a. word_of_nat (length a)),
     ce_urlParse = (\<lambda>_. Inr \<lparr>u_Scheme = ''http'', u_Host = ''b'', u_Fragment = []\<rparr>), ce_fraction = (\<lambda>_ _ _. 0)\<rparr>"

definition sample_settings :: Config where
  "sample_settings = \<lparr>c_RPC = ''http://l1'', c_L1ChainID = 1, c_L2ChainID = 1088, c_AddressManager = 1,
     c_Start = 5, c_Confirmations = 35, c_BatchSize = 2000, c_Poll = 5, c_DB = ''data'', c_Listen = '':7878'',
     c_Beacon = ''http://b'', c_Inbox = 2, c_InboxSender = 3, c_BlobSender = 4, c_InboxStart = 9\<rparr>"

lemma sample_parsed:
  assumes "length styles = 15"
  shows "Parse sample_config_env (concat (map2 flagArgs styles (settings sample_settings ''m'' ''ii'' ''sss'' ''bbbb''))) = Inr sample_settings"
  using assms
  by (intro settings_parsed)
    (simp_all add: config_ok_def validBeacon_def sample_config_env_def BlobEnabled_def sample_settings_def settings_def)

theorem Parse_config_ok_witness:
  "config_ok sample_settings \<and> validBeacon sample_config_env (c_Beacon sample_settings)"
  using Parse_config_ok [OF sample_parsed [of "replicate 15 (True, False)"]]
  by (simp add: BlobEnabled_def sample_settings_def)

theorem Parse_roundtrip_witness:
  "Parse sample_config_env (concat (map2 flagArgs (replicate 15 (False, True)) (settings sample_settings ''m'' ''ii'' ''sss'' ''bbbb''))) =
     Inr sample_settings"
  by (rule Parse_roundtrip)
    (simp_all add: config_ok_def validBeacon_def sample_config_env_def BlobEnabled_def sample_settings_def settings_def)

end
