(* ===== verification/BlobCodec.thy ===== *)
theory BlobCodec
  imports Types
begin

unbundle bit_operations_syntax

text \<open>
  The wire formats of \<open>internal/blob/frames.go\<close>: unpacking a 128 KiB Blob into at
  most 130044 bytes and splitting these into frames.  Slices are lists; an access outside
  a slice panics in Go and is the error \<open>panic\<close> here, so that its absence is a theorem.
\<close>

section \<open>Unpacking a Blob\<close>

definition invalid :: "string \<Rightarrow> error" where
  "invalid m = Err ErrInvalid m"

definition panic :: error where
  "panic = Err ErrOther ''panic: index out of range''"

text \<open>\<open>copy(out[op:], src)\<close> and \<open>out[i] = v\<close>.\<close>

definition copyAt :: "'a list \<Rightarrow> nat \<Rightarrow> 'a list \<Rightarrow> 'a list result" where
  "copyAt out op src =
     (if length out < op then Inl panic
      else let n = min (length src) (length out - op) in Inr (take op out @ take n src @ drop (op + n) out))"

definition storeAt :: "'a list \<Rightarrow> nat \<Rightarrow> 'a \<Rightarrow> 'a list result" where
  "storeAt out i v = (if i < length out then Inr (out[i := v]) else Inl panic)"

definition indexAt :: "'a list \<Rightarrow> nat \<Rightarrow> 'a result" where
  "indexAt xs i = (if i < length xs then Inr (xs ! i) else Inl panic)"

text \<open>\<open>xs[a:b]\<close>\<close>

definition sliceAt :: "'a list \<Rightarrow> nat \<Rightarrow> nat \<Rightarrow> 'a list result" where
  "sliceAt xs a b = (if a \<le> b \<and> b \<le> length xs then Inr (take (b - a) (drop a xs)) else Inl panic)"

type_synonym unpackState = "nat \<times> nat \<times> byte list \<times> bytes"

text \<open>One field element: its first byte goes to \<open>encoded\<close>, the other 31 to the output.\<close>

definition decodeElement :: "bytes \<Rightarrow> nat \<Rightarrow> unpackState \<Rightarrow> unpackState result" where
  "decodeElement raw j = (\<lambda>(op, ip, encoded, out).
     bindE (indexAt raw ip) (\<lambda>e.
     bindE (storeAt encoded j e) (\<lambda>encoded.
     if e AND 0xC0 \<noteq> 0 then Inl (invalid ''field element'')
     else bindE (sliceAt raw (ip + 1) (ip + 32)) (\<lambda>src.
       bindE (copyAt out op src) (\<lambda>out. Inr (op + 32, ip + 32, encoded, out))))))"

text \<open>\<open>op--\<close> and the three bytes reassembled from the high bits.\<close>

definition reassemble :: "unpackState \<Rightarrow> unpackState result" where
  "reassemble = (\<lambda>(op0, ip, encoded, out).
     let op = op0 - 1; e0 = encoded ! 0; e1 = encoded ! 1; e2 = encoded ! 2; e3 = encoded ! 3 in
     if op < 96 then Inl panic else
     bindE (storeAt out (op - 96) ((e0 AND 63) OR push_bit 2 (e1 AND 48))) (\<lambda>out.
     bindE (storeAt out (op - 64) ((e1 AND 15) OR push_bit 4 (e3 AND 15))) (\<lambda>out.
     bindE (storeAt out (op - 32) ((e2 AND 63) OR push_bit 2 (e3 AND 48))) (\<lambda>out.
     Inr (op, ip, encoded, out)))))"

text \<open>The rounds from \<open>round\<close> on; \<open>left\<close> counts down from 1024.\<close>

primrec decodeRounds :: "bytes \<Rightarrow> nat \<Rightarrow> nat \<Rightarrow> unpackState \<Rightarrow> unpackState result" where
  "decodeRounds raw len 0 st = Inr st"
| "decodeRounds raw len (Suc left) st =
     bindE (foldE (decodeElement raw) (if Suc left = 1024 then [1, 2, 3] else [0, 1, 2, 3]) st) (\<lambda>st.
     bindE (reassemble st) (\<lambda>st.
     if len \<le> fst st then Inr st else decodeRounds raw len left st))"

definition payloadLength :: "bytes \<Rightarrow> nat" where
  "payloadLength raw = unat (raw ! 2) * 65536 + unat (raw ! 3) * 256 + unat (raw ! 4)"

definition DecodeBlob :: "bytes \<Rightarrow> bytes result" where
  "DecodeBlob raw =
     (if length raw \<noteq> 131072 \<or> raw ! 1 \<noteq> 0 then Inl (invalid ''Blob size/version'')
      else let len = payloadLength raw in
        if 130044 < len then Inl (invalid ''Blob payload length'')
        else bindE (sliceAt raw 5 32) (\<lambda>first.
          bindE (copyAt (replicate 130044 0) 0 first) (\<lambda>out.
          if raw ! 0 AND 0xC0 \<noteq> 0 then Inl (invalid ''field element'')
          else bindE (decodeRounds raw len 1024 (28, 32, [raw ! 0, 0, 0, 0], out)) (\<lambda>(op, ip, encoded, out).
            if list_ex (\<lambda>v. v \<noteq> 0) (drop len out) then Inl (invalid ''Blob output padding'')
            else if list_ex (\<lambda>v. v \<noteq> 0) (drop ip raw) then Inl (invalid ''Blob padding'')
            else sliceAt out 0 len))))"

section \<open>Frames\<close>

definition MaxFrameBytes :: nat where
  "MaxFrameBytes = 1000000"

function parseFrames :: "bytes \<Rightarrow> Frame list result" where
  "parseFrames data =
     (if data = [] then Inr []
      else if length data < 23 then Inl (invalid ''truncated frame'')
      else let n = unat (uint32_be (drop 18 data)) in
        if MaxFrameBytes < n \<or> length data < n + 23 then Inl (invalid ''frame length'')
        else if 1 < data ! (22 + n) then Inl (invalid ''frame end flag'')
        else bindE (parseFrames (drop (23 + n) data)) (\<lambda>rest.
          Inr (\<lparr>fr_ID = word_of_nat (be_nat (take 16 data)), fr_Number = uint16_be (drop 16 data),
            fr_Last = (data ! (22 + n) = 1), fr_Data = take n (drop 22 data)\<rparr> # rest)))"
  by pat_completeness auto
termination by (relation "measure length") auto

declare parseFrames.simps [simp del]

definition ParseFrames :: "bytes \<Rightarrow> Frame list result" where
  "ParseFrames data =
     (if data = [] \<or> hd data \<noteq> 0 then Inl (invalid ''derivation version'')
      else bindE (parseFrames (tl data)) (\<lambda>out.
        if out = [] then Inl (invalid ''no frames'') else Inr out))"

section \<open>The frame format\<close>

definition encodeFrame :: "Frame \<Rightarrow> bytes" where
  "encodeFrame f = be_bytes 16 (unat (fr_ID f)) @ be_bytes 2 (unat (fr_Number f)) @ be_bytes 4 (length (fr_Data f)) @
     fr_Data f @ [if fr_Last f then 1 else 0]"

definition frame_ok :: "Frame \<Rightarrow> bool" where
  "frame_ok f \<longleftrightarrow> length (fr_Data f) \<le> MaxFrameBytes"

lemma word_be_bytes:
  fixes w :: "'a :: len word"
  assumes "LENGTH('a) = 8 * n"
  shows "word_of_nat (be_nat (be_bytes n (unat w))) = w"
proof -
  have "(256 :: nat) ^ n = 2 ^ LENGTH('a)" by (simp add: assms power_mult)
  then have "unat w mod 256 ^ n = unat w" using unsigned_less [of w, where ?'a = nat] by simp
  then show ?thesis by (simp add: be_nat_be_bytes)
qed

lemma be_bytes_word:
  assumes "LENGTH('a :: len) = 8 * n" "length bs = n"
  shows "be_bytes n (unat (word_of_nat (be_nat bs) :: 'a word)) = bs"
proof -
  have "be_nat bs < 2 ^ LENGTH('a)" using be_nat_less [of bs] assms by (simp add: power_mult)
  then have "unat (word_of_nat (be_nat bs) :: 'a word) = be_nat bs"
    by (simp add: unat_of_nat take_bit_eq_mod)
  with be_bytes_be_nat [of bs] assms(2) show ?thesis by simp
qed

text \<open>Parsing the encoding of one frame and what follows.\<close>

lemma parseFrames_encode:
  assumes "frame_ok f"
  shows "parseFrames (encodeFrame f @ rest) = bindE (parseFrames rest) (\<lambda>fs. Inr (f # fs))"
proof -
  let ?d = "encodeFrame f @ rest" and ?n = "length (fr_Data f)"
  have n: "?n \<le> 1000000" using assms by (simp add: frame_ok_def MaxFrameBytes_def)
  have d18: "drop 18 ?d = be_bytes 4 ?n @ fr_Data f @ [if fr_Last f then 1 else 0] @ rest"
    by (simp add: encodeFrame_def)
  have d16: "drop 16 ?d = be_bytes 2 (unat (fr_Number f)) @ be_bytes 4 ?n @ fr_Data f @ [if fr_Last f then 1 else 0] @ rest"
    by (simp add: encodeFrame_def)
  have d22: "drop 22 ?d = fr_Data f @ [if fr_Last f then 1 else 0] @ rest" by (simp add: encodeFrame_def)
  have len: "unat (uint32_be (drop 18 ?d)) = ?n"
    unfolding d18 using n by (simp add: uint32_be_def be_nat_be_bytes unat_of_nat take_bit_eq_mod)
  have num: "uint16_be (drop 16 ?d) = fr_Number f"
    unfolding d16 by (simp add: uint16_be_def word_be_bytes)
  have id: "word_of_nat (be_nat (take 16 ?d)) = fr_ID f"
    by (simp add: encodeFrame_def word_be_bytes)
  have "22 \<le> length ?d" by (simp add: encodeFrame_def)
  from nth_drop [OF this, of ?n] have last: "?d ! (22 + ?n) = (if fr_Last f then 1 else 0)"
    unfolding d22 by (simp add: nth_append)
  have rest: "drop (23 + ?n) ?d = rest" by (simp add: encodeFrame_def)
  have data: "take ?n (drop 22 ?d) = fr_Data f" unfolding d22 by simp
  have l: "length ?d = 23 + ?n + length rest" by (simp add: encodeFrame_def)
  have "parseFrames ?d = bindE (parseFrames rest) (\<lambda>fs.
      Inr (\<lparr>fr_ID = fr_ID f, fr_Number = fr_Number f, fr_Last = fr_Last f, fr_Data = fr_Data f\<rparr> # fs))"
    unfolding parseFrames.simps [of ?d] Let_def len num id last rest data
    using n l by (auto simp: MaxFrameBytes_def)
  moreover have "\<lparr>fr_ID = fr_ID f, fr_Number = fr_Number f, fr_Last = fr_Last f, fr_Data = fr_Data f\<rparr> = f" by simp
  ultimately show ?thesis by (simp only:)
qed

lemma parseFrames_complete:
  "\<forall>f \<in> set fs. frame_ok f \<Longrightarrow> parseFrames (concat (map encodeFrame fs)) = Inr fs"
proof (induction fs)
  case Nil
  then show ?case by (simp add: parseFrames.simps)
next
  case (Cons f fs)
  then show ?case by (simp add: parseFrames_encode)
qed

lemma parseFrames_sound:
  "parseFrames data = Inr fs \<Longrightarrow> (\<forall>f \<in> set fs. frame_ok f) \<and> data = concat (map encodeFrame fs)"
proof (induction data arbitrary: fs rule: parseFrames.induct)
  case (1 data)
  show ?case
  proof (cases "data = []")
    case True
    with "1.prems" show ?thesis by (simp add: parseFrames.simps)
  next
    case False
    let ?n = "unat (uint32_be (drop 18 data))"
    from "1.prems" False have len: "23 \<le> length data" "?n \<le> 1000000" "?n + 23 \<le> length data"
      and flag: "data ! (22 + ?n) \<le> 1"
      by (auto simp: parseFrames.simps [of data] Let_def MaxFrameBytes_def not_less split: if_splits)
    let ?f = "\<lparr>fr_ID = word_of_nat (be_nat (take 16 data)), fr_Number = uint16_be (drop 16 data),
            fr_Last = (data ! (22 + ?n) = 1), fr_Data = take ?n (drop 22 data)\<rparr>"
    from "1.prems" False obtain rest where rest: "parseFrames (drop (23 + ?n) data) = Inr rest" and fs: "fs = ?f # rest"
      by (auto simp: parseFrames.simps [of data] Let_def bindE_Inr split: if_splits)
    have IH: "(\<forall>f \<in> set rest. frame_ok f) \<and> drop (23 + ?n) data = concat (map encodeFrame rest)"
      using "1.IH" False len flag rest by (auto simp: MaxFrameBytes_def not_less)
    have b4: "be_bytes 4 ?n = take 4 (drop 18 data)"
      using len be_bytes_word [where ?'a = 32 and bs = "take 4 (drop 18 data)" and n = 4] by (simp add: uint32_be_def)
    have b2: "be_bytes 2 (unat (uint16_be (drop 16 data))) = take 2 (drop 16 data)"
      using len be_bytes_word [where ?'a = 16 and bs = "take 2 (drop 16 data)" and n = 2] by (simp add: uint16_be_def)
    have b16: "be_bytes 16 (unat (word_of_nat (be_nat (take 16 data)) :: 128 word)) = take 16 data"
      using len be_bytes_word [where ?'a = 128 and bs = "take 16 data" and n = 16] by simp
    have bl: "[if data ! (22 + ?n) = 1 then 1 else 0] = take 1 (drop (22 + ?n) data)"
    proof -
      have "data ! (22 + ?n) = 0 \<or> data ! (22 + ?n) = 1"
        using flag by (auto simp: word_le_nat_alt word_unat_eq_iff)
      then show ?thesis using len by (auto simp: take_Suc hd_drop_conv_nth)
    qed
    have enc: "encodeFrame ?f = take 16 data @ take 2 (drop 16 data) @ take 4 (drop 18 data) @ take ?n (drop 22 data) @
        take 1 (drop (22 + ?n) data)"
    proof -
      have "length (take ?n (drop 22 data)) = ?n" using len by simp
      then show ?thesis
        unfolding encodeFrame_def by (simp add: b2 b16 bl b4 del: length_take length_drop One_nat_def)
    qed
    have "data = encodeFrame ?f @ drop (23 + ?n) data"
    proof -
      have piece: "take k (drop i data) @ drop (i + k) data = drop i data" for i k
        by (metis add.commute append_take_drop_id drop_drop)
      from piece [of 2 16] piece [of 4 18] piece [of ?n 22] piece [of 1 "22 + ?n"]
      have "take 2 (drop 16 data) @ drop 18 data = drop 16 data" "take 4 (drop 18 data) @ drop 22 data = drop 18 data"
        "take ?n (drop 22 data) @ drop (22 + ?n) data = drop 22 data"
        "take 1 (drop (22 + ?n) data) @ drop (23 + ?n) data = drop (22 + ?n) data" by simp_all
      then have "data = take 16 data @ take 2 (drop 16 data) @ take 4 (drop 18 data) @ take ?n (drop 22 data) @
          take 1 (drop (22 + ?n) data) @ drop (23 + ?n) data"
        by (simp only: append_take_drop_id)
      then show ?thesis unfolding enc by simp
    qed
    moreover have "frame_ok ?f" using len by (simp add: frame_ok_def MaxFrameBytes_def)
    ultimately show ?thesis using IH fs by simp
  qed
qed

section \<open>The Blob format\<close>

text \<open>
  The format, round by round.  Four field elements of 32 bytes carry 127 bytes: 31 of each
  element, and three bytes \<open>x\<close>, \<open>y\<close>, \<open>z\<close> from the six low bits of the first
  bytes of the elements.  The first element of the first round only has 27 bytes, after the
  version and the payload length.
\<close>

definition round_bytes :: "byte \<Rightarrow> byte \<Rightarrow> byte \<Rightarrow> byte \<Rightarrow> bytes \<Rightarrow> bytes \<Rightarrow> bytes \<Rightarrow> bytes \<Rightarrow> bytes" where
  "round_bytes h0 h1 h2 h3 b0 b1 b2 b3 =
     b0 @ [(h0 AND 63) OR push_bit 2 (h1 AND 48)] @ b1 @ [(h1 AND 15) OR push_bit 4 (h3 AND 15)] @
     b2 @ [(h2 AND 63) OR push_bit 2 (h3 AND 48)] @ b3"

definition element_head :: "bytes \<Rightarrow> nat \<Rightarrow> byte" where
  "element_head raw k = raw ! (32 * k)"

definition element_body :: "bytes \<Rightarrow> nat \<Rightarrow> bytes" where
  "element_body raw k = (if k = 0 then take 27 (drop 5 raw) else take 31 (drop (32 * k + 1) raw))"

definition raw_round :: "bytes \<Rightarrow> nat \<Rightarrow> bytes" where
  "raw_round raw r = (let k = 4 * r in
     round_bytes (element_head raw k) (element_head raw (Suc k)) (element_head raw (k + 2)) (element_head raw (k + 3))
       (element_body raw k) (element_body raw (Suc k)) (element_body raw (k + 2)) (element_body raw (k + 3)))"

definition heads_ok :: "bytes \<Rightarrow> nat \<Rightarrow> bool" where
  "heads_ok raw r \<longleftrightarrow> (let k = 4 * r in
     element_head raw k AND 0xC0 = 0 \<and> element_head raw (Suc k) AND 0xC0 = 0 \<and>
     element_head raw (k + 2) AND 0xC0 = 0 \<and> element_head raw (k + 3) AND 0xC0 = 0)"

text \<open>The output of the first \<open>n\<close> rounds.\<close>

definition rounds :: "bytes \<Rightarrow> nat \<Rightarrow> bytes" where
  "rounds raw n = concat (map (raw_round raw) [0 ..< n])"

lemma length_element_body:
  assumes "length raw = 131072" "k < 4096"
  shows "length (element_body raw k) = (if k = 0 then 27 else 31)"
  using assms by (auto simp: element_body_def)

lemma length_raw_round:
  assumes "length raw = 131072" "r < 1024"
  shows "length (raw_round raw r) = (if r = 0 then 123 else 127)"
  using assms by (simp add: raw_round_def round_bytes_def length_element_body Let_def)

lemma length_rounds:
  assumes "length raw = 131072" "n \<le> 1024"
  shows "length (rounds raw n) = (if n = 0 then 0 else 127 * n - 4)"
  using assms(2)
proof (induction n)
  case (Suc n)
  have "rounds raw (Suc n) = rounds raw n @ raw_round raw n" by (simp add: rounds_def)
  with Suc length_raw_round [OF assms(1), of n] show ?case by auto
qed (simp add: rounds_def)

lemma bindE_if: "bindE (if c then Inl e else Inr x) f = (if c then Inl e else f x)"
  by simp

text \<open>Writing behind a written prefix.\<close>

lemma copyAt_zeros:
  "length src \<le> m \<Longrightarrow> copyAt (P @ replicate m 0) (length P) src = Inr (P @ src @ replicate (m - length src) 0)"
  by (simp add: copyAt_def Let_def drop_replicate)

lemma copyAt_gap:
  "length src < m \<Longrightarrow> copyAt (P @ replicate m 0) (length P + 1) src =
     Inr (P @ [0] @ src @ replicate (m - 1 - length src) 0)"
  using copyAt_zeros [of src "m - 1" "P @ [0]"] by (cases m) (simp_all add: replicate_append_same)

text \<open>The field elements are read where the format puts them.\<close>

lemma decodeElement_eq:
  assumes "length raw = 131072" "0 < k" "k < 4096" "j < length encoded"
  shows "decodeElement raw j (op, 32 * k, encoded, out) =
    (if element_head raw k AND 0xC0 \<noteq> 0 then Inl (invalid ''field element'')
     else bindE (copyAt out op (element_body raw k)) (\<lambda>out.
       Inr (op + 32, 32 * Suc k, encoded[j := element_head raw k], out)))"
  using assms
  by (simp add: decodeElement_def indexAt_def storeAt_def sliceAt_def element_head_def element_body_def add.commute)

text \<open>What three elements leave in the output, with gaps for the reassembled bytes.\<close>

lemma elements_tail:
  assumes raw: "length raw = 131072" and k: "k + 3 < 4096" and m: "96 \<le> m"
  shows "foldE (decodeElement raw) [1, 2, 3] (Suc (length P), 32 * Suc k, [h, x, y, z], P @ replicate m 0) =
    (if element_head raw (Suc k) AND 0xC0 \<noteq> 0 \<or> element_head raw (k + 2) AND 0xC0 \<noteq> 0 \<or> element_head raw (k + 3) AND 0xC0 \<noteq> 0
     then Inl (invalid ''field element'')
     else Inr (length P + 97, 32 * (k + 4), [h, element_head raw (Suc k), element_head raw (k + 2), element_head raw (k + 3)],
       P @ [0] @ element_body raw (Suc k) @ [0] @ element_body raw (k + 2) @ [0] @ element_body raw (k + 3) @ replicate (m - 96) 0))"
proof -
  have b1: "length (element_body raw (Suc k)) = 31" and b2: "length (element_body raw (k + 2)) = 31"
    and b3: "length (element_body raw (k + 3)) = 31"
    using k by (simp_all add: length_element_body [OF raw])
  have c1: "copyAt (P @ replicate m 0) (Suc (length P)) (element_body raw (Suc k)) =
      Inr (P @ [0] @ element_body raw (Suc k) @ replicate (m - 32) 0)"
    using copyAt_gap [of "element_body raw (Suc k)" m P] b1 m by simp
  have c2: "copyAt (P @ [0] @ element_body raw (Suc k) @ replicate (m - 32) 0) (length P + 33) (element_body raw (k + 2)) =
      Inr (P @ [0] @ element_body raw (Suc k) @ [0] @ element_body raw (k + 2) @ replicate (m - 64) 0)"
    using copyAt_gap [of "element_body raw (k + 2)" "m - 32" "P @ [0] @ element_body raw (Suc k)"] b1 b2 m
    by (simp add: add.commute)
  have c3: "copyAt (P @ [0] @ element_body raw (Suc k) @ [0] @ element_body raw (k + 2) @ replicate (m - 64) 0)
      (length P + 65) (element_body raw (k + 3)) =
      Inr (P @ [0] @ element_body raw (Suc k) @ [0] @ element_body raw (k + 2) @ [0] @ element_body raw (k + 3) @ replicate (m - 96) 0)"
    using copyAt_gap [of "element_body raw (k + 3)" "m - 64" "P @ [0] @ element_body raw (Suc k) @ [0] @ element_body raw (k + 2)"]
      b1 b2 b3 m by (simp add: add.commute)
  have e1: "decodeElement raw 1 (Suc (length P), 32 * Suc k, [h, x, y, z], P @ replicate m 0) =
      (if element_head raw (Suc k) AND 0xC0 \<noteq> 0 then Inl (invalid ''field element'')
       else Inr (length P + 33, 32 * (k + 2), [h, element_head raw (Suc k), y, z],
         P @ [0] @ element_body raw (Suc k) @ replicate (m - 32) 0))"
    using k decodeElement_eq [OF raw, of "Suc k" 1 "[h, x, y, z]" "Suc (length P)"] c1 by simp
  have e2: "decodeElement raw 2 (length P + 33, 32 * (k + 2), [h, a, y, z], P @ [0] @ element_body raw (Suc k) @ replicate (m - 32) 0) =
      (if element_head raw (k + 2) AND 0xC0 \<noteq> 0 then Inl (invalid ''field element'')
       else Inr (length P + 65, 32 * (k + 3), [h, a, element_head raw (k + 2), z],
         P @ [0] @ element_body raw (Suc k) @ [0] @ element_body raw (k + 2) @ replicate (m - 64) 0))" for a
    using k decodeElement_eq [OF raw, of "k + 2" 2 "[h, a, y, z]" "length P + 33"] c2 by simp
  have e3: "decodeElement raw 3 (length P + 65, 32 * (k + 3), [h, a, b, z],
        P @ [0] @ element_body raw (Suc k) @ [0] @ element_body raw (k + 2) @ replicate (m - 64) 0) =
      (if element_head raw (k + 3) AND 0xC0 \<noteq> 0 then Inl (invalid ''field element'')
       else Inr (length P + 97, 32 * (k + 4), [h, a, b, element_head raw (k + 3)],
         P @ [0] @ element_body raw (Suc k) @ [0] @ element_body raw (k + 2) @ [0] @ element_body raw (k + 3) @ replicate (m - 96) 0))" for a b
    using k decodeElement_eq [OF raw, of "k + 3" 3 "[h, a, b, z]" "length P + 65"] c3 by simp
  show ?thesis
    unfolding foldE.simps e1 bindE_if e2 e3 by auto
qed

lemma reassemble_eq:
  assumes "length b1 = 31" "length b2 = 31" "length b3 = 31"
  shows "reassemble (length (P @ b0) + 97, ip, [h0, h1, h2, h3], (P @ b0) @ [0] @ b1 @ [0] @ b2 @ [0] @ b3 @ Z) =
    Inr (length (P @ b0) + 96, ip, [h0, h1, h2, h3], P @ round_bytes h0 h1 h2 h3 b0 b1 b2 b3 @ Z)"
proof -
  define Q where "Q = P @ b0"
  have u1: "(Q @ [0] @ b1 @ [0] @ b2 @ [0] @ b3 @ Z)[length Q := v] = Q @ [v] @ b1 @ [0] @ b2 @ [0] @ b3 @ Z" for v
    by simp
  have u2: "(Q @ [v] @ b1 @ [0] @ b2 @ [0] @ b3 @ Z)[length Q + 32 := w] = Q @ [v] @ b1 @ [w] @ b2 @ [0] @ b3 @ Z" for v w
    using list_update_length [of "Q @ [v] @ b1" 0 "b2 @ [0] @ b3 @ Z" w] assms by (simp add: add.commute)
  have u3: "(Q @ [v] @ b1 @ [w] @ b2 @ [0] @ b3 @ Z)[length Q + 64 := u] = Q @ [v] @ b1 @ [w] @ b2 @ [u] @ b3 @ Z" for u v w
    using list_update_length [of "Q @ [v] @ b1 @ [w] @ b2" 0 "b3 @ Z" u] assms by (simp add: add.commute)
  have n: "length Q + 97 - 1 = length Q + 96" "length Q + 96 - 96 = length Q" "length Q + 96 - 64 = length Q + 32"
    "length Q + 96 - 32 = length Q + 64" by simp_all
  have s1: "storeAt (Q @ [0] @ b1 @ [0] @ b2 @ [0] @ b3 @ Z) (length Q) v = Inr (Q @ [v] @ b1 @ [0] @ b2 @ [0] @ b3 @ Z)" for v
    unfolding storeAt_def u1 by simp
  have s2: "storeAt (Q @ [v] @ b1 @ [0] @ b2 @ [0] @ b3 @ Z) (length Q + 32) w = Inr (Q @ [v] @ b1 @ [w] @ b2 @ [0] @ b3 @ Z)" for v w
    unfolding storeAt_def u2 using assms by simp
  have s3: "storeAt (Q @ [v] @ b1 @ [w] @ b2 @ [0] @ b3 @ Z) (length Q + 64) u = Inr (Q @ [v] @ b1 @ [w] @ b2 @ [u] @ b3 @ Z)" for u v w
    unfolding storeAt_def u3 using assms by simp
  show ?thesis
    unfolding Q_def [symmetric] reassemble_def Let_def prod.case n s1 s2 s3 bindE_simps
    by (simp add: Q_def round_bytes_def)
qed

text \<open>The last three elements of a round and its reassembled bytes.\<close>

lemma round_tail:
  assumes raw: "length raw = 131072" and k: "k + 3 < 4096" and m: "96 \<le> m"
  shows "bindE (foldE (decodeElement raw) [1, 2, 3] (Suc (length (P @ b0)), 32 * Suc k, [h, x, y, z], (P @ b0) @ replicate m 0)) reassemble =
    (if element_head raw (Suc k) AND 0xC0 \<noteq> 0 \<or> element_head raw (k + 2) AND 0xC0 \<noteq> 0 \<or> element_head raw (k + 3) AND 0xC0 \<noteq> 0
     then Inl (invalid ''field element'')
     else Inr (length (P @ b0) + 96, 32 * (k + 4), [h, element_head raw (Suc k), element_head raw (k + 2), element_head raw (k + 3)],
       P @ round_bytes h (element_head raw (Suc k)) (element_head raw (k + 2)) (element_head raw (k + 3))
         b0 (element_body raw (Suc k)) (element_body raw (k + 2)) (element_body raw (k + 3)) @ replicate (m - 96) 0))"
proof -
  have b: "length (element_body raw (Suc k)) = 31" "length (element_body raw (k + 2)) = 31"
    "length (element_body raw (k + 3)) = 31"
    using k by (simp_all add: length_element_body [OF raw])
  show ?thesis
    unfolding elements_tail [OF assms] bindE_if reassemble_eq [OF b] by (rule refl)
qed

text \<open>A whole round: the first starts behind the 27 bytes of the first element.\<close>

lemma round_later:
  assumes raw: "length raw = 131072" and r: "0 < r" "r < 1024" and m: "127 \<le> m"
  shows "\<exists>enc. length enc = 4 \<and>
    bindE (foldE (decodeElement raw) [0, 1, 2, 3] (length P, 128 * r, [x0, x1, x2, x3], P @ replicate m 0)) reassemble =
    (if \<not> heads_ok raw r then Inl (invalid ''field element'')
     else Inr (length P + 127, 128 * Suc r, enc, P @ raw_round raw r @ replicate (m - 127) 0))"
proof -
  define k where "k = 4 * r"
  have k: "0 < k" "k + 3 < 4096" "128 * r = 32 * k" "32 * (k + 4) = 128 * Suc r" using r by (simp_all add: k_def)
  have b: "length (element_body raw k) = 31" using k by (simp add: length_element_body [OF raw])
  let ?h = "element_head raw" and ?b = "element_body raw"
  have c0: "copyAt (P @ replicate m 0) (length P) (?b k) = Inr ((P @ ?b k) @ replicate (m - 31) 0)"
    using copyAt_zeros [of "?b k" m P] b m by simp
  have e0: "decodeElement raw 0 (length P, 32 * k, [x0, x1, x2, x3], P @ replicate m 0) =
      (if ?h k AND 0xC0 \<noteq> 0 then Inl (invalid ''field element'')
       else Inr (Suc (length (P @ ?b k)), 32 * Suc k, [?h k, x1, x2, x3], (P @ ?b k) @ replicate (m - 31) 0))"
    using k b decodeElement_eq [OF raw, of k 0 "[x0, x1, x2, x3]" "length P"] c0 by simp
  have m': "96 \<le> m - 31" "m - 31 - 96 = m - 127" and len: "length (P @ ?b k) + 96 = length P + 127"
    using m b by simp_all
  show ?thesis
    unfolding k(3) foldE.simps(2) [of _ 0] e0 bindE_if bindE_assoc if_distrib [of "\<lambda>x. bindE x _"] bindE_simps
      round_tail [OF raw k(2) m'(1)] m'(2) len k(4)
    by (intro exI [of _ "[?h k, ?h (Suc k), ?h (k + 2), ?h (k + 3)]"])
      (auto simp: heads_ok_def raw_round_def k_def Let_def)
qed

lemma round_first:
  assumes raw: "length raw = 131072" and h0: "raw ! 0 AND 0xC0 = 0"
  shows "bindE (foldE (decodeElement raw) [1, 2, 3] (28, 32, [raw ! 0, 0, 0, 0], take 27 (drop 5 raw) @ replicate (m + 96) 0)) reassemble =
    (if \<not> heads_ok raw 0 then Inl (invalid ''field element'')
     else Inr (123, 128, [element_head raw 0, element_head raw 1, element_head raw 2, element_head raw 3], raw_round raw 0 @ replicate m 0))"
proof -
  have b: "length (element_body raw 0) = 27" by (simp add: length_element_body [OF raw])
  have e: "take 27 (drop 5 raw) = element_body raw 0" "raw ! 0 = element_head raw 0"
    by (simp_all add: element_body_def element_head_def)
  show ?thesis
    using round_tail [OF raw, of 0 "m + 96" "[]" "element_body raw 0" "element_head raw 0" 0 0 0] b h0
    by (simp add: e heads_ok_def raw_round_def numeral_2_eq_2 numeral_3_eq_3)
qed

text \<open>The number of rounds a payload of a given length takes.\<close>

definition rounds_used :: "nat \<Rightarrow> nat" where
  "rounds_used len = (len + 130) div 127"

lemma rounds_used_iff:
  assumes "0 < r"
  shows "rounds_used len \<le> r \<longleftrightarrow> len \<le> 127 * r - 4"
proof -
  have "rounds_used len \<le> r \<longleftrightarrow> len + 130 < 127 * Suc r"
    unfolding rounds_used_def using div_less_iff_less_mult [of 127 "len + 130" "Suc r"] by (simp add: less_Suc_eq_le mult.commute)
  with assms show ?thesis by auto
qed

lemma rounds_used_bounds: "0 < rounds_used len" "len \<le> 130044 \<Longrightarrow> rounds_used len \<le> 1024"
  by (simp_all add: rounds_used_iff) (simp add: rounds_used_def div_greater_zero_iff)

definition unpacked :: "bytes \<Rightarrow> nat \<Rightarrow> byte list \<Rightarrow> unpackState" where
  "unpacked raw n enc = (127 * n - 4, 128 * n, enc, rounds raw n @ replicate (130048 - 127 * n) 0)"

lemma round_unpacked:
  assumes raw: "length raw = 131072" and r: "0 < r" "r < 1024" and enc: "length enc = 4"
  shows "\<exists>enc'. length enc' = 4 \<and> bindE (foldE (decodeElement raw) [0, 1, 2, 3] (unpacked raw r enc)) reassemble =
    (if \<not> heads_ok raw r then Inl (invalid ''field element'') else Inr (unpacked raw (Suc r) enc'))"
proof -
  from enc obtain a b c d where e: "enc = [a, b, c, d]"
    by (auto simp: numeral_eq_Suc length_Suc_conv)
  have len: "length (rounds raw r) = 127 * r - 4" using length_rounds [OF raw, of r] r by simp
  have "127 \<le> 130048 - 127 * r" using r by linarith
  from round_later [OF raw r this, where P = "rounds raw r" and ?x0.0 = a and ?x1.0 = b and ?x2.0 = c and ?x3.0 = d]
  obtain enc' where "length enc' = 4" and "bindE (foldE (decodeElement raw) [0, 1, 2, 3] (unpacked raw r enc)) reassemble =
    (if \<not> heads_ok raw r then Inl (invalid ''field element'')
     else Inr (127 * r - 4 + 127, 128 * Suc r, enc', rounds raw r @ raw_round raw r @ replicate (130048 - 127 * r - 127) 0))"
    unfolding unpacked_def len e by blast
  moreover have "127 * r - 4 + 127 = 127 * Suc r - 4" "130048 - 127 * r - 127 = 130048 - 127 * Suc r" using r by simp_all
  ultimately show ?thesis by (auto simp: unpacked_def rounds_def)
qed

lemma decodeRounds_from:
  assumes raw: "length raw = 131072" and len: "len \<le> 130044"
  shows "0 < r \<Longrightarrow> r + left = 1024 \<Longrightarrow> r < rounds_used len \<Longrightarrow> length enc = 4 \<Longrightarrow>
    \<exists>enc'. decodeRounds raw len left (unpacked raw r enc) =
      (if \<forall>i. r \<le> i \<and> i < rounds_used len \<longrightarrow> heads_ok raw i then Inr (unpacked raw (rounds_used len) enc')
       else Inl (invalid ''field element''))"
proof (induction left arbitrary: r enc)
  case 0
  then show ?case using rounds_used_bounds(2) [OF len] by simp
next
  case (Suc left)
  then have r: "r < 1024" and n: "Suc left \<noteq> 1024" by auto
  from round_unpacked [OF raw Suc.prems(1) r Suc.prems(4)] obtain enc' where e: "length enc' = 4"
    and run: "bindE (foldE (decodeElement raw) [0, 1, 2, 3] (unpacked raw r enc)) reassemble =
    (if \<not> heads_ok raw r then Inl (invalid ''field element'') else Inr (unpacked raw (Suc r) enc'))" by blast
  have step: "decodeRounds raw len (Suc left) (unpacked raw r enc) =
      (if \<not> heads_ok raw r then Inl (invalid ''field element'')
       else if rounds_used len \<le> Suc r then Inr (unpacked raw (Suc r) enc')
       else decodeRounds raw len left (unpacked raw (Suc r) enc'))"
    unfolding decodeRounds.simps if_not_P [OF n] bindE_assoc [symmetric] run bindE_if
    by (simp add: unpacked_def rounds_used_iff)
  show ?case
  proof (cases "rounds_used len \<le> Suc r")
    case True
    with Suc.prems(3) have "rounds_used len = Suc r" by simp
    then show ?thesis unfolding step by (auto simp: less_Suc_eq_le le_antisym)
  next
    case False
    with Suc.IH [of "Suc r" enc'] Suc.prems e obtain enc'' where
      IH: "decodeRounds raw len left (unpacked raw (Suc r) enc') =
      (if \<forall>i. Suc r \<le> i \<and> i < rounds_used len \<longrightarrow> heads_ok raw i then Inr (unpacked raw (rounds_used len) enc'')
       else Inl (invalid ''field element''))" by auto
    have "(\<forall>i. r \<le> i \<and> i < rounds_used len \<longrightarrow> heads_ok raw i) \<longleftrightarrow>
        heads_ok raw r \<and> (\<forall>i. Suc r \<le> i \<and> i < rounds_used len \<longrightarrow> heads_ok raw i)"
      using Suc.prems(3) by (metis Suc_leD not_less_eq_eq order_refl nle_le)
    with False IH show ?thesis unfolding step by auto
  qed
qed

lemma decodeRounds_all:
  assumes raw: "length raw = 131072" and len: "len \<le> 130044" and h0: "raw ! 0 AND 0xC0 = 0"
  shows "\<exists>enc. decodeRounds raw len 1024 (28, 32, [raw ! 0, 0, 0, 0], take 27 (drop 5 raw) @ replicate 130017 0) =
      (if \<forall>i < rounds_used len. heads_ok raw i then Inr (unpacked raw (rounds_used len) enc)
       else Inl (invalid ''field element''))"
proof -
  let ?enc = "[element_head raw 0, element_head raw 1, element_head raw 2, element_head raw 3]"
  have u: "(123, 128, ?enc, raw_round raw 0 @ replicate 129921 0) = unpacked raw 1 ?enc"
    by (simp add: unpacked_def rounds_def)
  have first: "bindE (foldE (decodeElement raw) [1, 2, 3] (28, 32, [raw ! 0, 0, 0, 0], take 27 (drop 5 raw) @ replicate 130017 0)) reassemble =
    (if \<not> heads_ok raw 0 then Inl (invalid ''field element'') else Inr (unpacked raw 1 ?enc))"
    using round_first [OF raw h0, of 129921] unfolding u by simp
  have n: "(1024 :: nat) = Suc 1023" by simp
  have step: "decodeRounds raw len 1024 (28, 32, [raw ! 0, 0, 0, 0], take 27 (drop 5 raw) @ replicate 130017 0) =
      (if \<not> heads_ok raw 0 then Inl (invalid ''field element'')
       else if rounds_used len \<le> 1 then Inr (unpacked raw 1 ?enc) else decodeRounds raw len 1023 (unpacked raw 1 ?enc))"
    unfolding n decodeRounds.simps if_P [OF refl] bindE_assoc [symmetric] first bindE_if
    by (simp add: unpacked_def rounds_used_iff)
  show ?thesis
  proof (cases "rounds_used len \<le> 1")
    case True
    with rounds_used_bounds(1) [of len] have "rounds_used len = 1" by linarith
    then show ?thesis unfolding step by auto
  next
    case False
    with decodeRounds_from [OF raw len, of 1 1023 ?enc] obtain enc where
      IH: "decodeRounds raw len 1023 (unpacked raw 1 ?enc) =
      (if \<forall>i. 1 \<le> i \<and> i < rounds_used len \<longrightarrow> heads_ok raw i then Inr (unpacked raw (rounds_used len) enc)
       else Inl (invalid ''field element''))" by auto
    have "(\<forall>i < rounds_used len. heads_ok raw i) \<longleftrightarrow>
        heads_ok raw 0 \<and> (\<forall>i. 1 \<le> i \<and> i < rounds_used len \<longrightarrow> heads_ok raw i)"
      using rounds_used_bounds(1) [of len] by (metis One_nat_def Suc_leI not_gr_zero)
    with False IH show ?thesis unfolding step by auto
  qed
qed

definition zeros :: "bytes \<Rightarrow> bool" where
  "zeros bs \<longleftrightarrow> list_all (\<lambda>v. v = 0) bs"

lemma zeros_not_ex: "list_ex (\<lambda>v. v \<noteq> 0) bs \<longleftrightarrow> \<not> zeros bs"
  by (auto simp: zeros_def list_ex_iff list_all_iff)

lemma zeros_append [simp]: "zeros (a @ b) \<longleftrightarrow> zeros a \<and> zeros b"
  by (simp add: zeros_def)

lemma zeros_replicate [simp]: "zeros (replicate n 0)"
  by (simp add: zeros_def list_all_iff)

text \<open>When a Blob is well formed, and the payload it then carries.\<close>

definition blob_ok :: "bytes \<Rightarrow> bool" where
  "blob_ok raw \<longleftrightarrow> length raw = 131072 \<and> raw ! 1 = 0 \<and> payloadLength raw \<le> 130044 \<and>
     (let len = payloadLength raw; n = rounds_used len in
        (\<forall>i < n. heads_ok raw i) \<and> zeros (drop len (rounds raw n)) \<and> zeros (drop (128 * n) raw))"

definition blob_payload :: "bytes \<Rightarrow> bytes" where
  "blob_payload raw = (let len = payloadLength raw in take len (rounds raw (rounds_used len)))"

lemma length_rounds_used:
  assumes "length raw = 131072" "len \<le> 130044"
  shows "len \<le> length (rounds raw (rounds_used len))"
proof -
  have "length (rounds raw (rounds_used len)) = 127 * rounds_used len - 4"
    using length_rounds [OF assms(1), of "rounds_used len"] rounds_used_bounds [of len] assms(2) by simp
  moreover have "len \<le> 127 * rounds_used len - 4"
    using rounds_used_iff [of "rounds_used len" len] rounds_used_bounds(1) [of len] by simp
  ultimately show ?thesis by simp
qed

text \<open>What is wrong with a Blob, in the order the decoder finds it.\<close>

definition blob_fault :: "bytes \<Rightarrow> string option" where
  "blob_fault raw = (let len = payloadLength raw; n = rounds_used len in
     if length raw \<noteq> 131072 \<or> raw ! 1 \<noteq> 0 then Some ''Blob size/version''
     else if 130044 < len then Some ''Blob payload length''
     else if \<not> (\<forall>i < n. heads_ok raw i) then Some ''field element''
     else if \<not> zeros (drop len (rounds raw n)) then Some ''Blob output padding''
     else if \<not> zeros (drop (128 * n) raw) then Some ''Blob padding''
     else None)"

lemma blob_fault_None: "blob_fault raw = None \<longleftrightarrow> blob_ok raw"
  unfolding blob_fault_def blob_ok_def Let_def by (auto simp: linorder_not_less [symmetric])

lemma DecodeBlob_eq:
  "DecodeBlob raw = (case blob_fault raw of None \<Rightarrow> Inr (blob_payload raw) | Some m \<Rightarrow> Inl (invalid m))"
proof (cases "length raw = 131072 \<and> raw ! 1 = 0 \<and> payloadLength raw \<le> 130044")
  case False
  then show ?thesis by (auto simp: DecodeBlob_def blob_fault_def Let_def)
next
  case True
  define len where "len = payloadLength raw"
  define n where "n = rounds_used len"
  from True have raw: "length raw = 131072" and v: "raw ! 1 = 0" and len: "len \<le> 130044" by (simp_all add: len_def)
  have first: "sliceAt raw 5 32 = Inr (take 27 (drop 5 raw))" using raw by (simp add: sliceAt_def)
  have copied: "copyAt (replicate 130044 0) 0 (take 27 (drop 5 raw)) = Inr (take 27 (drop 5 raw) @ replicate 130017 0)"
    using copyAt_zeros [of "take 27 (drop 5 raw)" 130044 "[]"] raw by simp
  have head: "(\<forall>i < n. heads_ok raw i) \<Longrightarrow> raw ! 0 AND 0xC0 = 0"
    using rounds_used_bounds(1) [of len] unfolding n_def [symmetric] by (auto simp: heads_ok_def element_head_def)
  have bound: "len \<le> length (rounds raw n)" unfolding n_def by (rule length_rounds_used [OF raw len])
  show ?thesis
  proof (cases "raw ! 0 AND 0xC0 = 0")
    case h0: True
    from decodeRounds_all [OF raw len h0] obtain enc where
      run: "decodeRounds raw len 1024 (28, 32, [raw ! 0, 0, 0, 0], take 27 (drop 5 raw) @ replicate 130017 0) =
      (if \<forall>i < n. heads_ok raw i then Inr (unpacked raw n enc) else Inl (invalid ''field element''))"
      unfolding n_def by blast
    have "DecodeBlob raw = bindE (if \<forall>i < n. heads_ok raw i then Inr (unpacked raw n enc) else Inl (invalid ''field element''))
        (\<lambda>(op, ip, encoded, out).
            if list_ex (\<lambda>v. v \<noteq> 0) (drop len out) then Inl (invalid ''Blob output padding'')
            else if list_ex (\<lambda>v. v \<noteq> 0) (drop ip raw) then Inl (invalid ''Blob padding'')
            else sliceAt out 0 len)"
      unfolding DecodeBlob_def len_def [symmetric] Let_def first bindE_simps copied run
      using raw v len h0 by simp
    then show ?thesis
      using raw v len bound unfolding blob_fault_def blob_payload_def Let_def len_def [symmetric] n_def [symmetric]
      by (cases "\<forall>i < n. heads_ok raw i") (simp_all add: unpacked_def zeros_not_ex sliceAt_def)
  next
    case h0: False
    have "DecodeBlob raw = Inl (invalid ''field element'')"
      unfolding DecodeBlob_def len_def [symmetric] Let_def first bindE_simps copied
      using raw v len h0 by simp
    moreover have "blob_fault raw = Some ''field element''"
      using h0 head raw v len unfolding blob_fault_def Let_def len_def [symmetric] n_def [symmetric] by auto
    ultimately show ?thesis by simp
  qed
qed

lemma DecodeBlob_meaning: "DecodeBlob raw = Inr out \<longleftrightarrow> blob_ok raw \<and> out = blob_payload raw"
  by (auto simp: DecodeBlob_eq blob_fault_None [symmetric] split: option.splits)

subsection \<open>The encoding is canonical\<close>

text \<open>The first bytes of the elements are six bits each and come back from the reassembled bytes.\<close>

lemma byte_eqI:
  fixes x y :: byte
  assumes "bit x 0 = bit y 0" "bit x 1 = bit y 1" "bit x 2 = bit y 2" "bit x 3 = bit y 3"
    "bit x 4 = bit y 4" "bit x 5 = bit y 5" "bit x 6 = bit y 6" "bit x 7 = bit y 7"
  shows "x = y"
proof (rule bit_word_eqI)
  fix n assume "n < LENGTH(8)"
  then have "n \<in> {0, 1, 2, 3, 4, 5, 6, 7}" by auto
  with assms show "bit x n = bit y n" by auto
qed

lemma head_bits:
  fixes h :: byte
  assumes "h AND 0xC0 = 0"
  shows "\<not> bit h 6" "\<not> bit h 7"
proof -
  have "\<not> bit (h AND 0xC0) 6" "\<not> bit (h AND 0xC0) 7" using assms by simp_all
  then show "\<not> bit h 6" "\<not> bit h 7" by (simp_all add: bit_and_iff bit_numeral_rec)
qed

lemma heads_from_bytes:
  fixes h0 h1 h2 h3 :: byte
  assumes "h0 AND 0xC0 = 0" "h1 AND 0xC0 = 0" "h2 AND 0xC0 = 0" "h3 AND 0xC0 = 0"
    and x: "x = (h0 AND 63) OR push_bit 2 (h1 AND 48)"
    and y: "y = (h1 AND 15) OR push_bit 4 (h3 AND 15)"
    and z: "z = (h2 AND 63) OR push_bit 2 (h3 AND 48)"
  shows "h0 = x AND 63" "h1 = (y AND 15) OR (drop_bit 2 x AND 48)" "h2 = z AND 63"
    "h3 = drop_bit 4 y OR (drop_bit 2 z AND 48)"
  unfolding x y z using assms(1-4) [THEN head_bits(1)] assms(1-4) [THEN head_bits(2)]
  by (intro byte_eqI; simp add: bit_and_iff bit_or_iff bit_push_bit_iff bit_drop_bit_eq bit_numeral_rec)+


lemma round_bytes_inj:
  assumes eq: "round_bytes h0 h1 h2 h3 b0 b1 b2 b3 = round_bytes g0 g1 g2 g3 c0 c1 c2 c3"
    and len: "length b0 = length c0" "length b1 = length c1" "length b2 = length c2" "length b3 = length c3"
    and h: "h0 AND 0xC0 = 0" "h1 AND 0xC0 = 0" "h2 AND 0xC0 = 0" "h3 AND 0xC0 = 0"
    and g: "g0 AND 0xC0 = 0" "g1 AND 0xC0 = 0" "g2 AND 0xC0 = 0" "g3 AND 0xC0 = 0"
  shows "[h0, h1, h2, h3] = [g0, g1, g2, g3] \<and> [b0, b1, b2, b3] = [c0, c1, c2, c3]"
proof -
  from eq len have b: "[b0, b1, b2, b3] = [c0, c1, c2, c3]"
    and x: "(h0 AND 63) OR push_bit 2 (h1 AND 48) = (g0 AND 63) OR push_bit 2 (g1 AND 48)"
    and y: "(h1 AND 15) OR push_bit 4 (h3 AND 15) = (g1 AND 15) OR push_bit 4 (g3 AND 15)"
    and z: "(h2 AND 63) OR push_bit 2 (h3 AND 48) = (g2 AND 63) OR push_bit 2 (g3 AND 48)"
    by (simp_all add: round_bytes_def)
  from heads_from_bytes [OF h refl refl refl] heads_from_bytes [OF g x y z] b show ?thesis by simp
qed

lemma zeros_same: "zeros a \<Longrightarrow> zeros b \<Longrightarrow> length a = length b \<Longrightarrow> a = b"
  by (auto simp: zeros_def list_all_length list_eq_iff_nth_eq)

lemma base256_inj:
  fixes x y x' y' :: nat
  assumes "256 * x + y = 256 * x' + y'" "y < 256" "y' < 256"
  shows "x = x' \<and> y = y'"
proof -
  have "(256 * x + y) div 256 = (256 * x' + y') div 256" "(256 * x + y) mod 256 = (256 * x' + y') mod 256"
    using assms(1) by simp_all
  with assms(2,3) show ?thesis by simp
qed

lemma payloadLength_inj:
  assumes "payloadLength a = payloadLength b"
  shows "a ! 2 = b ! 2 \<and> a ! 3 = b ! 3 \<and> a ! 4 = b ! 4"
proof -
  have u: "unat (x :: byte) < 256" for x using unsigned_less [of x, where ?'a = nat] by simp
  from assms have "256 * (256 * unat (a ! 2) + unat (a ! 3)) + unat (a ! 4) =
      256 * (256 * unat (b ! 2) + unat (b ! 3)) + unat (b ! 4)" by (simp add: payloadLength_def)
  from base256_inj [OF this u u] have "256 * unat (a ! 2) + unat (a ! 3) = 256 * unat (b ! 2) + unat (b ! 3)"
    and "unat (a ! 4) = unat (b ! 4)" by blast+
  with base256_inj [OF _ u u] have "unat (a ! 2) = unat (b ! 2) \<and> unat (a ! 3) = unat (b ! 3) \<and> unat (a ! 4) = unat (b ! 4)"
    by blast
  then show ?thesis by (simp add: word_unat_eq_iff)
qed

lemma length_blob_payload: "blob_ok raw \<Longrightarrow> length (blob_payload raw) = payloadLength raw"
  using length_rounds_used [of raw "payloadLength raw"] by (simp add: blob_ok_def blob_payload_def Let_def)

lemma raw_round_inj:
  assumes a: "length a = 131072" and b: "length b = 131072" and r: "r < 1024" and eq: "raw_round a r = raw_round b r"
    and h: "heads_ok a r" "heads_ok b r" and j: "j < 4"
  shows "element_head a (4 * r + j) = element_head b (4 * r + j) \<and> element_body a (4 * r + j) = element_body b (4 * r + j)"
proof -
  have len: "length (element_body a k) = length (element_body b k)" if "k < 4096" for k
    using that by (simp add: length_element_body a b)
  have "[element_head a (4 * r), element_head a (Suc (4 * r)), element_head a (4 * r + 2), element_head a (4 * r + 3)] =
     [element_head b (4 * r), element_head b (Suc (4 * r)), element_head b (4 * r + 2), element_head b (4 * r + 3)] \<and>
    [element_body a (4 * r), element_body a (Suc (4 * r)), element_body a (4 * r + 2), element_body a (4 * r + 3)] =
     [element_body b (4 * r), element_body b (Suc (4 * r)), element_body b (4 * r + 2), element_body b (4 * r + 3)]"
    using eq h r unfolding raw_round_def heads_ok_def Let_def
    by (intro round_bytes_inj len) auto
  moreover from j have "j = 0 \<or> j = 1 \<or> j = 2 \<or> j = 3" by auto
  ultimately show ?thesis by auto
qed

lemma nth_of_elements:
  assumes a: "length a = 131072" and b: "length b = 131072" and i: "i < 131072"
    and head: "element_head a (i div 32) = element_head b (i div 32)"
    and body: "element_body a (i div 32) = element_body b (i div 32)"
    and pre: "\<And>j. 0 < j \<Longrightarrow> j < 5 \<Longrightarrow> a ! j = b ! j"
  shows "a ! i = b ! i"
proof (cases "i mod 32 = 0")
  case True
  then have "32 * (i div 32) = i" by presburger
  with head show ?thesis by (simp add: element_head_def)
next
  case False
  show ?thesis
  proof (cases "i < 32")
    case True
    show ?thesis
    proof (cases "i < 5")
      case True
      with pre [of i] \<open>i mod 32 \<noteq> 0\<close> show ?thesis by (cases "i = 0") simp_all
    next
      case F: False
      from body True have "take 27 (drop 5 a) ! (i - 5) = take 27 (drop 5 b) ! (i - 5)" by (simp add: element_body_def)
      with True F a b show ?thesis by simp
    qed
  next
    case ge: False
    define k where "k = i div 32"
    define j where "j = i mod 32"
    have i': "i = 32 * k + j" and j: "0 < j" "j < 32" and k: "k \<noteq> 0"
      using ge False by (simp_all add: k_def j_def div_eq_0_iff)
    have pick: "take 31 (drop (32 * k + 1) xs) ! (j - 1) = xs ! i" if "length xs = 131072" for xs :: bytes
      using that i i' j by simp
    from body k have "take 31 (drop (32 * k + 1) a) = take 31 (drop (32 * k + 1) b)"
      by (simp add: element_body_def k_def)
    with pick [OF a] pick [OF b] show ?thesis by simp
  qed
qed

lemma blob_ok_canonical:
  assumes a: "blob_ok a" and b: "blob_ok b" and p: "blob_payload a = blob_payload b"
  shows "a = b"
proof -
  define len where "len = payloadLength a"
  define n where "n = rounds_used len"
  have lb: "payloadLength b = len" using length_blob_payload [OF a] length_blob_payload [OF b] p len_def by simp
  note ok = a [unfolded blob_ok_def Let_def len_def [symmetric] n_def [symmetric]]
    b [unfolded blob_ok_def Let_def lb n_def [symmetric]]
  then have la: "length a = 131072" and lb': "length b = 131072" and n: "n \<le> 1024" "0 < n"
    using rounds_used_bounds [of len] by (simp_all add: n_def)
  have "rounds a n = rounds b n"
  proof -
    have "take len (rounds a n) = take len (rounds b n)"
      using p unfolding blob_payload_def Let_def lb len_def [symmetric] n_def [symmetric] .
    moreover have "drop len (rounds a n) = drop len (rounds b n)"
      using ok n by (intro zeros_same) (simp_all add: length_rounds)
    ultimately show ?thesis by (metis append_take_drop_id)
  qed
  then have "map (raw_round a) [0 ..< n] = map (raw_round b) [0 ..< n]"
    unfolding rounds_def using n
    by (subst (asm) concat_eq_concat_iff) (auto simp: set_zip length_raw_round la lb')
  then have rd: "raw_round a r = raw_round b r" if "r < n" for r using that by simp
  have el: "element_head a k = element_head b k \<and> element_body a k = element_body b k" if "k < 4 * n" for k
  proof -
    from that have r: "k div 4 < n" by (simp add: less_mult_imp_div_less mult.commute)
    have "4 * (k div 4) + k mod 4 = k" by simp
    with raw_round_inj [OF la lb' _ rd [OF r], of "k mod 4"] r n ok show ?thesis by auto
  qed
  have pre: "a ! j = b ! j" if "0 < j" "j < 5" for j
  proof -
    from that have "j = 1 \<or> j = 2 \<or> j = 3 \<or> j = 4" by auto
    with payloadLength_inj [of a b] ok lb len_def show ?thesis by auto
  qed
  show ?thesis
  proof (rule nth_equalityI)
    show "length a = length b" using la lb' by simp
    fix i assume i: "i < length a"
    show "a ! i = b ! i"
    proof (cases "i < 128 * n")
      case True
      then have "i div 32 < 4 * n" by (simp add: less_mult_imp_div_less)
      with el nth_of_elements [OF la lb', of i] pre i la show ?thesis by auto
    next
      case False
      have "drop (128 * n) a = drop (128 * n) b"
        using ok la lb' by (intro zeros_same) simp_all
      then have "drop (128 * n) a ! (i - 128 * n) = drop (128 * n) b ! (i - 128 * n)" by simp
      with False i la lb' show ?thesis by simp
    qed
  qed
qed

subsection \<open>Every payload has an encoding\<close>

text \<open>
  The packing the unpacker reverses: the payload behind a version byte and its length, padded
  with zeros to 1024 rounds of 127 bytes.
\<close>

definition encode_round :: "bytes \<Rightarrow> bytes" where
  "encode_round q = (let x = q ! 31; y = q ! 63; z = q ! 95 in
     [x AND 63] @ take 31 q @ [(y AND 15) OR (drop_bit 2 x AND 48)] @ take 31 (drop 32 q) @
     [z AND 63] @ take 31 (drop 64 q) @ [drop_bit 4 y OR (drop_bit 2 z AND 48)] @ take 31 (drop 96 q))"

definition padded :: "bytes \<Rightarrow> bytes" where
  "padded p = [0] @ be_bytes 3 (length p) @ p @ replicate (130044 - length p) 0"

definition encodeBlob :: "bytes \<Rightarrow> bytes" where
  "encodeBlob p = concat (map (\<lambda>r. encode_round (take 127 (drop (127 * r) (padded p)))) [0 ..< 1024])"

text \<open>The round of a block of 128 bytes.\<close>

definition block_round :: "bytes \<Rightarrow> bytes" where
  "block_round c = round_bytes (c ! 0) (c ! 32) (c ! 64) (c ! 96)
     (take 31 (drop 1 c)) (take 31 (drop 33 c)) (take 31 (drop 65 c)) (take 31 (drop 97 c))"

lemma chunk_concat:
  assumes "\<And>i. i < n \<Longrightarrow> length (f i) = c" "r < n"
  shows "take c (drop (c * r) (concat (map f [0 ..< n]))) = f r"
proof -
  have "[0 ..< n] = [0 ..< r] @ r # [Suc r ..< n]"
    using assms(2) by (metis less_imp_add_positive upt_add_eq_append upt_conv_Cons zero_le less_add_same_cancel1)
  moreover have "length (concat (map f [0 ..< r])) = c * r" using assms by (induction r) simp_all
  ultimately show ?thesis using assms by simp
qed

lemma raw_round_block:
  assumes raw: "length raw = 131072" and r: "r < 1024"
  shows "raw_round raw r = drop (if r = 0 then 4 else 0) (block_round (take 128 (drop (128 * r) raw)))"
proof -
  define c where "c = take 128 (drop (128 * r) raw)"
  have len: "length c = 128" using assms by (simp add: c_def)
  have at: "raw ! (128 * r + k) = c ! k" if "k < 128" for k using that assms by (simp add: c_def)
  have part: "take 31 (drop (128 * r + k) raw) = take 31 (drop k c)" if "k \<le> 97" for k
    using that by (simp add: c_def drop_take add.commute)
  have h: "element_head raw (4 * r) = c ! 0" "element_head raw (Suc (4 * r)) = c ! 32"
    "element_head raw (4 * r + 2) = c ! 64" "element_head raw (4 * r + 3) = c ! 96"
    using at [of 0] at [of 32] at [of 64] at [of 96] by (simp_all add: element_head_def add.commute)
  have b: "element_body raw (Suc (4 * r)) = take 31 (drop 33 c)"
    "element_body raw (4 * r + 2) = take 31 (drop 65 c)" "element_body raw (4 * r + 3) = take 31 (drop 97 c)"
    using part [of 33] part [of 65] part [of 97] by (simp_all add: element_body_def add.commute)
  have b0: "element_body raw (4 * r) = drop (if r = 0 then 4 else 0) (take 31 (drop 1 c))"
    using part [of 1] by (auto simp: element_body_def c_def drop_take)
  have "(if r = 0 then 4 else 0) \<le> length (take 31 (drop 1 c))" using len by simp
  then show ?thesis
    unfolding raw_round_def Let_def h b b0 block_round_def round_bytes_def c_def [symmetric] by simp
qed

lemma word_high_bits: "\<not> bit (x :: byte) 8" "\<not> bit x 9" "\<not> bit x 10" "\<not> bit x 11"
  by (auto dest: bit_imp_le_length)

lemma head_codes:
  fixes x y z :: byte
  defines "h0 \<equiv> x AND 63" and "h1 \<equiv> (y AND 15) OR (drop_bit 2 x AND 48)" and "h2 \<equiv> z AND 63"
    and "h3 \<equiv> drop_bit 4 y OR (drop_bit 2 z AND 48)"
  shows "h0 AND 0xC0 = 0" "h1 AND 0xC0 = 0" "h2 AND 0xC0 = 0" "h3 AND 0xC0 = 0"
    "(h0 AND 63) OR push_bit 2 (h1 AND 48) = x" "(h1 AND 15) OR push_bit 4 (h3 AND 15) = y"
    "(h2 AND 63) OR push_bit 2 (h3 AND 48) = z"
  unfolding h0_def h1_def h2_def h3_def using word_high_bits [of x] word_high_bits [of y] word_high_bits [of z]
  by (intro byte_eqI; simp add: bit_and_iff bit_or_iff bit_push_bit_iff bit_drop_bit_eq bit_numeral_rec)+

lemma length_encode_round: "length q = 127 \<Longrightarrow> length (encode_round q) = 128"
  by (simp add: encode_round_def Let_def)


lemma block_encode_round:
  assumes "length q = 127"
  shows "block_round (encode_round q) = q"
proof -
  define b0 x b1 y b2 z b3 where "b0 = take 31 q" and "x = q ! 31" and "b1 = take 31 (drop 32 q)" and "y = q ! 63"
    and "b2 = take 31 (drop 64 q)" and "z = q ! 95" and "b3 = take 31 (drop 96 q)"
  note parts = b0_def x_def b1_def y_def b2_def z_def b3_def
  have len: "length b0 = 31" "length b1 = 31" "length b2 = 31" "length b3 = 31" using assms by (simp_all add: parts)
  have q: "q = b0 @ [x] @ b1 @ [y] @ b2 @ [z] @ b3"
  proof (rule nth_equalityI)
    fix i assume "i < length q"
    then show "q ! i = (b0 @ [x] @ b1 @ [y] @ b2 @ [z] @ b3) ! i"
      using assms by (auto simp: parts nth_append nth_Cons' intro!: arg_cong [of _ _ "nth q"])
  qed (use assms len in simp)
  have enc: "encode_round q = [x AND 63] @ b0 @ [(y AND 15) OR (drop_bit 2 x AND 48)] @ b1 @ [z AND 63] @ b2 @
      [drop_bit 4 y OR (drop_bit 2 z AND 48)] @ b3" by (simp add: encode_round_def parts Let_def)
  have blk: "block_round ([h0] @ b0 @ [h1] @ b1 @ [h2] @ b2 @ [h3] @ b3) = round_bytes h0 h1 h2 h3 b0 b1 b2 b3" for h0 h1 h2 h3
    using len by (simp add: block_round_def nth_append)
  show ?thesis unfolding enc blk round_bytes_def head_codes q [symmetric] by (rule refl)
qed


lemma heads_encode_round:
  assumes "length q = 127"
  shows "encode_round q ! 0 AND 0xC0 = 0" "encode_round q ! 32 AND 0xC0 = 0" "encode_round q ! 64 AND 0xC0 = 0"
    "encode_round q ! 96 AND 0xC0 = 0"
  using assms by (simp_all add: encode_round_def nth_append Let_def head_codes(1-4) del: word_bw_assocs)

lemma zeros_encode_round:
  assumes "zeros q" "length q = 127"
  shows "zeros (encode_round q)"
proof -
  from assms have "q = replicate 127 0" by (intro zeros_same) simp_all
  then show ?thesis by (simp add: encode_round_def zeros_def list_all_iff)
qed

lemma encodeBlob_parts:
  assumes "length p \<le> 130044"
  shows length_encodeBlob: "length (encodeBlob p) = 131072"
    and encodeBlob_block: "r < 1024 \<Longrightarrow> take 128 (drop (128 * r) (encodeBlob p)) = encode_round (take 127 (drop (127 * r) (padded p)))"
    and encodeBlob_tail: "n \<le> 1024 \<Longrightarrow> drop (128 * n) (encodeBlob p) =
      concat (map (\<lambda>r. encode_round (take 127 (drop (127 * r) (padded p)))) [n ..< 1024])"
proof -
  let ?f = "\<lambda>r. encode_round (take 127 (drop (127 * r) (padded p)))"
  have "length (padded p) = 130048" using assms by (simp add: padded_def)
  then have len: "length (?f i) = 128" if "i < 1024" for i
    using that by (intro length_encode_round) simp
  have pre: "length (concat (map ?f [0 ..< n])) = 128 * n" if "n \<le> 1024" for n
    using that by (induction n) (simp_all add: len)
  show "length (encodeBlob p) = 131072" unfolding encodeBlob_def using pre [of 1024] by simp
  show "take 128 (drop (128 * r) (encodeBlob p)) = ?f r" if "r < 1024"
    unfolding encodeBlob_def by (rule chunk_concat [OF len that])
  show "drop (128 * n) (encodeBlob p) = concat (map ?f [n ..< 1024])" if "n \<le> 1024"
  proof -
    from that have "[0 ..< 1024] = [0 ..< n] @ [n ..< 1024]" by (metis le_add_diff_inverse upt_add_eq_append zero_le)
    then show ?thesis unfolding encodeBlob_def using pre [OF that] by simp
  qed
qed

lemma rounds_encodeBlob:
  assumes p: "length p \<le> 130044"
  shows "0 < n \<Longrightarrow> n \<le> 1024 \<Longrightarrow> rounds (encodeBlob p) n = take (127 * n - 4) (p @ replicate (130044 - length p) 0)"
proof (induction n)
  case (Suc n)
  have len: "length (padded p) = 130048" using p by (simp add: padded_def)
  define q where "q = p @ replicate (130044 - length p) 0"
  define H where "H = [0] @ be_bytes 3 (length p)"
  have pad: "padded p = H @ q" and H: "length H = 4" by (simp_all add: padded_def q_def H_def)
  have rd: "raw_round (encodeBlob p) n = drop (if n = 0 then 4 else 0) (take 127 (drop (127 * n) (padded p)))"
    using Suc.prems len by (simp add: raw_round_block [OF length_encodeBlob [OF p]] encodeBlob_block [OF p] block_encode_round)
  have snoc: "rounds (encodeBlob p) (Suc n) = rounds (encodeBlob p) n @ raw_round (encodeBlob p) n" by (simp add: rounds_def)
  show ?case
  proof (cases "n = 0")
    case True
    then show ?thesis unfolding snoc rd q_def [symmetric] using H by (simp add: rounds_def pad)
  next
    case False
    have "drop (127 * n) (padded p) = drop (127 * n - 4) q"
      using False H unfolding pad by simp
    moreover have "127 * Suc n - 4 = (127 * n - 4) + 127" using False by simp
    moreover have "rounds (encodeBlob p) n = take (127 * n - 4) q" using Suc False by (simp add: q_def)
    ultimately show ?thesis using False unfolding snoc rd q_def [symmetric] by (simp only: take_add if_False drop_0)
  qed
qed simp

lemma length_three: "length xs = 3 \<Longrightarrow> \<exists>a b c. xs = [a, b, c]"
  by (auto simp: numeral_eq_Suc length_Suc_conv)

lemma payloadLength_encodeBlob:
  assumes p: "length p \<le> 130044"
  shows "encodeBlob p ! 1 = 0" "payloadLength (encodeBlob p) = length p"
proof -
  define raw where "raw = encodeBlob p"
  obtain a b c where abc: "be_bytes 3 (length p) = [a, b, c]"
    using length_three length_be_bytes by blast
  have "take 128 raw = encode_round (take 127 (padded p))"
    using encodeBlob_block [OF p, of 0] by (simp add: raw_def)
  moreover have "take 127 (padded p) = 0 # a # b # c # take 123 (p @ replicate (130044 - length p) 0)"
    by (simp add: padded_def abc)
  ultimately have t: "take 128 raw ! 1 = 0" "take 128 raw ! 2 = a" "take 128 raw ! 3 = b" "take 128 raw ! 4 = c"
    by (simp_all add: encode_round_def Let_def nth_append)
  then show "encodeBlob p ! 1 = 0" by (simp add: raw_def)
  from t have "payloadLength raw = be_nat (be_bytes 3 (length p))"
    unfolding abc by (simp add: payloadLength_def be_nat_def)
  with p show "payloadLength (encodeBlob p) = length p" by (simp add: raw_def be_nat_be_bytes)
qed

lemma blob_ok_encodeBlob:
  assumes p: "length p \<le> 130044"
  shows "blob_ok (encodeBlob p)" "blob_payload (encodeBlob p) = p"
proof -
  let ?n = "rounds_used (length p)" and ?q = "p @ replicate (130044 - length p) 0"
  have n: "0 < ?n" "?n \<le> 1024" using rounds_used_bounds [of "length p"] p by simp_all
  have bound: "length p \<le> 127 * ?n - 4" using rounds_used_iff [OF n(1), of "length p"] by simp
  have len: "length (padded p) = 130048" using p by (simp add: padded_def)
  note rd = rounds_encodeBlob [OF p n]
  have heads: "heads_ok (encodeBlob p) r" if "r < 1024" for r
  proof -
    have "encodeBlob p ! (128 * r + k) = encode_round (take 127 (drop (127 * r) (padded p))) ! k" if "k < 128" for k
      using that \<open>r < 1024\<close> unfolding encodeBlob_block [OF p \<open>r < 1024\<close>, symmetric]
      by (simp add: length_encodeBlob [OF p])
    from this [of 0] this [of 32] this [of 64] this [of 96] heads_encode_round [of "take 127 (drop (127 * r) (padded p))"] that len
    show ?thesis by (simp add: heads_ok_def element_head_def Let_def add.commute)
  qed
  have tail: "zeros (drop (128 * ?n) (encodeBlob p))"
  proof -
    have "zeros (encode_round (take 127 (drop (127 * r) (padded p))))" if "?n \<le> r" "r < 1024" for r
    proof (rule zeros_encode_round)
      from that bound n have "length p + 4 \<le> 127 * r" by linarith
      moreover have "length ([0] @ be_bytes 3 (length p) @ p) = length p + 4" by simp
      ultimately have "drop (127 * r) (padded p) = drop (127 * r - (length p + 4)) (replicate (130044 - length p) 0)"
        unfolding padded_def append_assoc [symmetric] drop_append by simp
      then show "zeros (take 127 (drop (127 * r) (padded p)))" by (simp add: drop_replicate take_replicate)
      show "length (take 127 (drop (127 * r) (padded p))) = 127" using len that by simp
    qed
    then show ?thesis unfolding encodeBlob_tail [OF p n(2)] by (auto simp: zeros_def list_all_iff)
  qed
  show "blob_ok (encodeBlob p)"
    unfolding blob_ok_def payloadLength_encodeBlob [OF p] Let_def rd
    using p n heads tail length_encodeBlob [OF p] by (simp add: drop_take take_replicate)
  show "blob_payload (encodeBlob p) = p"
    unfolding blob_payload_def payloadLength_encodeBlob [OF p] Let_def rd using bound by simp
qed

lemma ParseFrames_iff:
  "ParseFrames data = Inr fs \<longleftrightarrow>
     fs \<noteq> [] \<and> list_all frame_ok fs \<and> data = [0] @ concat (map encodeFrame fs)"
proof
  assume "ParseFrames data = Inr fs"
  then show "fs \<noteq> [] \<and> list_all frame_ok fs \<and> data = [0] @ concat (map encodeFrame fs)"
    using parseFrames_sound [of "tl data" fs]
    by (cases data) (auto simp: ParseFrames_def bindE_Inr list_all_iff split: if_splits)
next
  assume "fs \<noteq> [] \<and> list_all frame_ok fs \<and> data = [0] @ concat (map encodeFrame fs)"
  then show "ParseFrames data = Inr fs"
    using parseFrames_complete [of fs] by (simp add: ParseFrames_def list_all_iff)
qed

section \<open>The properties of the wire formats\<close>

text \<open>C23.
  \<open>DecodeBlob\<close> accepts exactly the well-formed Blobs: right size and version, a length of
  at most 130044, six-bit heads in the rounds the length needs, zeros in every unused byte; it
  returns their payload, of just that length.  Every other input is an \<open>ErrInvalid\<close> that
  says what is wrong first: no index is ever out of range.\<close>

theorem DecodeBlob_exact:
  "(case blob_fault raw of
      None \<Rightarrow> blob_ok raw \<and> DecodeBlob raw = Inr (blob_payload raw) \<and> length (blob_payload raw) = payloadLength raw
    | Some m \<Rightarrow> \<not> blob_ok raw \<and> DecodeBlob raw = Inl (Err ErrInvalid m))"
  using blob_fault_None [of raw] length_blob_payload [of raw] by (auto simp: DecodeBlob_eq invalid_def split: option.splits)

text \<open>C24.
  Packing and unpacking are inverse: every payload of at most 130044 bytes has exactly one Blob
  that \<open>DecodeBlob\<close> accepts for it, the one that the packing produces.\<close>

theorem DecodeBlob_encodeBlob:
  assumes "length p \<le> 130044"
  shows "DecodeBlob raw = Inr p \<longleftrightarrow> raw = encodeBlob p"
  using DecodeBlob_meaning [of raw p] blob_ok_encodeBlob [OF assms] blob_ok_canonical [of raw "encodeBlob p"] by metis

text \<open>C25.
  \<open>ParseFrames\<close> returns a list of frames exactly when the data is the derivation version
  followed by the encodings of these frames, at least one, each of at most 1000000 bytes: frames
  are neither lost, reordered, merged nor misread.\<close>

theorem ParseFrames_exact:
  "ParseFrames data = Inr fs \<longleftrightarrow>
     fs \<noteq> [] \<and> list_all frame_ok fs \<and> data = [0] @ concat (map encodeFrame fs)"
  by (rule ParseFrames_iff)

text \<open>An empty payload: the Blob of 131072 zeros.\<close>

theorem DecodeBlob_encodeBlob_witness:
  "DecodeBlob (encodeBlob []) = Inr [] \<and> length (encodeBlob []) = 131072"
  using DecodeBlob_encodeBlob [of "[]" "encodeBlob []"] length_encodeBlob [of "[]"] by simp

end
