(* ===== verification/Span.thy ===== *)
theory Span
  imports BlobCodec "HOL-Library.State_Monad"
begin

unbundle bit_operations_syntax

text \<open>
  \<open>internal/blob/span.go\<close>: the decoder of decompressed channels.  A channel is a
  sequence of RLP strings, each a span batch: block headers column by column, then the
  columns of all transactions.  \<open>spanReader\<close> keeps the first error and every later
  read is empty; the readers are programs of the state monad over it.

  RLP, the decompressors, the transaction type of go-ethereum and \<open>hexutil\<close> are not
  part of the repository: they are the fields of \<open>span_env\<close>.  \<open>big.Int\<close> values
  are natural numbers (all come from bytes), and a slice access outside its bounds is the error
  \<open>panic\<close>.
\<close>

section \<open>Reading\<close>

record spanReader =
  sr_rest :: bytes
  sr_err :: "error option"

type_synonym 'a reading = "(spanReader, 'a) state"

definition maxElements :: u64 where
  "maxElements = 10000000"

definition fail :: "string \<Rightarrow> unit reading" where
  "fail m = State_Monad.update (\<lambda>r. if sr_err r = None then r\<lparr>sr_err := Some (invalid m)\<rparr> else r)"

definition readData :: "u64 \<Rightarrow> bytes reading" where
  "readData n = do {
     r \<leftarrow> State_Monad.get;
     if sr_err r \<noteq> None then State_Monad.return []
     else if length (sr_rest r) < unat n then do { fail ''truncated span''; State_Monad.return [] }
     else do {
       State_Monad.set (r\<lparr>sr_rest := drop (unat n) (sr_rest r)\<rparr>);
       State_Monad.return (take (unat n) (sr_rest r)) } }"

text \<open>
  \<open>binary.ReadUvarint\<close> with \<open>k\<close> of its ten iterations left: the value read so
  far, whether it is complete, and the rest.
\<close>

primrec ReadUvarint :: "nat \<Rightarrow> u64 \<Rightarrow> nat \<Rightarrow> bytes \<Rightarrow> u64 \<times> bool \<times> bytes" where
  "ReadUvarint 0 x s bs = (x, False, bs)"
| "ReadUvarint (Suc k) x s bs =
     (case bs of [] \<Rightarrow> (x, False, [])
      | b # bs \<Rightarrow>
          if b < 0x80 then
            if k = 0 \<and> 1 < b then (x, False, bs) else (x OR push_bit s (ucast b), True, bs)
          else ReadUvarint k (x OR push_bit s (ucast (b AND 0x7f))) (s + 7) bs)"

definition readU64 :: "u64 reading" where
  "readU64 = do {
     r \<leftarrow> State_Monad.get;
     if sr_err r \<noteq> None then State_Monad.return 0
     else let (v, ok, rest) = ReadUvarint 10 0 0 (sr_rest r) in do {
       State_Monad.set (r\<lparr>sr_rest := rest\<rparr>);
       (if ok then State_Monad.return () else fail ''invalid span varint'');
       State_Monad.return v } }"

text \<open>\<open>big.Int.BitLen\<close>\<close>

fun BitLen :: "nat \<Rightarrow> nat" where
  "BitLen v = (if v = 0 then 0 else Suc (BitLen (v div 2)))"

declare BitLen.simps [simp del]

definition readBits :: "u64 \<Rightarrow> nat reading" where
  "readBits n = do {
     b \<leftarrow> readData ((n + 7) div 8);
     (if unat n < BitLen (be_nat b) then fail ''nonzero unused bits'' else State_Monad.return ());
     State_Monad.return (be_nat b) }"

definition numbers :: "u64 \<Rightarrow> u64 list reading" where
  "numbers n = State_Monad.traverse_list (\<lambda>_. readU64) [0 ..< unat n]"

section \<open>What is not in the repository\<close>

type_synonym accessList = "(address \<times> hash list) list"

text \<open>The transactions the decoder builds (\<open>types.NewTx\<close> of these structures).\<close>

record TxCommon =
  txc_Nonce :: u64
  txc_Gas :: u64
  txc_To :: "address option"
  txc_Value :: nat
  txc_Data :: bytes
  txc_V :: nat
  txc_R :: nat
  txc_S :: nat

datatype TxData =
    LegacyTx TxCommon nat
  | AccessListTx TxCommon nat nat accessList
  | DynamicFeeTx TxCommon nat nat nat accessList

text \<open>\<open>rlp.Stream.Bytes\<close>: the end of the input, an error, or a string and what follows it.\<close>

datatype rlpNext = RlpEOF | RlpError | RlpString bytes bytes

text \<open>
  \<open>cx_Raw\<close>, \<open>cx_Bytes\<close>: the methods of \<open>rlp.Stream\<close>.  \<open>cx_legacy\<close>,
  \<open>cx_access\<close>, \<open>cx_dynamic\<close>: \<open>rlp.DecodeBytes\<close> into the three structures.
  A decompressor gives what it can decompress and whether it then ends without an error;
  \<open>cx_zlib\<close> also checks the header.  The other fields are the methods of
  \<open>types.Transaction\<close> and \<open>hexutil\<close>.
\<close>

record span_env =
  cx_Raw :: "bytes \<Rightarrow> (bytes \<times> bytes) option"
  cx_Bytes :: "bytes \<Rightarrow> rlpNext"
  cx_legacy :: "bytes \<Rightarrow> (nat \<times> nat \<times> bytes) result"
  cx_access :: "bytes \<Rightarrow> (nat \<times> nat \<times> bytes \<times> accessList) result"
  cx_dynamic :: "bytes \<Rightarrow> (nat \<times> nat \<times> nat \<times> bytes \<times> accessList) result"
  cx_brotli :: "bytes \<Rightarrow> bytes \<times> bool"
  cx_zlib :: "bytes \<Rightarrow> (bytes \<times> bool) option"
  cx_Gas :: "TxData \<Rightarrow> u64"
  cx_Nonce :: "TxData \<Rightarrow> u64"
  cx_Data :: "TxData \<Rightarrow> bytes"
  cx_Value :: "TxData \<Rightarrow> nat"
  cx_GasPrice :: "TxData \<Rightarrow> nat"
  cx_To :: "TxData \<Rightarrow> address option"
  cx_Type :: "TxData \<Rightarrow> nat"
  cx_Sender :: "u64 \<Rightarrow> TxData \<Rightarrow> address result"
  cx_MarshalBinary :: "TxData \<Rightarrow> bytes result"
  cx_hexEncode :: "bytes \<Rightarrow> string"
  cx_EncodeBig :: "nat \<Rightarrow> string"

section \<open>The columns of the transactions\<close>

text \<open>After an error the position of the reader is never used again.\<close>

definition rawTx :: "span_env \<Rightarrow> bytes reading" where
  "rawTx E = do {
     r \<leftarrow> State_Monad.get;
     if sr_err r \<noteq> None then State_Monad.return []
     else case sr_rest r of
       [] \<Rightarrow> do { fail ''missing transaction payload''; State_Monad.return [] }
     | prefix # tail \<Rightarrow>
         if prefix \<le> 0x7f \<and> prefix \<noteq> 1 \<and> prefix \<noteq> 2 then do { fail ''unsupported transaction type''; State_Monad.return [] }
         else case cx_Raw E (if prefix \<le> 0x7f then tail else sr_rest r) of
           None \<Rightarrow> do { fail ''invalid transaction RLP''; State_Monad.return [] }
         | Some (payload, rest) \<Rightarrow> do {
             State_Monad.set (r\<lparr>sr_rest := rest\<rparr>);
             State_Monad.return (if prefix \<le> 0x7f then prefix # payload else payload) } }"

record txFields =
  tf_creation :: nat
  tf_parity :: nat
  tf_protected :: nat
  tf_queue :: nat
  tf_seqParity :: nat
  tf_sigs :: "(nat \<times> nat) list"
  tf_seqSigs :: "(nat \<times> nat) list"
  tf_tos :: "address list"
  tf_payloads :: "bytes list"
  tf_nonces :: "u64 list"
  tf_gases :: "u64 list"
  tf_origins :: "address list"

text \<open>\<open>sigR\<close> and \<open>sigS\<close> (\<open>seqR\<close>, \<open>seqS\<close>) are appended in pairs.\<close>

definition readSig :: "(nat \<times> nat) reading" where
  "readSig = do { r \<leftarrow> readData 32; s \<leftarrow> readData 32; State_Monad.return (be_nat r, be_nat s) }"

definition readAddress :: "address reading" where
  "readAddress = do { b \<leftarrow> readData 20; State_Monad.return (word_of_nat (be_nat b)) }"

definition legacyPayload :: "bytes \<Rightarrow> bool" where
  "legacyPayload p \<longleftrightarrow> p \<noteq> [] \<and> 0x7f < hd p"

definition readTransactions :: "span_env \<Rightarrow> u64 \<Rightarrow> txFields reading" where
  "readTransactions E n = do {
     creation \<leftarrow> readBits n;
     parity \<leftarrow> readBits n;
     sigs \<leftarrow> State_Monad.traverse_list (\<lambda>_. readSig) [0 ..< unat n];
     tos \<leftarrow> State_Monad.traverse_list (\<lambda>_. readAddress) (filter (\<lambda>i. \<not> bit creation i) [0 ..< unat n]);
     payloads \<leftarrow> State_Monad.traverse_list (\<lambda>_. rawTx E) [0 ..< unat n];
     nonces \<leftarrow> numbers n;
     gases \<leftarrow> numbers n;
     protected \<leftarrow> readBits (word_of_nat (length (filter legacyPayload payloads)));
     queue \<leftarrow> readBits n;
     seqParity \<leftarrow> readBits n;
     seqSigs \<leftarrow> State_Monad.traverse_list (\<lambda>_. readSig) [0 ..< unat n];
     origins \<leftarrow> State_Monad.traverse_list (\<lambda>_. readAddress) (filter (\<lambda>i. bit queue i) [0 ..< unat n]);
     State_Monad.return \<lparr>tf_creation = creation, tf_parity = parity, tf_protected = protected, tf_queue = queue,
       tf_seqParity = seqParity, tf_sigs = sigs, tf_seqSigs = seqSigs, tf_tos = tos, tf_payloads = payloads,
       tf_nonces = nonces, tf_gases = gases, tf_origins = origins\<rparr> }"

section \<open>Transactions and blocks\<close>

definition firstByte :: "bytes \<Rightarrow> byte result" where
  "firstByte p = indexAt p 0"

definition restoreTransaction ::
    "span_env \<Rightarrow> bytes \<Rightarrow> u64 \<Rightarrow> u64 \<Rightarrow> address option \<Rightarrow> u64 \<Rightarrow> nat \<Rightarrow> nat \<Rightarrow> bool \<Rightarrow> bool \<Rightarrow> TxData result" where
  "restoreTransaction E payload nonce gas to chainID r s parity protected =
     bindE (firstByte payload) (\<lambda>kind.
     let id = unat chainID; v = of_bool parity;
         tx = (\<lambda>value data v. \<lparr>txc_Nonce = nonce, txc_Gas = gas, txc_To = to, txc_Value = value, txc_Data = data,
           txc_V = v, txc_R = r, txc_S = s\<rparr>) in
     if 0x7f < kind then
       bindE (cx_legacy E payload) (\<lambda>(value, gasPrice, data).
         Inr (LegacyTx (tx value data (if protected then v + (2 * id + 35) else v + 27)) gasPrice))
     else if kind = 1 then
       bindE (cx_access E (tl payload)) (\<lambda>(value, gasPrice, data, accesses).
         Inr (AccessListTx (tx value data v) id gasPrice accesses))
     else if kind = 2 then
       bindE (cx_dynamic E (tl payload)) (\<lambda>(value, tip, fee, data, accesses).
         Inr (DynamicFeeTx (tx value data v) id tip fee accesses))
     else Inl (Err ErrOther ''unsupported transaction type''))"

text \<open>\<open>big.Int.FillBytes\<close> panics when the value does not fit.\<close>

definition FillBytes :: "nat \<Rightarrow> nat \<Rightarrow> bytes result" where
  "FillBytes n v = (if v < 256 ^ n then Inr (be_bytes n v) else Inl panic)"

text \<open>The four running indices of \<open>deriveBlocks\<close>.\<close>

record cursor =
  cu_tx :: nat
  cu_to :: nat
  cu_origin :: nat
  cu_legacy :: nat

definition zero_cursor :: cursor where
  "zero_cursor = \<lparr>cu_tx = 0, cu_to = 0, cu_origin = 0, cu_legacy = 0\<rparr>"

text \<open>The fields of an entry that do not depend on where the transaction comes from.\<close>

definition newEntry :: "span_env \<Rightarrow> u64 \<Rightarrow> u64 \<Rightarrow> u64 \<Rightarrow> u64 \<Rightarrow> TxData \<Rightarrow> BlockTransaction" where
  "newEntry E index batchIndex origin timestamp tx =
     \<lparr>tx_Index = index, tx_BatchIndex = batchIndex, tx_BlockNumber = origin, tx_Timestamp = timestamp,
      tx_GasLimit = decimal (unat (cx_Gas E tx)), tx_Target = 0, tx_Origin = 0, tx_Data = '''', tx_QueueOrigin = '''',
      tx_Value = '''', tx_QueueIndex = None, tx_Decoded = None, tx_Confirmed = True, tx_SeqSign = None\<rparr>"

definition queueEntry :: "span_env \<Rightarrow> TxData \<Rightarrow> address \<Rightarrow> BlockTransaction \<Rightarrow> BlockTransaction" where
  "queueEntry E tx origin entry = entry\<lparr>tx_QueueOrigin := ''l1'', tx_QueueIndex := Some (cx_Nonce E tx),
     tx_Origin := origin, tx_Data := cx_hexEncode E (cx_Data E tx), tx_Value := ''0x0''\<rparr>"

definition sequencerEntry ::
    "span_env \<Rightarrow> u64 \<Rightarrow> TxData \<Rightarrow> bool \<Rightarrow> bool \<Rightarrow> nat \<times> nat \<Rightarrow> nat \<times> nat \<Rightarrow> bool \<Rightarrow> BlockTransaction \<Rightarrow> BlockTransaction result" where
  "sequencerEntry E chainID tx parity protected sig seqSig seqParity entry =
     (case cx_Sender E chainID tx of Inl _ \<Rightarrow> Inl (invalid ''invalid transaction signature'')
      | Inr _ \<Rightarrow>
        bindE (cx_MarshalBinary E tx) (\<lambda>raw.
        bindE (FillBytes 32 (fst sig)) (\<lambda>r.
        bindE (FillBytes 32 (snd sig)) (\<lambda>s.
        let value = cx_EncodeBig E (cx_Value E tx);
            v = (if cx_Type E tx = 0 \<and> \<not> protected then of_bool parity + 27 else of_bool parity) in
        Inr (entry\<lparr>tx_QueueOrigin := ''sequencer'', tx_Data := cx_hexEncode E raw, tx_Value := value,
          tx_Decoded := Some \<lparr>dtx_Nonce = decimal (unat (cx_Nonce E tx)), dtx_GasPrice = decimal (cx_GasPrice E tx),
            dtx_GasLimit = tx_GasLimit entry, dtx_Value = value, dtx_Target = cx_To E tx,
            dtx_Data = cx_hexEncode E (cx_Data E tx),
            dtx_Sig = \<lparr>sig_V = v, sig_R = cx_hexEncode E r, sig_S = cx_hexEncode E s\<rparr>\<rparr>,
          tx_SeqSign := Some (''0x'' @ hexnum (fst seqSig) @ '',0x'' @ hexnum (snd seqSig) @ '',0x'' @
            hexnum (of_bool seqParity))\<rparr>)))))"

text \<open>One transaction of a block.\<close>

definition deriveTx ::
    "span_env \<Rightarrow> u64 \<Rightarrow> u64 \<Rightarrow> u64 \<Rightarrow> u64 \<Rightarrow> u64 \<Rightarrow> txFields \<Rightarrow> cursor \<Rightarrow> (BlockTransaction \<times> cursor) result" where
  "deriveTx E index batchIndex chainID origin timestamp f c =
     (let i = cu_tx c in
      bindE (if bit (tf_creation f) i then Inr (None, c)
             else bindE (indexAt (tf_tos f) (cu_to c)) (\<lambda>a. Inr (Some a, c\<lparr>cu_to := Suc (cu_to c)\<rparr>))) (\<lambda>(to, c).
      bindE (indexAt (tf_payloads f) i) (\<lambda>p.
      bindE (firstByte p) (\<lambda>kind.
      let (protected, c) =
        (if 0x7f < kind then (bit (tf_protected f) (cu_legacy c), c\<lparr>cu_legacy := Suc (cu_legacy c)\<rparr>) else (True, c)) in
      bindE (indexAt (tf_nonces f) i) (\<lambda>nonce.
      bindE (indexAt (tf_gases f) i) (\<lambda>gas.
      bindE (indexAt (tf_sigs f) i) (\<lambda>sig.
      let parity = bit (tf_parity f) i in
      case restoreTransaction E p nonce gas to chainID (fst sig) (snd sig) parity protected of
        Inl e \<Rightarrow> Inl (Wrap ErrInvalid e)
      | Inr tx \<Rightarrow>
          let entry = newEntry E index batchIndex origin timestamp tx in
          if bit (tf_queue f) i then
            bindE (indexAt (tf_origins f) (cu_origin c)) (\<lambda>a.
              Inr (queueEntry E tx a entry, c\<lparr>cu_origin := Suc (cu_origin c), cu_tx := Suc i\<rparr>))
          else
            bindE (indexAt (tf_seqSigs f) i) (\<lambda>seqSig.
            bindE (sequencerEntry E chainID tx parity protected sig seqSig (bit (tf_seqParity f) i) entry) (\<lambda>entry.
              Inr (entry, c\<lparr>cu_tx := Suc i\<rparr>))))))))))"

text \<open>The transactions of one block, in order.\<close>

primrec deriveTxs ::
    "span_env \<Rightarrow> u64 \<Rightarrow> u64 \<Rightarrow> u64 \<Rightarrow> u64 \<Rightarrow> u64 \<Rightarrow> txFields \<Rightarrow> nat \<Rightarrow> cursor \<Rightarrow> (BlockTransaction list \<times> cursor) result" where
  "deriveTxs E index batchIndex chainID origin timestamp f 0 c = Inr ([], c)"
| "deriveTxs E index batchIndex chainID origin timestamp f (Suc k) c =
     bindE (deriveTx E index batchIndex chainID origin timestamp f c) (\<lambda>(entry, c).
     bindE (deriveTxs E index batchIndex chainID origin timestamp f k c) (\<lambda>(entries, c).
       Inr (entry # entries, c)))"

text \<open>The blocks from number \<open>i\<close> of the span on.  Blocks without transactions have time zero.\<close>

fun deriveBlocks ::
    "span_env \<Rightarrow> u64 \<Rightarrow> u64 \<Rightarrow> u64 \<Rightarrow> txFields \<Rightarrow> nat \<Rightarrow> (u64 \<times> u64 \<times> u64 \<times> bytes) list \<Rightarrow> cursor \<Rightarrow> Block list result" where
  "deriveBlocks E start batchIndex chainID f i [] c = Inr []"
| "deriveBlocks E start batchIndex chainID f i ((origin, time, count, extra) # cols) c =
     (let index = start + word_of_nat i - 1 in
      bindE (deriveTxs E index batchIndex chainID origin time f (unat count) c) (\<lambda>(entries, c).
      bindE (deriveBlocks E start batchIndex chainID f (Suc i) cols c) (\<lambda>blocks.
        Inr (\<lparr>blk_Index = index, blk_BatchIndex = batchIndex, blk_Timestamp = (if entries = [] then 0 else time),
          blk_ExtraData = cx_hexEncode E extra, blk_Transactions = entries, blk_Confirmed = True\<rparr> # blocks))))"

section \<open>Spans and channels\<close>

definition sumCounts :: "u64 list \<Rightarrow> u64 result" where
  "sumCounts counts = foldE (\<lambda>n total.
     if maxElements - total < n then Inl (invalid ''span transaction count'') else Inr (total + n)) counts 0"

definition readExtra :: "bytes reading" where
  "readExtra = do { n \<leftarrow> readU64; readData n }"

text \<open>The tail of \<open>decodeSpan\<close>: the transactions, once their number is known.\<close>

definition decodeBody ::
    "span_env \<Rightarrow> u64 \<Rightarrow> u64 \<Rightarrow> u64 \<Rightarrow> (u64 \<times> u64 \<times> u64 \<times> bytes) list \<Rightarrow> u64 \<Rightarrow> spanReader \<Rightarrow> Block list result" where
  "decodeBody E start batchIndex chainID cols tot r =
     (case sr_err r of Some e \<Rightarrow> Inl e | None \<Rightarrow>
      if length (sr_rest r) div 128 < unat tot then Inl (invalid ''truncated transaction signatures'')
      else case run_state (readTransactions E tot) r of (txs, r) \<Rightarrow>
        (case sr_err r of Some e \<Rightarrow> Inl e | None \<Rightarrow>
         if sr_rest r \<noteq> [] then Inl (invalid ''trailing span bytes'')
         else deriveBlocks E start batchIndex chainID txs 0 cols zero_cursor))"

definition readSpanHeader :: "(u64 \<times> u64) reading" where
  "readSpanHeader = do { start \<leftarrow> readU64; readData 40; count \<leftarrow> readU64; State_Monad.return (start, count) }"

definition readColumns :: "u64 \<Rightarrow> (u64 list \<times> u64 list \<times> u64 list) reading" where
  "readColumns count = do {
     readBits count;
     origins \<leftarrow> numbers count;
     stamps \<leftarrow> numbers count;
     counts \<leftarrow> numbers count;
     State_Monad.return (origins, stamps, counts) }"

definition decodeSpan :: "span_env \<Rightarrow> bytes \<Rightarrow> u64 \<Rightarrow> u64 \<Rightarrow> Block list result" where
  "decodeSpan E data batchIndex chainID =
     (case run_state readSpanHeader \<lparr>sr_rest = data, sr_err = None\<rparr> of ((start, count), r) \<Rightarrow>
      (case sr_err r of Some e \<Rightarrow> Inl e | None \<Rightarrow>
       if start = 0 \<or> count = 0 \<or> maxElements < count \<or> length (sr_rest r) div 4 < unat count \<or> max_u64 - start < count - 1
       then Inl (invalid ''span block count/start'')
       else case run_state (readColumns count) r of ((origins, stamps, counts), r) \<Rightarrow>
         bindE (sumCounts counts) (\<lambda>total.
         case run_state (State_Monad.traverse_list (\<lambda>_. readExtra) [0 ..< unat count]) r of (extras, r) \<Rightarrow>
           decodeBody E start batchIndex chainID (zip origins (zip stamps (zip counts extras))) total r)))"

definition MaxChannelBytes :: nat where
  "MaxChannelBytes = 100000000"

text \<open>The loop over the RLP strings of a channel; \<open>fuel\<close> bounds its iterations.\<close>

definition out_of_fuel :: error where
  "out_of_fuel = Err ErrOther ''out of fuel''"

primrec decodeSpans :: "span_env \<Rightarrow> u64 \<Rightarrow> u64 \<Rightarrow> nat \<Rightarrow> bytes \<Rightarrow> Block list result" where
  "decodeSpans E batchIndex chainID 0 payload = Inl out_of_fuel"
| "decodeSpans E batchIndex chainID (Suc fuel) payload =
     (case cx_Bytes E payload of
        RlpEOF \<Rightarrow> Inr []
      | RlpError \<Rightarrow> Inl (invalid ''channel RLP'')
      | RlpString raw rest \<Rightarrow>
          if raw = [] \<or> hd raw \<noteq> 1 then Inl (invalid ''unsupported batch type'')
          else bindE (decodeSpan E (tl raw) batchIndex chainID) (\<lambda>decoded.
            bindE (decodeSpans E batchIndex chainID fuel rest) (\<lambda>blocks. Inr (decoded @ blocks))))"

definition decodeChannel :: "span_env \<Rightarrow> bytes \<Rightarrow> u64 \<Rightarrow> u64 \<Rightarrow> Block list result" where
  "decodeChannel E data batchIndex chainID =
     (if data = [] then Inl (invalid ''empty compressed channel'')
      else case (if hd data = 1 then Some (cx_brotli E (tl data)) else cx_zlib E data) of
        None \<Rightarrow> Inl (invalid ''invalid zlib channel'')
      | Some (out, ok) \<Rightarrow>
          if (\<not> ok \<and> length out \<le> MaxChannelBytes) \<or> MaxChannelBytes < length (take (MaxChannelBytes + 1) out)
          then Inl (invalid ''invalid or oversized compressed channel'')
          else decodeSpans E batchIndex chainID (Suc (length out)) out)"

end
