(* ===== verification/SpanRead.thy ===== *)
theory SpanRead
  imports Span
begin

unbundle bit_operations_syntax

text \<open>
  The laws of the span reader.  \<open>reads m P\<close>: an error stays, a new error is an
  \<open>ErrInvalid\<close>, and without an error the value satisfies \<open>P\<close>.
  \<open>emits m v bs\<close>: on the bytes \<open>bs\<close> and anything behind them the reader
  returns \<open>v\<close> and consumes just \<open>bs\<close>.  Both pass through sequencing and loops,
  so every column of a span has one line per law.
\<close>

section \<open>What a reader returns without an error\<close>

definition reads :: "'a reading \<Rightarrow> ('a \<Rightarrow> bool) \<Rightarrow> bool" where
  "reads m P \<longleftrightarrow> (\<forall>r v r'. run_state m r = (v, r') \<longrightarrow>
     (\<forall>e. sr_err r = Some e \<longrightarrow> sr_err r' = Some e) \<and>
     (\<forall>e. sr_err r = None \<and> sr_err r' = Some e \<longrightarrow> (\<exists>x. e = invalid x)) \<and>
     (sr_err r' = None \<longrightarrow> P v))"

named_theorems reads_intros \<open>the readers and what they return\<close>

lemma readsI:
  assumes "\<And>r v r' e. run_state m r = (v, r') \<Longrightarrow> sr_err r = Some e \<Longrightarrow> sr_err r' = Some e"
    and "\<And>r v r' e. run_state m r = (v, r') \<Longrightarrow> sr_err r = None \<Longrightarrow> sr_err r' = Some e \<Longrightarrow> \<exists>x. e = invalid x"
    and "\<And>r v r'. run_state m r = (v, r') \<Longrightarrow> sr_err r' = None \<Longrightarrow> P v"
  shows "reads m P"
  using assms unfolding reads_def by blast

lemma readsD:
  assumes "reads m P" "run_state m r = (v, r')"
  shows "sr_err r = Some e \<Longrightarrow> sr_err r' = Some e"
    and "sr_err r = None \<Longrightarrow> sr_err r' = Some e \<Longrightarrow> \<exists>x. e = invalid x"
    and "sr_err r' = None \<Longrightarrow> P v"
  using assms unfolding reads_def by blast+

lemma reads_mono: "reads m P \<Longrightarrow> (\<And>v. P v \<Longrightarrow> Q v) \<Longrightarrow> reads m Q"
  unfolding reads_def by blast

lemma reads_return: "P x \<Longrightarrow> reads (State_Monad.return x) P"
  by (auto simp: reads_def)

lemma reads_bind:
  assumes m: "reads m P" and f: "\<And>x. reads (f x) (\<lambda>y. P x \<longrightarrow> Q y)"
  shows "reads (m \<bind> f) Q"
proof (rule readsI)
  fix r w r'' assume "run_state (m \<bind> f) r = (w, r'')"
  then obtain v r' where run: "run_state m r = (v, r')" "run_state (f v) r' = (w, r'')"
    by (auto split: prod.splits)
  note M = readsD [OF m run(1)] and F = readsD [OF f run(2)]
  show "sr_err r'' = Some e" if "sr_err r = Some e" for e using that M(1) F(1) by blast
  show "\<exists>x. e = invalid x" if "sr_err r = None" "sr_err r'' = Some e" for e
  proof (cases "sr_err r'")
    case None
    with F(2) that show ?thesis by blast
  next
    case (Some e')
    with F(1) that M(2) show ?thesis by auto
  qed
  show "Q w" if "sr_err r'' = None"
  proof -
    from that F(1) have "sr_err r' = None" by (cases "sr_err r'") auto
    with that M(3) F(3) show ?thesis by blast
  qed
qed

lemma reads_then: "reads m P \<Longrightarrow> (\<And>x. reads (f x) Q) \<Longrightarrow> reads (m \<bind> f) Q"
  by (rule reads_bind) (auto intro: reads_mono)

lemma reads_traverse:
  assumes "reads m P"
  shows "reads (State_Monad.traverse_list (\<lambda>_. m) xs) (\<lambda>ys. length ys = length xs \<and> list_all P ys)"
proof (induction xs)
  case Nil
  show ?case by (simp add: reads_return)
next
  case (Cons x xs)
  show ?case
    by (simp, rule reads_bind [OF assms], rule reads_bind [OF Cons.IH]) (simp add: reads_return)
qed

subsection \<open>The readers of spans\<close>

lemma reads_readData: "reads (readData n) (\<lambda>b. length b = unat n)"
  by (rule readsI) (auto simp: readData_def fail_def State_Monad.update_def split: if_splits)

lemma reads_readU64: "reads readU64 (\<lambda>_. True)"
  by (rule readsI) (auto simp: readU64_def fail_def State_Monad.update_def Let_def split: if_splits prod.splits)

lemma reads_readBits: "reads (readBits n) (\<lambda>v. BitLen v \<le> unat n)"
  unfolding readBits_def
  by (rule reads_then [OF reads_readData], rule readsI)
    (auto simp: fail_def State_Monad.update_def split: if_splits)

lemma reads_numbers: "reads (numbers n) (\<lambda>v. length v = unat n)"
  unfolding numbers_def by (rule reads_mono [OF reads_traverse [OF reads_readU64]]) simp

lemma reads_readSig: "reads readSig (\<lambda>(r, s). r < 256 ^ 32 \<and> s < 256 ^ 32)"
  unfolding readSig_def
proof (rule reads_bind [OF reads_readData], rule reads_bind [OF reads_readData], rule reads_return, clarify)
  fix a b :: bytes assume "length a = unat (32 :: u64)" "length b = unat (32 :: u64)"
  with be_nat_less [of a] be_nat_less [of b] show "be_nat a < 256 ^ 32 \<and> be_nat b < 256 ^ 32" by simp
qed

lemma reads_readAddress: "reads readAddress (\<lambda>_. True)"
  unfolding readAddress_def by (rule reads_then [OF reads_readData], rule reads_return) simp

lemma reads_readExtra: "reads readExtra (\<lambda>_. True)"
  unfolding readExtra_def by (rule reads_then [OF reads_readU64], rule reads_mono [OF reads_readData]) simp

text \<open>
  What the decoder relies on of \<open>rlp.Stream.Raw\<close>: a value read is not empty (it
  includes its type byte).  And of \<open>rlp.Stream.Bytes\<close>: a string read consumes input.
\<close>

definition raw_nonempty :: "span_env \<Rightarrow> bool" where
  "raw_nonempty E \<longleftrightarrow> (\<forall>bs p rest. cx_Raw E bs = Some (p, rest) \<longrightarrow> p \<noteq> [])"

definition bytes_consume :: "span_env \<Rightarrow> bool" where
  "bytes_consume E \<longleftrightarrow> (\<forall>bs p rest. cx_Bytes E bs = RlpString p rest \<longrightarrow> length rest < length bs)"

lemma raw_nonemptyD: "raw_nonempty E \<Longrightarrow> cx_Raw E bs \<noteq> Some ([], rest)"
  by (auto simp: raw_nonempty_def)

lemma reads_rawTx: "raw_nonempty E \<Longrightarrow> reads (rawTx E) (\<lambda>p. p \<noteq> [])"
  by (rule readsI)
    (auto simp: rawTx_def raw_nonemptyD fail_def State_Monad.update_def split: if_splits list.splits option.splits)

definition rank :: "(nat \<Rightarrow> bool) \<Rightarrow> nat \<Rightarrow> nat" where
  "rank P i = length (filter P [0 ..< i])"

text \<open>The columns agree: one entry per transaction, per call target and per queue origin.\<close>

definition columns_ok :: "nat \<Rightarrow> txFields \<Rightarrow> bool" where
  "columns_ok n f \<longleftrightarrow> length (tf_sigs f) = n \<and> length (tf_seqSigs f) = n \<and> length (tf_payloads f) = n \<and>
     length (tf_nonces f) = n \<and> length (tf_gases f) = n \<and>
     length (tf_tos f) = rank (\<lambda>i. \<not> bit (tf_creation f) i) n \<and>
     length (tf_origins f) = rank (\<lambda>i. bit (tf_queue f) i) n \<and>
     list_all (\<lambda>p. p \<noteq> []) (tf_payloads f) \<and> list_all (\<lambda>(r, s). r < 256 ^ 32 \<and> s < 256 ^ 32) (tf_sigs f)"

lemma reads_readTransactions:
  assumes "raw_nonempty E"
  shows "reads (readTransactions E n) (columns_ok (unat n))"
  unfolding readTransactions_def
  apply (rule reads_then [OF reads_readBits])
  apply (rule reads_then [OF reads_readBits])
  apply (rule reads_bind [OF reads_traverse [OF reads_readSig]])
  apply (rule reads_bind [OF reads_traverse [OF reads_readAddress]])
  apply (rule reads_bind [OF reads_traverse [OF reads_rawTx [OF assms]]])
  apply (rule reads_bind [OF reads_numbers])
  apply (rule reads_bind [OF reads_numbers])
  apply (rule reads_then [OF reads_readBits])
  apply (rule reads_then [OF reads_readBits])
  apply (rule reads_then [OF reads_readBits])
  apply (rule reads_bind [OF reads_traverse [OF reads_readSig]])
  apply (rule reads_bind [OF reads_traverse [OF reads_readAddress]])
  apply (rule reads_return)
  apply (simp add: columns_ok_def rank_def)
  done

section \<open>Transactions by position\<close>

text \<open>
  The reference: the transaction number \<open>i\<close> of a span, with every column read at the
  position where the encoding puts it.  The code walks the columns with four running indices.
\<close>

definition tx_to :: "txFields \<Rightarrow> nat \<Rightarrow> address option" where
  "tx_to f i = (if bit (tf_creation f) i then None else Some (tf_tos f ! rank (\<lambda>i. \<not> bit (tf_creation f) i) i))"

definition tx_protected :: "txFields \<Rightarrow> nat \<Rightarrow> bool" where
  "tx_protected f i \<longleftrightarrow> (legacyPayload (tf_payloads f ! i) \<longrightarrow>
     bit (tf_protected f) (rank (\<lambda>i. legacyPayload (tf_payloads f ! i)) i))"

definition tx_at :: "span_env \<Rightarrow> u64 \<Rightarrow> txFields \<Rightarrow> nat \<Rightarrow> TxData result" where
  "tx_at E chainID f i = restoreTransaction E (tf_payloads f ! i) (tf_nonces f ! i) (tf_gases f ! i) (tx_to f i) chainID
     (fst (tf_sigs f ! i)) (snd (tf_sigs f ! i)) (bit (tf_parity f) i) (tx_protected f i)"

definition entry_at :: "span_env \<Rightarrow> u64 \<Rightarrow> u64 \<Rightarrow> u64 \<Rightarrow> u64 \<Rightarrow> u64 \<Rightarrow> txFields \<Rightarrow> nat \<Rightarrow> BlockTransaction result" where
  "entry_at E index batchIndex chainID origin timestamp f i =
     (case tx_at E chainID f i of Inl e \<Rightarrow> Inl (Wrap ErrInvalid e)
      | Inr tx \<Rightarrow>
          let entry = newEntry E index batchIndex origin timestamp tx in
          if bit (tf_queue f) i then Inr (queueEntry E tx (tf_origins f ! rank (bit (tf_queue f)) i) entry)
          else sequencerEntry E chainID tx (bit (tf_parity f) i) (tx_protected f i) (tf_sigs f ! i) (tf_seqSigs f ! i)
            (bit (tf_seqParity f) i) entry)"

definition cursor_at :: "txFields \<Rightarrow> nat \<Rightarrow> cursor" where
  "cursor_at f i = \<lparr>cu_tx = i, cu_to = rank (\<lambda>i. \<not> bit (tf_creation f) i) i, cu_origin = rank (bit (tf_queue f)) i,
     cu_legacy = rank (\<lambda>i. legacyPayload (tf_payloads f ! i)) i\<rparr>"

lemma rank_0 [simp]: "rank P 0 = 0"
  by (simp add: rank_def)

lemma rank_Suc: "rank P (Suc i) = rank P i + of_bool (P i)"
  by (simp add: rank_def)

lemma rank_mono: "i \<le> j \<Longrightarrow> rank P i \<le> rank P j"
  by (induction j) (auto simp: rank_Suc le_Suc_eq)

lemma rank_less: "P i \<Longrightarrow> i < n \<Longrightarrow> rank P i < rank P n"
  using rank_mono [of "Suc i" n P] by (simp add: rank_Suc)

lemma cursor_at_0: "cursor_at f 0 = zero_cursor"
  by (simp add: cursor_at_def zero_cursor_def)

lemma deriveTx_at:
  assumes ok: "columns_ok n f" and i: "i < n"
  shows "deriveTx E index batchIndex chainID origin timestamp f (cursor_at f i) =
    bindE (entry_at E index batchIndex chainID origin timestamp f i) (\<lambda>entry. Inr (entry, cursor_at f (Suc i)))"
proof -
  let ?p = "tf_payloads f ! i" and ?c = "cursor_at f i"
  let ?cr = "\<lambda>i. \<not> bit (tf_creation f) i" and ?lg = "\<lambda>i. legacyPayload (tf_payloads f ! i)"
  from ok i have p: "?p \<noteq> []" by (simp add: columns_ok_def list_all_length)
  then have kind: "firstByte ?p = Inr (hd ?p)" by (simp add: firstByte_def indexAt_def hd_conv_nth)
  have at: "indexAt (tf_payloads f) i = Inr ?p" "indexAt (tf_nonces f) i = Inr (tf_nonces f ! i)"
    "indexAt (tf_gases f) i = Inr (tf_gases f ! i)" "indexAt (tf_sigs f) i = Inr (tf_sigs f ! i)"
    "indexAt (tf_seqSigs f) i = Inr (tf_seqSigs f ! i)"
    using ok i by (simp_all add: columns_ok_def indexAt_def)
  have lg: "0x7f < hd ?p \<longleftrightarrow> ?lg i" using p by (simp add: legacyPayload_def)
  have to: "(if bit (tf_creation f) i then Inr (None, ?c)
      else bindE (indexAt (tf_tos f) (cu_to ?c)) (\<lambda>a. Inr (Some a, ?c\<lparr>cu_to := Suc (cu_to ?c)\<rparr>))) =
      Inr (tx_to f i, ?c\<lparr>cu_to := rank ?cr (Suc i)\<rparr>)"
    using ok rank_less [of ?cr i n] i by (simp add: tx_to_def cursor_at_def indexAt_def columns_ok_def rank_Suc)
  have prot: "(if ?lg i then (bit (tf_protected f) (cu_legacy c), c\<lparr>cu_legacy := Suc (cu_legacy c)\<rparr>) else (True, c)) =
      (tx_protected f i, c\<lparr>cu_legacy := rank ?lg (Suc i)\<rparr>)" if "cu_legacy c = rank ?lg i" for c
    using that by (simp add: tx_protected_def rank_Suc)
  have org: "bit (tf_queue f) i \<Longrightarrow> indexAt (tf_origins f) (rank (bit (tf_queue f)) i) = Inr (tf_origins f ! rank (bit (tf_queue f)) i)"
    using ok i rank_less [of "bit (tf_queue f)" i n] by (simp add: columns_ok_def indexAt_def)
  have cu: "cu_tx ?c = i" "cu_legacy (?c\<lparr>cu_to := x\<rparr>) = rank ?lg i" for x by (simp_all add: cursor_at_def)
  show ?thesis
    unfolding deriveTx_def Let_def cu(1) to bindE_simps prod.case at kind lg prot [OF cu(2)] tx_at_def [symmetric]
    by (cases "tx_at E chainID f i"; cases "bit (tf_queue f) i")
      (simp_all add: entry_at_def Let_def org cursor_at_def rank_Suc)
qed

lemma deriveTxs_at:
  assumes "columns_ok n f"
  shows "i + k \<le> n \<Longrightarrow> deriveTxs E index batchIndex chainID origin timestamp f k (cursor_at f i) =
    bindE (mapE (entry_at E index batchIndex chainID origin timestamp f) [i ..< i + k]) (\<lambda>entries. Inr (entries, cursor_at f (i + k)))"
proof (induction k arbitrary: i)
  case 0
  then show ?case by simp
next
  case (Suc k)
  then have "i < n" "Suc i + k \<le> n" by simp_all
  moreover have "[i ..< i + Suc k] = i # [Suc i ..< Suc i + k]" by (simp add: upt_conv_Cons)
  ultimately show ?case
    using Suc.IH [of "Suc i"] by (simp add: deriveTx_at [OF assms] bindE_assoc del: upt_Suc)
qed

text \<open>The blocks by position: block number \<open>i\<close> owns the transactions from \<open>off\<close> on.\<close>

fun blocks_at ::
    "span_env \<Rightarrow> u64 \<Rightarrow> u64 \<Rightarrow> u64 \<Rightarrow> txFields \<Rightarrow> nat \<Rightarrow> nat \<Rightarrow> (u64 \<times> u64 \<times> u64 \<times> bytes) list \<Rightarrow> Block list result" where
  "blocks_at E start batchIndex chainID f i off [] = Inr []"
| "blocks_at E start batchIndex chainID f i off ((origin, time, count, extra) # cols) =
     (let index = start + word_of_nat i - 1 in
      bindE (mapE (entry_at E index batchIndex chainID origin time f) [off ..< off + unat count]) (\<lambda>entries.
      bindE (blocks_at E start batchIndex chainID f (Suc i) (off + unat count) cols) (\<lambda>blocks.
        Inr (\<lparr>blk_Index = index, blk_BatchIndex = batchIndex, blk_Timestamp = (if entries = [] then 0 else time),
          blk_ExtraData = cx_hexEncode E extra, blk_Transactions = entries, blk_Confirmed = True\<rparr> # blocks))))"

definition col_count :: "u64 \<times> u64 \<times> u64 \<times> bytes \<Rightarrow> nat" where
  "col_count = (\<lambda>(origin, time, count, extra). unat count)"

lemma deriveBlocks_at:
  assumes "columns_ok n f"
  shows "off + sum_list (map col_count cols) \<le> n \<Longrightarrow>
    deriveBlocks E start batchIndex chainID f i cols (cursor_at f off) = blocks_at E start batchIndex chainID f i off cols"
proof (induction cols arbitrary: i off)
  case Nil
  then show ?case by simp
next
  case (Cons col cols)
  obtain origin time count extra where col: "col = (origin, time, count, extra)" by (cases col)
  from Cons.prems have "off + unat count \<le> n" "off + unat count + sum_list (map col_count cols) \<le> n"
    by (simp_all add: col col_count_def)
  then show ?case
    using Cons.IH by (simp add: col deriveTxs_at [OF assms] bindE_assoc Let_def)
qed

section \<open>Derived blocks\<close>

text \<open>The numbers and the origin of an entry.\<close>

definition entry_ok :: "span_env \<Rightarrow> u64 \<Rightarrow> u64 \<Rightarrow> BlockTransaction \<Rightarrow> bool" where
  "entry_ok E index batchIndex t \<longleftrightarrow> tx_Index t = index \<and> tx_BatchIndex t = batchIndex \<and> tx_Confirmed t \<and>
     (case tx_QueueIndex t of
        Some _ \<Rightarrow> tx_QueueOrigin t = ''l1'' \<and> tx_Decoded t = None \<and> tx_SeqSign t = None
      | None \<Rightarrow> tx_QueueOrigin t = ''sequencer'' \<and> tx_Decoded t \<noteq> None \<and> tx_SeqSign t \<noteq> None)"

lemma entry_at_ok:
  "entry_at E index batchIndex chainID origin timestamp f i = Inr t \<Longrightarrow>
     entry_ok E index batchIndex t \<and> tx_BlockNumber t = origin \<and> tx_Timestamp t = timestamp \<and>
     (tx_QueueIndex t \<noteq> None \<longleftrightarrow> bit (tf_queue f) i)"
  by (auto simp: entry_at_def Let_def entry_ok_def queueEntry_def sequencerEntry_def newEntry_def bindE_Inr split: sum.splits if_splits)

text \<open>The errors: \<open>ErrInvalid\<close>, or the error of \<open>MarshalBinary\<close>, which the code returns as it is.\<close>

definition span_error :: "span_env \<Rightarrow> error \<Rightarrow> bool" where
  "span_error E e \<longleftrightarrow> errors_is ErrInvalid e \<or> (\<exists>tx. cx_MarshalBinary E tx = Inl e)"

lemma span_error_invalid [simp]: "span_error E (invalid m)"
  by (simp add: span_error_def invalid_def)

lemma entry_at_error:
  assumes "entry_at E index batchIndex chainID origin timestamp f i = Inl e" "columns_ok n f" "i < n"
  shows "span_error E e"
proof -
  from assms(2,3) have "fst (tf_sigs f ! i) < 256 ^ 32" "snd (tf_sigs f ! i) < 256 ^ 32"
    by (auto simp: columns_ok_def list_all_length case_prod_beta)
  with assms(1) show ?thesis
    by (auto simp: entry_at_def Let_def sequencerEntry_def FillBytes_def span_error_def invalid_def bindE_Inl
      split: sum.splits if_splits)
qed

lemma mapE_error: "mapE f xs = Inl e \<Longrightarrow> \<exists>x \<in> set xs. f x = Inl e"
  by (induction xs) (auto simp: res_simps)

lemma blocks_at_error:
  assumes "columns_ok n f"
  shows "blocks_at E start batchIndex chainID f i off cols = Inl e \<Longrightarrow> off + sum_list (map col_count cols) \<le> n \<Longrightarrow>
    span_error E e"
proof (induction cols arbitrary: i off)
  case (Cons col cols)
  obtain origin time count extra where col: "col = (origin, time, count, extra)" by (cases col)
  from Cons.prems(1) consider
    (entry) "mapE (entry_at E (start + word_of_nat i - 1) batchIndex chainID origin time f) [off ..< off + unat count] = Inl e"
    | (rest) "blocks_at E start batchIndex chainID f (Suc i) (off + unat count) cols = Inl e"
    by (auto simp: col Let_def bindE_Inl)
  then show ?case
  proof cases
    case entry
    from mapE_error [OF this] Cons.prems(2) show ?thesis
      by (auto simp: col col_count_def intro!: entry_at_error [OF _ assms])
  next
    case rest
    with Cons.IH Cons.prems(2) show ?thesis by (simp add: col col_count_def add.assoc)
  qed
qed simp

definition block_ok :: "span_env \<Rightarrow> u64 \<Rightarrow> Block \<Rightarrow> bool" where
  "block_ok E batchIndex b \<longleftrightarrow> blk_BatchIndex b = batchIndex \<and> blk_Confirmed b \<and>
     list_all (\<lambda>t. entry_ok E (blk_Index b) batchIndex t \<and> tx_Timestamp t = blk_Timestamp b) (blk_Transactions b) \<and>
     (blk_Transactions b = [] \<longrightarrow> blk_Timestamp b = 0)"

lemma blocks_at_ok:
  "blocks_at E start batchIndex chainID f i off cols = Inr blocks \<Longrightarrow>
     list_all (block_ok E batchIndex) blocks \<and> map blk_Index blocks = map (\<lambda>j. start + word_of_nat j - 1) [i ..< i + length cols] \<and>
     map (length \<circ> blk_Transactions) blocks = map col_count cols"
proof (induction cols arbitrary: i off blocks)
  case (Cons col cols)
  obtain origin time count extra where col: "col = (origin, time, count, extra)" by (cases col)
  let ?index = "start + word_of_nat i - 1"
  from Cons.prems obtain entries bs where
    entries: "mapE (entry_at E ?index batchIndex chainID origin time f) [off ..< off + unat count] = Inr entries"
    and bs: "blocks_at E start batchIndex chainID f (Suc i) (off + unat count) cols = Inr bs"
    and blocks: "blocks = \<lparr>blk_Index = ?index, blk_BatchIndex = batchIndex, blk_Timestamp = (if entries = [] then 0 else time),
          blk_ExtraData = cx_hexEncode E extra, blk_Transactions = entries, blk_Confirmed = True\<rparr> # bs"
    by (auto simp: col Let_def bindE_Inr)
  have "list_all (\<lambda>t. entry_ok E ?index batchIndex t \<and> tx_Timestamp t = time) entries"
    using mapE_set [OF entries] entry_at_ok by (fastforce simp: list_all_iff)
  moreover have "length entries = unat count" using mapE_length [OF entries] by simp
  moreover have "[i ..< i + length (col # cols)] = i # [Suc i ..< Suc i + length cols]"
    by (simp add: upt_conv_Cons del: upt_Suc)
  ultimately show ?case
    using Cons.IH [OF bs] by (simp add: blocks block_ok_def col col_count_def del: upt_Suc)
qed simp

lemma foldE_error: "foldE f xs s = Inl e \<Longrightarrow> \<exists>x \<in> set xs. \<exists>t. f x t = Inl e"
  by (induction xs arbitrary: s) (auto simp: res_simps)

lemma sumCounts_sum:
  assumes "sumCounts counts = Inr t"
  shows "unat t = sum_list (map unat counts)"
proof -
  have "foldE (\<lambda>n total. if maxElements - total < n then Inl (invalid ''span transaction count'') else Inr (total + n)) counts a = Inr t \<Longrightarrow>
      a \<le> maxElements \<Longrightarrow> unat t = unat a + sum_list (map unat counts)" for a
  proof (induction counts arbitrary: a)
    case (Cons n counts)
    from Cons.prems have n: "n \<le> maxElements - a"
      and run: "foldE (\<lambda>n total. if maxElements - total < n then Inl (invalid ''span transaction count'') else Inr (total + n)) counts (a + n) = Inr t"
      by (auto split: if_splits)
    have m: "unat maxElements = 10000000" by (simp add: maxElements_def)
    from Cons.prems(2) n have u: "unat a \<le> 10000000" "unat n \<le> 10000000 - unat a"
      unfolding word_le_nat_alt using unat_sub [OF Cons.prems(2)] by (simp_all add: m)
    then have "unat (a + n) = unat a + unat n" by (subst unat_add_lem [THEN iffD1]) simp_all
    with Cons.IH [OF run] u show ?case by (simp add: word_le_nat_alt m)
  qed simp
  from this [of 0] assms show ?thesis by (simp add: sumCounts_def)
qed

lemma reads_readColumns:
  "reads (readColumns count) (\<lambda>(origins, stamps, counts). length origins = unat count \<and> length stamps = unat count \<and> length counts = unat count)"
  unfolding readColumns_def
  by (rule reads_then [OF reads_readBits], rule reads_bind [OF reads_numbers], rule reads_bind [OF reads_numbers],
      rule reads_bind [OF reads_numbers], rule reads_return) simp

lemma reads_readSpanHeader: "reads readSpanHeader (\<lambda>_. True)"
  unfolding readSpanHeader_def
  by (rule reads_then [OF reads_readU64], rule reads_then [OF reads_readData], rule reads_then [OF reads_readU64], rule reads_return) simp

lemma decodeBody_at:
  assumes raw: "raw_nonempty E" and sum: "sum_list (map col_count cols) = unat t"
    and err: "\<And>e. sr_err r = Some e \<Longrightarrow> \<exists>m. e = invalid m"
  shows "(\<exists>m. decodeBody E start batchIndex chainID cols t r = Inl (invalid m)) \<or>
    sr_err r = None \<and> (\<exists>f. columns_ok (unat t) f \<and> decodeBody E start batchIndex chainID cols t r = blocks_at E start batchIndex chainID f 0 0 cols)"
proof (cases "sr_err r")
  case (Some e)
  with err show ?thesis by (auto simp: decodeBody_def)
next
  case None
  obtain f r' where run: "run_state (readTransactions E t) r = (f, r')" by fastforce
  note law = readsD [OF reads_readTransactions [OF raw] run]
  show ?thesis
  proof (cases "sr_err r'")
    case (Some e)
    from law(2) [OF None Some] obtain m where "e = invalid m" by blast
    with None Some run show ?thesis by (auto simp: decodeBody_def)
  next
    case N: None
    with law(3) have ok: "columns_ok (unat t) f" by simp
    from deriveBlocks_at [OF ok, of 0 cols E start batchIndex chainID 0] sum
    have "deriveBlocks E start batchIndex chainID f 0 cols zero_cursor = blocks_at E start batchIndex chainID f 0 0 cols"
      by (simp add: cursor_at_0)
    with ok None N run show ?thesis by (auto simp: decodeBody_def)
  qed
qed

lemma span_end_bound:
  fixes start count :: u64
  assumes "\<not> max_u64 - start < count - 1" "count \<noteq> 0"
  shows "unat start + unat count \<le> 2 ^ 64"
proof -
  have "unat (count - 1) \<le> unat (max_u64 - start)" using assms(1) by (simp add: word_le_nat_alt not_less)
  moreover have "unat (max_u64 - start) = 2 ^ 64 - 1 - unat start"
    by (subst unat_sub) (simp_all add: unsigned_minus_1_eq_mask mask_eq_exp_minus_1)
  moreover have "unat (count - 1) = unat count - 1" using assms(2) by (simp add: unat_minus_one)
  moreover have "unat start < 2 ^ 64" using unsigned_less [of start, where ?'a = nat] by simp
  ultimately show ?thesis by linarith
qed

lemma decodeSpan_at:
  assumes raw: "raw_nonempty E"
  shows "(\<exists>m. decodeSpan E data batchIndex chainID = Inl (invalid m)) \<or>
    (\<exists>start cols f n. columns_ok n f \<and> sum_list (map col_count cols) \<le> n \<and> cols \<noteq> [] \<and> 0 < unat start \<and>
      unat start + length cols \<le> 2 ^ 64 \<and> decodeSpan E data batchIndex chainID = blocks_at E start batchIndex chainID f 0 0 cols)"
proof -
  obtain start count r1 where h: "run_state readSpanHeader \<lparr>sr_rest = data, sr_err = None\<rparr> = ((start, count), r1)"
    by (metis surj_pair)
  note law1 = readsD [OF reads_readSpanHeader h]
  obtain origins stamps counts r2 where c: "run_state (readColumns count) r1 = ((origins, stamps, counts), r2)"
    by (metis surj_pair)
  note law2 = readsD [OF reads_readColumns c]
  obtain extras r3 where x: "run_state (State_Monad.traverse_list (\<lambda>_. readExtra) [0 ..< unat count]) r2 = (extras, r3)"
    by (metis surj_pair)
  note law3 = readsD [OF reads_traverse [OF reads_readExtra] x]
  let ?cols = "zip origins (zip stamps (zip counts extras))"
  show ?thesis
  proof (cases "sr_err r1 \<noteq> None \<or> start = 0 \<or> count = 0 \<or> maxElements < count \<or> length (sr_rest r1) div 4 < unat count \<or>
      max_u64 - start < count - 1 \<or> (\<exists>m. sumCounts counts = Inl m)")
    case True
    have "\<exists>m. e = invalid m" if "sumCounts counts = Inl e" for e
      using foldE_error [OF that [unfolded sumCounts_def]] by (auto split: if_splits)
    with True law1(2) h c show ?thesis by (auto simp: decodeSpan_def split: option.splits)
  next
    case False
    then obtain t where t: "sumCounts counts = Inr t" by (cases "sumCounts counts") auto
    have eq: "decodeSpan E data batchIndex chainID = decodeBody E start batchIndex chainID ?cols t r3"
      using False h c x t by (auto simp: decodeSpan_def)
    have e1: "sr_err r1 = None" using False by simp
    have err: "\<exists>m. e = invalid m" if "sr_err r3 = Some e" for e
      using that law2(2) [OF e1] law3(1,2) by (cases "sr_err r2") auto
    have start: "0 < unat start" "unat start + unat count \<le> 2 ^ 64"
      using False span_end_bound [of start count] by (auto simp: unat_gt_0)
    show ?thesis
    proof (cases "sr_err r3")
      case (Some e)
      with err show ?thesis by (auto simp: eq decodeBody_def)
    next
      case None
      then have e2: "sr_err r2 = None" using law3(1) by (cases "sr_err r2") auto
      from law2(3) [OF e2] law3(3) [OF None] have len: "length origins = unat count" "length stamps = unat count"
        "length counts = unat count" "length extras = unat count" by auto
      then have "map col_count ?cols = map unat counts"
        by (auto simp: col_count_def list_eq_iff_nth_eq)
      then have sum: "sum_list (map col_count ?cols) = unat t" using sumCounts_sum [OF t] by simp
      have "0 < unat count" using False by (simp add: unat_gt_0)
      then have "length ?cols = unat count" "?cols \<noteq> []" using len by auto
      with decodeBody_at [OF raw sum err, of r3] start sum eq show ?thesis by (metis order_refl)
    qed
  qed
qed

text \<open>A run of consecutive indexes, without wrap-around.\<close>

definition consecutive :: "Block list \<Rightarrow> bool" where
  "consecutive blocks \<longleftrightarrow> (let a = unat (blk_Index (hd blocks)) in map (unat \<circ> blk_Index) blocks = [a ..< a + length blocks])"

lemma index_no_wrap:
  fixes start :: u64
  assumes "0 < unat start" "unat start + n \<le> 2 ^ 64" "j < n"
  shows "unat (start + word_of_nat j - 1) = unat start - 1 + j"
proof -
  have "unat (word_of_nat j :: u64) = j" using assms by (simp add: unat_of_nat take_bit_eq_mod)
  then have s: "unat (start + word_of_nat j) = unat start + j"
    using assms by (subst unat_add_lem [THEN iffD1]) simp_all
  then have "start + word_of_nat j \<noteq> 0" using assms(1) by (metis add_gr_0 less_numeral_extra(3) unsigned_0)
  then have "unat (start + word_of_nat j - 1) = unat (start + word_of_nat j) - 1" by (rule unat_minus_one)
  with s assms(1) show ?thesis by simp
qed

lemma blocks_at_consecutive:
  assumes "blocks_at E start batchIndex chainID f 0 0 cols = Inr blocks" "0 < unat start" "unat start + length cols \<le> 2 ^ 64" "cols \<noteq> []"
  shows "blocks \<noteq> [] \<and> consecutive blocks"
proof -
  from blocks_at_ok [OF assms(1)] have idx: "map blk_Index blocks = map (\<lambda>j. start + word_of_nat j - 1) [0 ..< length cols]"
    by simp
  then have len: "length blocks = length cols" by (metis length_map length_upt minus_nat.diff_0)
  have "map (unat \<circ> blk_Index) blocks = map (\<lambda>j. unat start - 1 + j) [0 ..< length cols]"
    unfolding map_map [symmetric] idx using index_no_wrap [OF assms(2,3)] by simp
  also have "\<dots> = [unat start - 1 ..< unat start - 1 + length cols]"
    by (metis map_add_upt add.commute map_cong)
  finally have all: "map (unat \<circ> blk_Index) blocks = [unat start - 1 ..< unat start - 1 + length cols]" .
  moreover from all assms(4) len have "unat (blk_Index (hd blocks)) = unat start - 1"
    by (cases blocks) (simp_all add: upt_conv_Cons)
  ultimately show ?thesis using len assms(4) by (auto simp: consecutive_def Let_def)
qed

lemma decodeSpan_sound:
  assumes "raw_nonempty E"
  shows "case decodeSpan E data batchIndex chainID of
      Inl e \<Rightarrow> span_error E e
    | Inr blocks \<Rightarrow> blocks \<noteq> [] \<and> consecutive blocks \<and> list_all (block_ok E batchIndex) blocks"
  using decodeSpan_at [OF assms, of data batchIndex chainID]
proof (elim disjE exE conjE)
  fix start cols f n
  assume ok: "columns_ok n f" "sum_list (map col_count cols) \<le> n" "cols \<noteq> []" "0 < unat start" "unat start + length cols \<le> 2 ^ 64"
    and eq: "decodeSpan E data batchIndex chainID = blocks_at E start batchIndex chainID f 0 0 cols"
  show ?thesis
    unfolding eq
    using blocks_at_error [OF ok(1)] ok(2) blocks_at_ok blocks_at_consecutive [OF _ ok(4,5,3)]
    by (fastforce split: sum.splits)
qed simp

section \<open>The properties of the span decoder\<close>

text \<open>C26.
  Whatever bytes a span holds, \<open>decodeSpan\<close> never reads outside a column: it fails with
  \<open>ErrInvalid\<close> (or hands on an error of \<open>MarshalBinary\<close>), or it returns at least one
  block; the blocks are numbered consecutively without wrap-around, carry the batch index, and
  each of their transactions is either a queue transaction with its queue index or a sequencer
  transaction with its decoded form and signature.\<close>

theorem decodeSpan_well_formed:
  assumes "raw_nonempty E"
  shows "case decodeSpan E data batchIndex chainID of
      Inl e \<Rightarrow> span_error E e
    | Inr blocks \<Rightarrow> blocks \<noteq> [] \<and> consecutive blocks \<and> list_all (block_ok E batchIndex) blocks"
  using assms by (rule decodeSpan_sound)

end
