(* ===== verification/SpanWire.thy ===== *)
theory SpanWire
  imports SpanRead
begin

unbundle bit_operations_syntax

text \<open>
  The wire format of spans: an encoder for every column, and the proof that the reader gives
  back just what was encoded, so that the blocks derived from an encoded span are those its
  columns describe position by position.
\<close>

section \<open>Reading what was encoded\<close>

definition emits :: "'a reading \<Rightarrow> 'a \<Rightarrow> bytes \<Rightarrow> bool" where
  "emits m v bs \<longleftrightarrow> (\<forall>rest. run_state m \<lparr>sr_rest = bs @ rest, sr_err = None\<rparr> = (v, \<lparr>sr_rest = rest, sr_err = None\<rparr>))"

lemma emits_return: "emits (State_Monad.return v) v []"
  by (simp add: emits_def)

lemma emits_bind: "emits m v a \<Longrightarrow> emits (f v) w b \<Longrightarrow> emits (m \<bind> f) w (a @ b)"
  by (simp add: emits_def)

lemma emits_last: "emits m v a \<Longrightarrow> emits (f v) w [] \<Longrightarrow> emits (m \<bind> f) w a"
  using emits_bind [of m v a f w "[]"] by simp

lemma emits_traverse:
  assumes "\<And>v. v \<in> set vs \<Longrightarrow> emits m v (enc v)" "length xs = length vs"
  shows "emits (State_Monad.traverse_list (\<lambda>_. m) xs) vs (concat (map enc vs))"
  using assms(2,1)
proof (induction xs vs rule: list_induct2)
  case Nil
  show ?case by (simp add: emits_return)
next
  case (Cons x xs v vs)
  then have "emits m v (enc v)" and IH: "emits (State_Monad.traverse_list (\<lambda>_. m) xs) vs (concat (map enc vs))" by simp_all
  then show ?case
    by (auto intro!: emits_bind emits_last [OF IH] emits_return)
qed

section \<open>The encoders\<close>

fun uvarint :: "nat \<Rightarrow> bytes" where
  "uvarint n = (if n < 128 then [word_of_nat n] else word_of_nat (n mod 128 + 128) # uvarint (n div 128))"

declare uvarint.simps [simp del]

lemma uvarint_split:
  "word_of_nat (n mod 128) OR push_bit 7 (word_of_nat (n div 128)) = (word_of_nat n :: u64)"
proof -
  have "take_bit 7 n OR push_bit 7 (drop_bit 7 n) = n"
  proof (rule bit_eqI)
    fix i show "bit (take_bit 7 n OR push_bit 7 (drop_bit 7 n)) i = bit n i"
      by (cases "i < 7") (simp_all add: bit_or_iff bit_take_bit_iff bit_push_bit_iff bit_drop_bit_eq)
  qed
  then have "word_of_nat (take_bit 7 n OR push_bit 7 (drop_bit 7 n)) = (word_of_nat n :: u64)" by simp
  then show ?thesis by (simp add: of_nat_or_eq push_bit_of_nat take_bit_eq_mod drop_bit_eq_div)
qed

lemma ucast_via_unat: "ucast (b :: byte) = (word_of_nat (unat b) :: u64)"
  by simp

lemma unat_byte_and: "unat (b AND 0x7f :: byte) = unat b mod 128"
proof -
  have "b AND 0x7f = take_bit 7 b" by (simp add: take_bit_eq_mask mask_eq_exp_minus_1)
  then show ?thesis by (simp add: take_bit_eq_mod unat_mod)
qed

lemma ReadUvarint_uvarint:
  "n < 2 ^ (64 - s) \<Longrightarrow> s + 7 * k = 70 \<Longrightarrow> s < 64 \<Longrightarrow>
     ReadUvarint k x s (uvarint n @ rest) = (x OR push_bit s (word_of_nat n), True, rest)"
proof (induction n arbitrary: k x s rule: uvarint.induct)
  case (1 n)
  from "1.prems" obtain j where k: "k = Suc j" by (cases k) auto
  show ?case
  proof (cases "n < 128")
    case True
    then have b: "(word_of_nat n :: byte) < 0x80" "unat (word_of_nat n :: byte) = n"
      by (simp_all add: word_less_nat_alt unat_of_nat take_bit_eq_mod)
    then have u: "(ucast (word_of_nat n :: byte) :: u64) = word_of_nat n" by (simp add: ucast_via_unat)
    have "\<not> (j = 0 \<and> 1 < (word_of_nat n :: byte))"
      using "1.prems" k b(2) by (auto simp: word_less_nat_alt)
    with True b u show ?thesis by (simp add: uvarint.simps [of n] k)
  next
    case False
    let ?b = "word_of_nat (n mod 128 + 128) :: byte"
    have ub: "unat ?b = n mod 128 + 128" by (simp add: unat_of_nat take_bit_eq_mod del: of_nat_add)
    then have ge: "\<not> ?b < 0x80" by (simp add: word_less_nat_alt)
    have "unat (?b AND 0x7f) = n mod 128" unfolding unat_byte_and ub by simp
    then have u: "(ucast (?b AND 0x7f) :: u64) = word_of_nat (n mod 128)" by (simp add: ucast_via_unat)
    have "128 \<le> n" using False by simp
    also note "1.prems"(1)
    finally have "(2 :: nat) ^ 7 < 2 ^ (64 - s)" by simp
    then have "7 < 64 - s" by (rule power_less_imp_less_exp [rotated]) simp
    then have s: "s + 7 < 64" by simp
    then have "n div 128 < 2 ^ (64 - (s + 7))"
    proof -
      have "(2 :: nat) ^ (64 - s) = 2 ^ (64 - (s + 7)) * 128"
        using s power_add [of "2 :: nat" "64 - (s + 7)" 7] by simp
      with "1.prems"(1) show ?thesis by (simp add: div_less_iff_less_mult)
    qed
    with "1.IH" [OF False, of "s + 7" j "x OR push_bit s (word_of_nat (n mod 128))"] "1.prems" s k
    have "ReadUvarint j (x OR push_bit s (word_of_nat (n mod 128))) (s + 7) (uvarint (n div 128) @ rest) =
        ((x OR push_bit s (word_of_nat (n mod 128))) OR push_bit (s + 7) (word_of_nat (n div 128)), True, rest)" by simp
    also have "(x OR push_bit s (word_of_nat (n mod 128))) OR push_bit (s + 7) (word_of_nat (n div 128)) = x OR push_bit s (word_of_nat n)"
      unfolding uvarint_split [of n, symmetric] by (simp add: or.assoc push_bit_or push_bit_push_bit)
    finally show ?thesis using False ge u by (simp add: uvarint.simps [of n] k)
  qed
qed

definition encodeU64 :: "u64 \<Rightarrow> bytes" where
  "encodeU64 v = uvarint (unat v)"

definition encodeBits :: "nat \<Rightarrow> nat \<Rightarrow> bytes" where
  "encodeBits n v = be_bytes ((n + 7) div 8) v"

definition encodeSig :: "nat \<times> nat \<Rightarrow> bytes" where
  "encodeSig = (\<lambda>(r, s). be_bytes 32 r @ be_bytes 32 s)"

definition encodeAddress :: "address \<Rightarrow> bytes" where
  "encodeAddress a = be_bytes 20 (unat a)"

definition encodeExtra :: "bytes \<Rightarrow> bytes" where
  "encodeExtra x = uvarint (length x) @ x"

text \<open>The length of the encoding of a column.\<close>

definition legacies :: "txFields \<Rightarrow> nat" where
  "legacies f = length (filter legacyPayload (tf_payloads f))"

definition encodeTxs :: "nat \<Rightarrow> txFields \<Rightarrow> bytes" where
  "encodeTxs n f = encodeBits n (tf_creation f) @ encodeBits n (tf_parity f) @ concat (map encodeSig (tf_sigs f)) @
     concat (map encodeAddress (tf_tos f)) @ concat (tf_payloads f) @ concat (map encodeU64 (tf_nonces f)) @
     concat (map encodeU64 (tf_gases f)) @ encodeBits (legacies f) (tf_protected f) @ encodeBits n (tf_queue f) @
     encodeBits n (tf_seqParity f) @ concat (map encodeSig (tf_seqSigs f)) @ concat (map encodeAddress (tf_origins f))"

text \<open>The first 40 bytes behind the start and the origin bits are read and ignored.\<close>

record spanData =
  sd_start :: u64
  sd_head :: bytes
  sd_originBits :: nat
  sd_cols :: "(u64 \<times> u64 \<times> u64 \<times> bytes) list"
  sd_txs :: txFields

definition encodeSpan :: "spanData \<Rightarrow> bytes" where
  "encodeSpan s = (let cols = sd_cols s; n = sum_list (map col_count cols) in
     encodeU64 (sd_start s) @ sd_head s @ uvarint (length cols) @ encodeBits (length cols) (sd_originBits s) @
     concat (map encodeU64 (map fst cols)) @ concat (map encodeU64 (map (fst \<circ> snd) cols)) @
     concat (map encodeU64 (map (fst \<circ> snd \<circ> snd) cols)) @ concat (map encodeExtra (map (snd \<circ> snd \<circ> snd) cols)) @
     encodeTxs n (sd_txs s))"

section \<open>Every reader reads its encoding\<close>

lemma emits_readData: "length bs = unat n \<Longrightarrow> emits (readData n) bs bs"
  by (simp add: emits_def readData_def)

lemma emits_uvarint: "n < 2 ^ 64 \<Longrightarrow> emits readU64 (word_of_nat n) (uvarint n)"
  using ReadUvarint_uvarint [of n 0 10 0] by (simp add: emits_def readU64_def)

lemma emits_readU64: "emits readU64 v (encodeU64 v)"
  using emits_uvarint [of "unat v"] unsigned_less [of v, where ?'a = nat] by (simp add: encodeU64_def)

lemma emits_numbers: "length vs = unat n \<Longrightarrow> emits (numbers n) vs (concat (map encodeU64 vs))"
  unfolding numbers_def by (rule emits_traverse) (simp_all add: emits_readU64)

lemma BitLen_le: "BitLen v \<le> n \<longleftrightarrow> v < 2 ^ n"
proof (induction v arbitrary: n rule: BitLen.induct)
  case (1 v)
  show ?case
  proof (cases "v = 0")
    case False
    with 1 [of "n - 1"] show ?thesis
      by (cases n) (auto simp: BitLen.simps [of v])
  qed (simp add: BitLen.simps)
qed

lemma emits_readBits:
  assumes "v < 2 ^ unat n" "unat n \<le> 10000000"
  shows "emits (readBits n) v (encodeBits (unat n) v)"
proof -
  have u: "unat ((n + 7) div 8) = (unat n + 7) div 8"
  proof -
    have "unat (n + 7) = unat n + 7" using assms(2) by (subst unat_add_lem [THEN iffD1]) simp_all
    then show ?thesis by (simp add: unat_div)
  qed
  have "(2 :: nat) ^ unat n \<le> 2 ^ (8 * ((unat n + 7) div 8))" by (rule power_increasing) simp_all
  with assms(1) have "v < 256 ^ ((unat n + 7) div 8)" by (simp add: power_mult)
  then have v: "be_nat (encodeBits (unat n) v) = v" by (simp add: encodeBits_def be_nat_be_bytes)
  have "\<not> unat n < BitLen v" using assms(1) BitLen_le [of v "unat n"] by simp
  then show ?thesis
    unfolding readBits_def
    by (intro emits_last [OF emits_readData]) (simp_all add: encodeBits_def u v [unfolded encodeBits_def] emits_return)
qed

lemma emits_readSig: "fst v < 256 ^ 32 \<Longrightarrow> snd v < 256 ^ 32 \<Longrightarrow> emits readSig v (encodeSig v)"
  unfolding readSig_def encodeSig_def case_prod_beta
  by (rule emits_bind [OF emits_readData], simp, rule emits_last [OF emits_readData], simp)
    (simp add: be_nat_be_bytes emits_return)

lemma emits_readAddress: "emits readAddress v (encodeAddress v)"
  unfolding readAddress_def encodeAddress_def
  by (rule emits_last [OF emits_readData]) (simp_all add: word_be_bytes emits_return)

lemma emits_readExtra: "length x < 2 ^ 64 \<Longrightarrow> emits readExtra x (encodeExtra x)"
  unfolding readExtra_def encodeExtra_def
  by (rule emits_bind [OF emits_uvarint], simp, rule emits_readData) (simp add: unat_of_nat take_bit_eq_mod)

text \<open>A payload whose RLP part \<open>rlp.Stream.Raw\<close> reads back.\<close>

definition payload_ok :: "span_env \<Rightarrow> bytes \<Rightarrow> bool" where
  "payload_ok E p \<longleftrightarrow> p \<noteq> [] \<and> (if hd p \<le> 0x7f then (hd p = 1 \<or> hd p = 2) \<and> (\<forall>rest. cx_Raw E (tl p @ rest) = Some (tl p, rest))
     else (\<forall>rest. cx_Raw E (p @ rest) = Some (p, rest)))"

lemma emits_rawTx: "payload_ok E p \<Longrightarrow> emits (rawTx E) p p"
  by (cases p) (auto simp: emits_def rawTx_def payload_ok_def split: if_splits)

text \<open>Columns that fit the format: every number within its width, every payload readable.\<close>

definition txs_ok :: "span_env \<Rightarrow> nat \<Rightarrow> txFields \<Rightarrow> bool" where
  "txs_ok E n f \<longleftrightarrow> columns_ok n f \<and> n \<le> 10000000 \<and> tf_creation f < 2 ^ n \<and> tf_parity f < 2 ^ n \<and>
     tf_protected f < 2 ^ legacies f \<and> tf_queue f < 2 ^ n \<and> tf_seqParity f < 2 ^ n \<and>
     list_all (\<lambda>v. fst v < 256 ^ 32 \<and> snd v < 256 ^ 32) (tf_seqSigs f) \<and> list_all (payload_ok E) (tf_payloads f)"

lemma emits_readTransactions:
  assumes ok: "txs_ok E (unat n) f"
  shows "emits (readTransactions E n) f (encodeTxs (unat n) f)"
proof -
  note d = ok [unfolded txs_ok_def columns_ok_def rank_def]
  have l: "unat (word_of_nat (legacies f) :: u64) = legacies f" "legacies f \<le> 10000000"
    using d length_filter_le [of legacyPayload "tf_payloads f"]
    by (auto simp: legacies_def unat_of_nat take_bit_eq_mod)
  have sigs: "emits (State_Monad.traverse_list (\<lambda>_. readSig) [0 ..< unat n]) (tf_sigs f) (concat (map encodeSig (tf_sigs f)))"
    "emits (State_Monad.traverse_list (\<lambda>_. readSig) [0 ..< unat n]) (tf_seqSigs f) (concat (map encodeSig (tf_seqSigs f)))"
    using d by (auto intro!: emits_traverse emits_readSig simp: list_all_iff)
  have addrs: "emits (State_Monad.traverse_list (\<lambda>_. readAddress) (filter (\<lambda>i. \<not> bit (tf_creation f) i) [0 ..< unat n])) (tf_tos f)
      (concat (map encodeAddress (tf_tos f)))"
    "emits (State_Monad.traverse_list (\<lambda>_. readAddress) (filter (\<lambda>i. bit (tf_queue f) i) [0 ..< unat n])) (tf_origins f)
      (concat (map encodeAddress (tf_origins f)))"
    using d by (auto intro!: emits_traverse emits_readAddress)
  have payloads: "emits (State_Monad.traverse_list (\<lambda>_. rawTx E) [0 ..< unat n]) (tf_payloads f) (concat (tf_payloads f))"
    using d emits_traverse [of "tf_payloads f" "rawTx E" "\<lambda>p. p" "[0 ..< unat n]"] emits_rawTx by (simp add: list_all_iff)
  have bits: "emits (readBits n) (tf_creation f) (encodeBits (unat n) (tf_creation f))"
    "emits (readBits n) (tf_parity f) (encodeBits (unat n) (tf_parity f))"
    "emits (readBits n) (tf_queue f) (encodeBits (unat n) (tf_queue f))"
    "emits (readBits n) (tf_seqParity f) (encodeBits (unat n) (tf_seqParity f))"
    "emits (readBits (word_of_nat (legacies f))) (tf_protected f) (encodeBits (legacies f) (tf_protected f))"
    using d l emits_readBits [of _ n] emits_readBits [of "tf_protected f" "word_of_nat (legacies f)"] by simp_all
  have nums: "emits (numbers n) (tf_nonces f) (concat (map encodeU64 (tf_nonces f)))"
    "emits (numbers n) (tf_gases f) (concat (map encodeU64 (tf_gases f)))"
    using d by (auto intro!: emits_numbers)
  show ?thesis
    unfolding readTransactions_def encodeTxs_def
    apply (rule emits_bind [OF bits(1)], rule emits_bind [OF bits(2)], rule emits_bind [OF sigs(1)], rule emits_bind [OF addrs(1)],
        rule emits_bind [OF payloads], rule emits_bind [OF nums(1)], rule emits_bind [OF nums(2)])
    apply (fold legacies_def)
    apply (rule emits_bind [OF bits(5)], rule emits_bind [OF bits(3)],
        rule emits_bind [OF bits(4)], rule emits_bind [OF sigs(2)], rule emits_last [OF addrs(2)])
    apply (cases f, simp add: emits_return)
    done
qed

definition span_ok :: "span_env \<Rightarrow> spanData \<Rightarrow> bool" where
  "span_ok E s \<longleftrightarrow> (let cols = sd_cols s in
     0 < unat (sd_start s) \<and> length (sd_head s) = 40 \<and> cols \<noteq> [] \<and> length cols \<le> 10000000 \<and>
     unat (sd_start s) + length cols \<le> 2 ^ 64 \<and> sd_originBits s < 2 ^ length cols \<and>
     list_all (\<lambda>x. length x < 2 ^ 64) (map (snd \<circ> snd \<circ> snd) cols) \<and> txs_ok E (sum_list (map col_count cols)) (sd_txs s))"

lemma sumCounts_total:
  assumes "sum_list (map unat counts) \<le> 10000000"
  shows "\<exists>t. sumCounts counts = Inr t \<and> unat t = sum_list (map unat counts)"
proof -
  have "unat a + sum_list (map unat counts) \<le> 10000000 \<Longrightarrow>
    \<exists>t. foldE (\<lambda>n total. if maxElements - total < n then Inl (invalid ''span transaction count'') else Inr (total + n)) counts a = Inr t" for a
    using assms
  proof (induction counts arbitrary: a)
    case (Cons n counts)
    have m: "unat maxElements = 10000000" by (simp add: maxElements_def)
    from Cons.prems(1) have "a \<le> maxElements" by (simp add: word_le_nat_alt m)
    then have "unat (maxElements - a) = 10000000 - unat a" using unat_sub [of a maxElements] m by simp
    with Cons.prems(1) have "\<not> maxElements - a < n" by (simp add: word_less_nat_alt)
    moreover have "unat (a + n) = unat a + unat n" using Cons.prems(1) by (subst unat_add_lem [THEN iffD1]) simp_all
    ultimately show ?case using Cons.IH [of "a + n"] Cons.prems by simp
  qed simp
  from this [of 0] assms sumCounts_sum show ?thesis by (fastforce simp: sumCounts_def)
qed

lemma uvarint_pos: "1 \<le> length (uvarint n)"
  by (simp add: uvarint.simps [of n])

lemma length_concat_ge: "(\<And>x. x \<in> set xs \<Longrightarrow> c \<le> length (f x)) \<Longrightarrow> c * length xs \<le> length (concat (map f xs))"
proof (induction xs)
  case (Cons x xs)
  then have "c \<le> length (f x)" "c * length xs \<le> length (concat (map f xs))" by simp_all
  then show ?case by simp
qed simp

lemma length_encodeTxs: "columns_ok n f \<Longrightarrow> 128 * n \<le> length (encodeTxs n f)"
proof -
  assume ok: "columns_ok n f"
  have "64 * length sigs \<le> length (concat (map encodeSig sigs))" for sigs
    by (rule length_concat_ge) (simp add: encodeSig_def case_prod_beta)
  from this [of "tf_sigs f"] this [of "tf_seqSigs f"] ok show ?thesis
    by (simp add: encodeTxs_def columns_ok_def)
qed

lemma zip_cols: "zip (map fst cols) (zip (map (fst \<circ> snd) cols) (zip (map (fst \<circ> snd \<circ> snd) cols) (map (snd \<circ> snd \<circ> snd) cols))) = cols"
  by (induction cols) auto

lemma decodeBody_encoded:
  assumes ok: "txs_ok E (unat t) f" and sum: "sum_list (map col_count cols) = unat t"
  shows "decodeBody E start batchIndex chainID cols t \<lparr>sr_rest = encodeTxs (unat t) f, sr_err = None\<rparr> =
    blocks_at E start batchIndex chainID f 0 0 cols"
proof -
  have c: "columns_ok (unat t) f" using ok by (simp add: txs_ok_def)
  have run: "run_state (readTransactions E t) \<lparr>sr_rest = encodeTxs (unat t) f, sr_err = None\<rparr> = (f, \<lparr>sr_rest = [], sr_err = None\<rparr>)"
    using emits_readTransactions [OF ok] unfolding emits_def by (metis append_Nil2)
  have "\<not> length (encodeTxs (unat t) f) div 128 < unat t"
    using length_encodeTxs [OF c] by (simp add: div_less_iff_less_mult mult.commute not_less)
  then have "decodeBody E start batchIndex chainID cols t \<lparr>sr_rest = encodeTxs (unat t) f, sr_err = None\<rparr> =
      deriveBlocks E start batchIndex chainID f 0 cols zero_cursor"
    using run by (simp add: decodeBody_def)
  with deriveBlocks_at [OF c, of 0 cols E start batchIndex chainID 0] sum show ?thesis by (simp add: cursor_at_0)
qed

text \<open>The parts of an encoded span: its header, its number columns and its extra data.\<close>

definition encodeNumbers :: "spanData \<Rightarrow> bytes" where
  "encodeNumbers s = (let cols = sd_cols s in encodeBits (length cols) (sd_originBits s) @ concat (map encodeU64 (map fst cols)) @
    concat (map encodeU64 (map (fst \<circ> snd) cols)) @ concat (map encodeU64 (map (fst \<circ> snd \<circ> snd) cols)))"

definition encodeExtras :: "spanData \<Rightarrow> bytes" where
  "encodeExtras s = concat (map encodeExtra (map (snd \<circ> snd \<circ> snd) (sd_cols s)))"

lemma encodeSpan_parts:
  "encodeSpan s = (encodeU64 (sd_start s) @ sd_head s @ uvarint (length (sd_cols s))) @ encodeNumbers s @ encodeExtras s @
     encodeTxs (sum_list (map col_count (sd_cols s))) (sd_txs s)"
  by (simp add: encodeSpan_def Let_def encodeNumbers_def encodeExtras_def)

lemma emits_header:
  assumes "length (sd_head s) = 40" "length (sd_cols s) < 2 ^ 64"
  shows "emits readSpanHeader (sd_start s, word_of_nat (length (sd_cols s)))
    (encodeU64 (sd_start s) @ sd_head s @ uvarint (length (sd_cols s)))"
  unfolding readSpanHeader_def
  by (rule emits_bind [OF emits_readU64], rule emits_bind [OF emits_readData], use assms in simp,
      rule emits_last [OF emits_uvarint], use assms in simp) (simp add: emits_return)

lemma emits_columns:
  assumes u: "unat count = length (sd_cols s)" and b: "sd_originBits s < 2 ^ length (sd_cols s)" "length (sd_cols s) \<le> 10000000"
  shows "emits (readColumns count) (map fst (sd_cols s), map (fst \<circ> snd) (sd_cols s), map (fst \<circ> snd \<circ> snd) (sd_cols s)) (encodeNumbers s)"
  unfolding readColumns_def encodeNumbers_def Let_def u [symmetric]
  by (rule emits_bind [OF emits_readBits], use b u in simp, use b u in simp, rule emits_bind [OF emits_numbers], simp add: u,
      rule emits_bind [OF emits_numbers], simp add: u, rule emits_last [OF emits_numbers], simp add: u) (simp add: emits_return)

lemma length_encodeNumbers: "4 * length (sd_cols s) \<le> length (encodeNumbers s @ encodeExtras s)"
proof -
  have "1 * length vs \<le> length (concat (map encodeU64 vs))" for vs
    by (rule length_concat_ge) (use uvarint_pos in \<open>simp add: encodeU64_def\<close>)
  from this [of "map fst (sd_cols s)"] this [of "map (fst \<circ> snd) (sd_cols s)"] this [of "map (fst \<circ> snd \<circ> snd) (sd_cols s)"]
  have "3 * length (sd_cols s) \<le> length (encodeNumbers s)" by (simp add: encodeNumbers_def Let_def)
  moreover have "1 * length (map (snd \<circ> snd \<circ> snd) (sd_cols s)) \<le> length (encodeExtras s)"
    unfolding encodeExtras_def by (rule length_concat_ge) (use uvarint_pos in \<open>simp add: encodeExtra_def trans_le_add1\<close>)
  ultimately show ?thesis by simp
qed

lemma span_guards:
  assumes ok: "span_ok E s" and u: "unat count = length (sd_cols s)"
  shows "\<not> (sd_start s = 0 \<or> count = 0 \<or> maxElements < count \<or> length (encodeNumbers s @ encodeExtras s @ txs) div 4 < unat count \<or>
    max_u64 - sd_start s < count - 1)"
proof -
  from ok have wf: "0 < unat (sd_start s)" "0 < length (sd_cols s)" "length (sd_cols s) \<le> 10000000"
      "unat (sd_start s) + length (sd_cols s) \<le> 2 ^ 64" by (simp_all add: span_ok_def Let_def)
  have start: "sd_start s \<noteq> 0" "count \<noteq> 0" using wf u by (auto simp: unat_gt_0)
  have len: "\<not> length (encodeNumbers s @ encodeExtras s @ txs) div 4 < unat count"
    using length_encodeNumbers [of s] u by (simp add: div_less_iff_less_mult not_less mult.commute)
  have max: "\<not> maxElements < count" using wf u by (simp add: word_less_nat_alt maxElements_def)
  have "unat (max_u64 - sd_start s) = 2 ^ 64 - 1 - unat (sd_start s)"
    by (subst unat_sub) (simp_all add: unsigned_minus_1_eq_mask mask_eq_exp_minus_1)
  moreover have "unat (count - 1) = length (sd_cols s) - 1" using start u by (simp add: unat_minus_one)
  moreover have "length (sd_cols s) - 1 \<le> 2 ^ 64 - 1 - unat (sd_start s)" using wf by linarith
  ultimately have "\<not> max_u64 - sd_start s < count - 1" unfolding word_less_nat_alt by linarith
  with start len max show ?thesis by blast
qed

lemma decodeSpan_encoded:
  assumes ok: "span_ok E s"
  shows "decodeSpan E (encodeSpan s) batchIndex chainID = blocks_at E (sd_start s) batchIndex chainID (sd_txs s) 0 0 (sd_cols s)"
proof -
  define cols where "cols = sd_cols s"
  define n where "n = sum_list (map col_count cols)"
  define txs where "txs = encodeTxs n (sd_txs s)"
  define count :: u64 where "count = word_of_nat (length cols)"
  let ?rest = "\<lambda>bs. \<lparr>sr_rest = bs, sr_err = None\<rparr>"
  note wf = ok [unfolded span_ok_def Let_def cols_def [symmetric] n_def [symmetric]]
  from wf have u: "unat count = length cols" by (simp add: count_def unat_of_nat take_bit_eq_mod)
  have r1: "run_state readSpanHeader (?rest (encodeSpan s)) = ((sd_start s, count), ?rest (encodeNumbers s @ encodeExtras s @ txs))"
    using emits_header [of s] wf unfolding encodeSpan_parts emits_def cols_def count_def txs_def n_def by auto
  have r2: "run_state (readColumns count) (?rest (encodeNumbers s @ encodeExtras s @ txs)) =
      ((map fst cols, map (fst \<circ> snd) cols, map (fst \<circ> snd \<circ> snd) cols), ?rest (encodeExtras s @ txs))"
    using emits_columns [of count s] wf u unfolding emits_def cols_def by simp
  have "emits (State_Monad.traverse_list (\<lambda>_. readExtra) [0 ..< unat count]) (map (snd \<circ> snd \<circ> snd) cols) (encodeExtras s)"
    unfolding encodeExtras_def cols_def [symmetric] using wf u by (intro emits_traverse emits_readExtra) (auto simp: list_all_iff)
  then have r3: "run_state (State_Monad.traverse_list (\<lambda>_. readExtra) [0 ..< unat count]) (?rest (encodeExtras s @ txs)) =
      (map (snd \<circ> snd \<circ> snd) cols, ?rest txs)" unfolding emits_def by blast
  have counts: "map unat (map (fst \<circ> snd \<circ> snd) cols) = map col_count cols" by (simp add: col_count_def case_prod_beta)
  have "n \<le> 10000000" using wf by (simp add: txs_ok_def)
  then obtain t where t: "sumCounts (map (fst \<circ> snd \<circ> snd) cols) = Inr t" "unat t = n"
    using sumCounts_total [of "map (fst \<circ> snd \<circ> snd) cols"] unfolding counts n_def by blast
  have "decodeSpan E (encodeSpan s) batchIndex chainID = decodeBody E (sd_start s) batchIndex chainID cols t (?rest txs)"
    using r1 r2 r3 t(1) span_guards [OF ok u [unfolded cols_def], of txs] by (auto simp: decodeSpan_def zip_cols)
  with decodeBody_encoded [of E t "sd_txs s" cols] wf t show ?thesis by (simp add: txs_def n_def cols_def)
qed

text \<open>C27.
  Decoding the encoding of a span gives the blocks its columns describe: \<open>decodeSpan\<close>
  accepts every well-formed span, and block by block and transaction by transaction its running
  indices read each column at the position the encoding gives it.\<close>

theorem decodeSpan_encodeSpan:
  assumes "span_ok E s"
  shows "decodeSpan E (encodeSpan s) batchIndex chainID = blocks_at E (sd_start s) batchIndex chainID (sd_txs s) 0 0 (sd_cols s)"
  using assms by (rule decodeSpan_encoded)

section \<open>Channels\<close>

lemma decodeSpans_total:
  assumes raw: "raw_nonempty E" and bytes: "bytes_consume E"
  shows "length bs < fuel \<Longrightarrow> case decodeSpans E batchIndex chainID fuel bs of
      Inl e \<Rightarrow> span_error E e
    | Inr blocks \<Rightarrow> \<exists>runs. blocks = concat runs \<and>
        list_all (\<lambda>run. run \<noteq> [] \<and> consecutive run \<and> list_all (block_ok E batchIndex) run) runs"
proof (induction fuel arbitrary: bs)
  case (Suc fuel)
  show ?case
  proof (cases "cx_Bytes E bs")
    case RlpEOF
    then show ?thesis by (auto intro: exI [of _ "[]"])
  next
    case RlpError
    then show ?thesis by simp
  next
    case (RlpString one rest)
    with bytes Suc.prems have "length rest < fuel" by (fastforce simp: bytes_consume_def)
    note IH = Suc.IH [OF this]
    have one: "case decodeSpan E (tl one) batchIndex chainID of Inl e \<Rightarrow> span_error E e
      | Inr blocks \<Rightarrow> blocks \<noteq> [] \<and> consecutive blocks \<and> list_all (block_ok E batchIndex) blocks"
      by (rule decodeSpan_sound [OF raw])
    show ?thesis
    proof (cases "decodeSpans E batchIndex chainID fuel rest")
      case (Inl e)
      with RlpString IH one show ?thesis by (auto simp: bindE_def split: sum.splits)
    next
      case (Inr blocks)
      with IH obtain runs where "blocks = concat runs" "list_all (\<lambda>run. run \<noteq> [] \<and> consecutive run \<and> list_all (block_ok E batchIndex) run) runs"
        by auto
      with Inr RlpString one show ?thesis
        by (auto simp: bindE_def split: sum.splits intro!: exI [of _ "_ # runs"])
    qed
  qed
qed simp

lemma decodeChannel_sound:
  assumes "raw_nonempty E" "bytes_consume E"
  shows "case decodeChannel E data batchIndex chainID of
      Inl e \<Rightarrow> span_error E e
    | Inr blocks \<Rightarrow> \<exists>runs. blocks = concat runs \<and>
        list_all (\<lambda>run. run \<noteq> [] \<and> consecutive run \<and> list_all (block_ok E batchIndex) run) runs"
proof (cases "data = []")
  case False
  show ?thesis
  proof (cases "if hd data = 1 then Some (cx_brotli E (tl data)) else cx_zlib E data")
    case None
    with False show ?thesis by (simp add: decodeChannel_def)
  next
    case (Some p)
    obtain out ok where p: "p = (out, ok)" by (cases p)
    show ?thesis
    proof (cases "(\<not> ok \<and> length out \<le> MaxChannelBytes) \<or> MaxChannelBytes < length (take (MaxChannelBytes + 1) out)")
      case True
      with False Some p show ?thesis unfolding decodeChannel_def by simp
    next
      case F: False
      have "decodeChannel E data batchIndex chainID = decodeSpans E batchIndex chainID (Suc (length out)) out"
        unfolding decodeChannel_def Some p option.case prod.case if_not_P [OF F] using False by simp
      with decodeSpans_total [OF assms, of out "Suc (length out)"] show ?thesis by simp
    qed
  qed
qed (simp add: decodeChannel_def)

text \<open>C28.
  \<open>decodeChannel\<close> always returns: the loop over the RLP strings of a channel ends within as
  many rounds as there are decompressed bytes, because every string consumes input.  An error is
  \<open>ErrInvalid\<close> or comes from \<open>MarshalBinary\<close>; otherwise the blocks are the
  concatenation of the spans of the channel, each a non-empty run of consecutive blocks.\<close>

theorem decodeChannel_returns:
  assumes "raw_nonempty E" "bytes_consume E"
  shows "case decodeChannel E data batchIndex chainID of
      Inl e \<Rightarrow> span_error E e
    | Inr blocks \<Rightarrow> \<exists>runs. blocks = concat runs \<and>
        list_all (\<lambda>run. run \<noteq> [] \<and> consecutive run \<and> list_all (block_ok E batchIndex) run) runs"
  using decodeChannel_sound [OF assms] .

section \<open>A sample span\<close>

text \<open>
  A codec in which the only RLP list is the empty one, and a span of two blocks: the first has a
  queue transaction that creates a contract and a sequencer transaction, the second is empty.
\<close>

definition sample_codec :: span_env where
  "sample_codec = \<lparr>cx_Raw = (\<lambda>bs. if bs \<noteq> [] \<and> hd bs = 0xC0 then Some ([0xC0], tl bs) else None),
     cx_Bytes = (\<lambda>bs. if bs = [] then RlpEOF else RlpString bs []),
     cx_legacy = (\<lambda>_. Inr (0, 1, [])), cx_access = (\<lambda>_. Inl (Err ErrOther ''rlp'')), cx_dynamic = (\<lambda>_. Inl (Err ErrOther ''rlp'')),
     cx_brotli = (\<lambda>bs. (bs, True)), cx_zlib = (\<lambda>_. None),
     cx_Gas = (\<lambda>tx. case tx of LegacyTx c _ \<Rightarrow> txc_Gas c | AccessListTx c _ _ _ \<Rightarrow> txc_Gas c | DynamicFeeTx c _ _ _ _ \<Rightarrow> txc_Gas c),
     cx_Nonce = (\<lambda>tx. case tx of LegacyTx c _ \<Rightarrow> txc_Nonce c | AccessListTx c _ _ _ \<Rightarrow> txc_Nonce c | DynamicFeeTx c _ _ _ _ \<Rightarrow> txc_Nonce c),
     cx_Data = (\<lambda>_. []), cx_Value = (\<lambda>_. 0), cx_GasPrice = (\<lambda>_. 1),
     cx_To = (\<lambda>tx. case tx of LegacyTx c _ \<Rightarrow> txc_To c | AccessListTx c _ _ _ \<Rightarrow> txc_To c | DynamicFeeTx c _ _ _ _ \<Rightarrow> txc_To c),
     cx_Type = (\<lambda>_. 0), cx_Sender = (\<lambda>_ _. Inr 3), cx_MarshalBinary = (\<lambda>_. Inr [0xC0]),
     cx_hexEncode = (\<lambda>_. ''0x''), cx_EncodeBig = (\<lambda>_. ''0x0'')\<rparr>"

definition sample_txs :: txFields where
  "sample_txs = \<lparr>tf_creation = 1, tf_parity = 2, tf_protected = 2, tf_queue = 1, tf_seqParity = 0, tf_sigs = [(1, 2), (3, 4)],
     tf_seqSigs = [(0, 0), (5, 6)], tf_tos = [9], tf_payloads = [[0xC0], [0xC0]], tf_nonces = [5, 300], tf_gases = [21000, 21000],
     tf_origins = [8]\<rparr>"

definition sample_span :: spanData where
  "sample_span = \<lparr>sd_start = 1, sd_head = replicate 40 0, sd_originBits = 0,
     sd_cols = [(100, 1700000000, 2, []), (100, 1700000012, 0, [])], sd_txs = sample_txs\<rparr>"

lemma sample_raw_nonempty: "raw_nonempty sample_codec"
  by (simp add: raw_nonempty_def sample_codec_def)

lemma sample_span_ok: "span_ok sample_codec sample_span"
proof -
  have n: "[0 ..< 2] = [0, 1 :: nat]" by (simp add: upt_conv_Cons)
  have "columns_ok 2 sample_txs" by (simp add: columns_ok_def sample_txs_def rank_def n bit_Suc_0_iff)
  moreover have "payload_ok sample_codec [0xC0]" by (simp add: payload_ok_def sample_codec_def)
  moreover have "legacies sample_txs = 2" by (simp add: legacies_def legacyPayload_def sample_txs_def)
  ultimately have "txs_ok sample_codec 2 sample_txs" by (simp add: txs_ok_def sample_txs_def)
  then show ?thesis by (simp add: span_ok_def sample_span_def col_count_def)
qed

definition summary :: "Block list result \<Rightarrow> (u64 \<times> (u64 option \<times> string) list) list option" where
  "summary r = (case r of Inl _ \<Rightarrow> None
     | Inr bs \<Rightarrow> Some (map (\<lambda>b. (blk_Index b, map (\<lambda>t. (tx_QueueIndex t, tx_QueueOrigin t)) (blk_Transactions b))) bs))"

lemma sample_blocks:
  "summary (blocks_at sample_codec 1 7 1088 sample_txs 0 0 (sd_cols sample_span)) =
     Some [(0, [(Some 5, ''l1''), (None, ''sequencer'')]), (1, [])]"
proof -
  have n: "[0 ..< 2] = [0, 1 :: nat]" by (simp add: upt_conv_Cons)
  show ?thesis
    by (simp add: sample_span_def sample_txs_def sample_codec_def n entry_at_def tx_at_def tx_to_def tx_protected_def rank_def
      restoreTransaction_def firstByte_def indexAt_def legacyPayload_def queueEntry_def sequencerEntry_def newEntry_def FillBytes_def
      summary_def bit_Suc_0_iff Let_def)
qed

lemma sample_decoded:
  "decodeSpan sample_codec (encodeSpan sample_span) 7 1088 = blocks_at sample_codec 1 7 1088 sample_txs 0 0 (sd_cols sample_span)"
  using decodeSpan_encoded [OF sample_span_ok, of 7 1088] by (simp add: sample_span_def)

theorem decodeSpan_encodeSpan_witness:
  "summary (decodeSpan sample_codec (encodeSpan sample_span) 7 1088) =
     Some [(0, [(Some 5, ''l1''), (None, ''sequencer'')]), (1, [])]"
  using decodeSpan_encodeSpan [OF sample_span_ok, of 7 1088] sample_blocks by (simp add: sample_span_def)

theorem decodeSpan_well_formed_witness:
  "\<exists>blocks. decodeSpan sample_codec (encodeSpan sample_span) 7 1088 = Inr blocks \<and> consecutive blocks \<and>
     list_all (block_ok sample_codec 7) blocks \<and> length blocks = 2"
  using decodeSpan_well_formed [OF sample_raw_nonempty, where data = "encodeSpan sample_span" and batchIndex = 7 and chainID = 1088] sample_decoded sample_blocks
  by (auto simp: summary_def split: sum.splits)


lemma sample_bytes_consume: "bytes_consume sample_codec"
  by (auto simp: bytes_consume_def sample_codec_def split: if_splits)

lemma length_sample_span: "length (encodeSpan sample_span) < 1000"
  by (simp add: encodeSpan_def sample_span_def sample_txs_def encodeTxs_def encodeBits_def encodeSig_def encodeAddress_def
    encodeU64_def encodeExtra_def legacies_def legacyPayload_def col_count_def uvarint.simps)

lemma sample_channel_blocks:
  "\<exists>blocks. decodeChannel sample_codec ([1, 1] @ encodeSpan sample_span) 7 1088 = Inr blocks \<and> length blocks = 2 \<and>
     map blk_Index blocks = [0, 1]"
proof -
  obtain blocks where b: "decodeSpan sample_codec (encodeSpan sample_span) 7 1088 = Inr blocks" "map blk_Index blocks = [0, 1]"
    using sample_decoded sample_blocks by (auto simp: summary_def split: sum.splits)
  have c: "cx_Bytes sample_codec (1 # encodeSpan sample_span) = RlpString (1 # encodeSpan sample_span) []"
    "cx_Bytes sample_codec [] = RlpEOF" "cx_brotli sample_codec bs = (bs, True)" for bs
    by (simp_all add: sample_codec_def)
  have "length blocks = 2" using arg_cong [OF b(2), of length] by simp
  with b length_sample_span show ?thesis by (simp add: decodeChannel_def MaxChannelBytes_def c)
qed

lemma sample_channel:
  "\<exists>blocks. decodeChannel sample_codec ([1, 1] @ encodeSpan sample_span) 7 1088 = Inr blocks \<and> length blocks = 2"
  using sample_channel_blocks by blast

text \<open>The same span in a channel: the marker of Brotli, the batch type, the span.\<close>

theorem decodeChannel_returns_witness:
  "\<exists>runs. decodeChannel sample_codec ([1, 1] @ encodeSpan sample_span) 7 1088 = Inr (concat runs) \<and>
     list_all (\<lambda>run. run \<noteq> [] \<and> consecutive run \<and> list_all (block_ok sample_codec 7) run) runs \<and> length (concat runs) = 2"
  using decodeChannel_returns [OF sample_raw_nonempty sample_bytes_consume, where data = "[1, 1] @ encodeSpan sample_span" and batchIndex = 7 and chainID = 1088]
    sample_channel by auto

end
