(* ===== verification/Frames.thy ===== *)
theory Frames
  imports SpanWire "HOL-Library.Multiset"
begin

text \<open>
  \<open>internal/blob/frames.go\<close>, the second half: the frames of one Inbox submission are
  collected by channel, in whatever order the Blobs carry them; a channel with its closing frame
  and all frames before it is decoded, any other channel is left out.  The maps are ordered
  dictionaries; a channel identifier is the number its 16 bytes encode, so that the order of the
  dictionary is that of \<open>bytes.Compare\<close>.
\<close>

section \<open>Model\<close>

record frameSource =
  fs_frame :: Frame
  fs_hash :: hash
  fs_timestamp :: u64

record channelInput =
  ci_frames :: "(u16, frameSource) dict"
  ci_end :: "u16 option"
  ci_size :: int

definition newChannelInput :: channelInput where
  "newChannelInput = \<lparr>ci_frames = [], ci_end = None, ci_size = 0\<rparr>"

text \<open>The closing frame drops the frames behind it.\<close>

definition dropBeyond :: "u16 \<Rightarrow> channelInput \<Rightarrow> channelInput" where
  "dropBeyond n c = (let gone = filter (\<lambda>p. n < fst p) (ci_frames c) in
     c\<lparr>ci_end := Some n, ci_frames := filter (\<lambda>p. \<not> n < fst p) (ci_frames c),
       ci_size := ci_size c - (\<Sum>p \<leftarrow> gone. int (length (fr_Data (fs_frame (snd p)))))\<rparr>)"

definition addFrame :: "frameSource \<Rightarrow> channelInput \<Rightarrow> channelInput result" where
  "addFrame s c = (let f = fs_frame s in
     if dget (ci_frames c) (fr_Number f) \<noteq> None then Inl (invalid ''duplicate channel frame'')
     else if fr_Last f \<and> ci_end c \<noteq> None then Inl (invalid ''duplicate closing frame'')
     else if (case ci_end c of Some n \<Rightarrow> n \<le> fr_Number f | None \<Rightarrow> False) then Inl (invalid ''frame beyond channel end'')
     else let c = (if fr_Last f then dropBeyond (fr_Number f) c else c);
              c = c\<lparr>ci_size := ci_size c + int (length (fr_Data f))\<rparr> in
       if int MaxChannelBytes < ci_size c then Inl (invalid ''channel too large'')
       else Inr (c\<lparr>ci_frames := dput (fr_Number f) s (ci_frames c)\<rparr>))"

text \<open>One iteration of the loop that gathers data, sources and the oldest timestamp.\<close>

definition gatherFrame :: "(u16, frameSource) dict \<Rightarrow> nat \<Rightarrow> bytes \<times> hash list \<times> u64 \<Rightarrow> (bytes \<times> hash list \<times> u64) result" where
  "gatherFrame frames n = (\<lambda>(data, sources, oldest).
     case dget frames (word_of_nat n) of None \<Rightarrow> Inl (invalid ''channel gap'')
     | Some s \<Rightarrow> Inr (data @ fr_Data (fs_frame s),
         if fs_hash s \<in> set sources then sources else sources @ [fs_hash s],
         if fs_timestamp s < oldest then fs_timestamp s else oldest))"

definition outsideBatch :: "BlockBatch \<Rightarrow> Block \<Rightarrow> bool" where
  "outsideBatch batch b \<longleftrightarrow> blk_Index b < bat_PrevTotalElements batch \<or> bat_Size batch \<le> blk_Index b - bat_PrevTotalElements batch"

text \<open>\<open>common.Hash.Hex\<close> is \<open>hexutil.Encode\<close> of the 32 bytes.\<close>

definition channelID :: "span_env \<Rightarrow> hash \<Rightarrow> 128 word \<Rightarrow> string" where
  "channelID E txHash ident = cx_hexEncode E (be_bytes 32 (unat txHash)) @ ''/'' @ hexEncodeToString (be_bytes 16 (unat ident))"

text \<open>What is made of the gathered frames.\<close>

definition finishChannel :: "span_env \<Rightarrow> 128 word \<Rightarrow> BlockBatch \<Rightarrow> u64 \<Rightarrow> bytes \<times> hash list \<times> u64 \<Rightarrow> BlobChannel result" where
  "finishChannel E ident batch chainID = (\<lambda>(data, sources, oldest).
     bindE (decodeChannel E data (bat_Index batch) chainID) (\<lambda>blocks.
       if blocks = [] then Inl (invalid ''empty channel'')
       else if list_ex (outsideBatch batch) blocks then Inl (invalid ''block outside Inbox commitment'')
       else Inr \<lparr>bc_Record = \<lparr>ch_ID = channelID E (bat_L1TransactionHash batch) ident, ch_Sources = sources,
           ch_Blocks = map blk_Index blocks, ch_Batch = batch, ch_ExpiresAt = oldest\<rparr>, bc_Blocks = blocks\<rparr>))"

definition decodeReadyChannel :: "span_env \<Rightarrow> channelInput \<Rightarrow> 128 word \<Rightarrow> BlockBatch \<Rightarrow> u64 \<Rightarrow> BlobChannel option result" where
  "decodeReadyChannel E c ident batch chainID =
     (case ci_end c of None \<Rightarrow> Inr None
      | Some n \<Rightarrow>
          if length (ci_frames c) \<noteq> unat n + 1 then Inr None
          else bindE (foldE (gatherFrame (ci_frames c)) [0 ..< unat n + 1] ([], [], max_u64)) (\<lambda>gathered.
            bindE (finishChannel E ident batch chainID gathered) (\<lambda>ch. Inr (Some ch))))"

definition collectFrame :: "frameSource \<Rightarrow> (128 word, channelInput) dict \<Rightarrow> (128 word, channelInput) dict result" where
  "collectFrame s channels = (let i = fr_ID (fs_frame s) in
     bindE (addFrame s (case dget channels i of None \<Rightarrow> newChannelInput | Some c \<Rightarrow> c)) (\<lambda>c. Inr (dput i c channels)))"

definition txSources :: "BlobTransaction \<Rightarrow> frameSource list" where
  "txSources tx = (if btx_Missing tx then []
     else map (\<lambda>f. \<lparr>fs_frame = f, fs_hash = btx_Hash tx, fs_timestamp = btx_Timestamp tx\<rparr>) (btx_Frames tx))"

text \<open>The channels in the order of their identifiers, those that are ready.\<close>

fun decodeReady :: "span_env \<Rightarrow> BlockBatch \<Rightarrow> u64 \<Rightarrow> (128 word \<times> channelInput) list \<Rightarrow> BlobChannel list result" where
  "decodeReady E batch chainID [] = Inr []"
| "decodeReady E batch chainID ((i, c) # channels) =
     bindE (decodeReadyChannel E c i batch chainID) (\<lambda>ch.
     bindE (decodeReady E batch chainID channels) (\<lambda>rest.
       Inr (case ch of None \<Rightarrow> rest | Some ch \<Rightarrow> ch # rest)))"

definition DecodeChannels :: "span_env \<Rightarrow> BlobTransaction list \<Rightarrow> BlockBatch \<Rightarrow> u64 \<Rightarrow> BlobChannel list result" where
  "DecodeChannels E txs batch chainID =
     bindE (foldE collectFrame (concat (map txSources txs)) []) (\<lambda>channels. decodeReady E batch chainID channels)"

section \<open>Which frames a channel keeps\<close>

abbreviation src_number :: "frameSource \<Rightarrow> u16" where
  "src_number s \<equiv> fr_Number (fs_frame s)"

abbreviation src_last :: "frameSource \<Rightarrow> bool" where
  "src_last s \<equiv> fr_Last (fs_frame s)"

abbreviation src_data :: "frameSource \<Rightarrow> bytes" where
  "src_data s \<equiv> fr_Data (fs_frame s)"

text \<open>The reference: all frames, or those up to the closing frame once there is one.\<close>

definition kept :: "frameSource list \<Rightarrow> frameSource list" where
  "kept ss = (case find src_last ss of None \<Rightarrow> ss | Some l \<Rightarrow> filter (\<lambda>s. src_number s \<le> src_number l) ss)"

definition size_of :: "frameSource list \<Rightarrow> int" where
  "size_of ss = (\<Sum>s \<leftarrow> ss. int (length (src_data s)))"

text \<open>The state of a channel after the frames \<open>ss\<close>.\<close>

definition collected :: "frameSource list \<Rightarrow> channelInput \<Rightarrow> bool" where
  "collected ss c \<longleftrightarrow> dict_ok (ci_frames c) \<and> ci_end c = map_option src_number (find src_last ss) \<and>
     distinct (map src_number (kept ss)) \<and> mset (map snd (ci_frames c)) = mset (kept ss) \<and>
     list_all (\<lambda>p. fst p = src_number (snd p)) (ci_frames c) \<and> ci_size c = size_of (kept ss)"

lemma find_append: "find P (xs @ ys) = (case find P xs of None \<Rightarrow> find P ys | Some x \<Rightarrow> Some x)"
  by (induction xs) auto

lemma mset_dput_new: "dget m k = None \<Longrightarrow> mset (dput k v m) = add_mset (k, v) (mset m)"
  by (induction m) auto

lemma size_of_mset: "mset a = mset b \<Longrightarrow> size_of a = size_of b"
  unfolding size_of_def by (metis mset_map sum_mset_sum_list)

lemma collected_keys:
  assumes "collected ss c"
  shows "set (map fst (ci_frames c)) = src_number ` set (kept ss)" "length (ci_frames c) = length (kept ss)"
proof -
  from assms have "map fst (ci_frames c) = map (src_number \<circ> snd) (ci_frames c)"
    by (auto simp: collected_def list_all_iff)
  then have "set (map fst (ci_frames c)) = src_number ` set (map snd (ci_frames c))" by auto
  also have "set (map snd (ci_frames c)) = set (kept ss)" using assms by (metis collected_def set_mset_mset)
  finally show "set (map fst (ci_frames c)) = src_number ` set (kept ss)" .
  show "length (ci_frames c) = length (kept ss)" using assms by (metis collected_def length_map size_mset)
qed

lemma collected_get:
  assumes "collected ss c"
  shows "dget (ci_frames c) k = None \<longleftrightarrow> k \<notin> src_number ` set (kept ss)"
  using collected_keys(1) [OF assms] dget_in_keys [of "ci_frames c" k] by auto

lemma collected_new: "collected [] newChannelInput"
  by (simp add: collected_def newChannelInput_def kept_def size_of_def)

lemma dropBeyond_kept:
  assumes c: "collected ss c" and op: "find src_last ss = None"
  shows "ci_end (dropBeyond n c) = Some n" "dict_ok (ci_frames (dropBeyond n c))"
    "mset (map snd (ci_frames (dropBeyond n c))) = mset (filter (\<lambda>s. src_number s \<le> n) ss)"
    "list_all (\<lambda>p. fst p = src_number (snd p)) (ci_frames (dropBeyond n c))"
    "ci_size (dropBeyond n c) = size_of (filter (\<lambda>s. src_number s \<le> n) ss)"
proof -
  have keys: "\<forall>p \<in> set (ci_frames c). fst p = src_number (snd p)" using c by (simp add: collected_def list_all_iff)
  then have f: "map snd (filter (\<lambda>p. \<not> n < fst p) (ci_frames c)) = filter (\<lambda>s. src_number s \<le> n) (map snd (ci_frames c))"
    "map snd (filter (\<lambda>p. n < fst p) (ci_frames c)) = filter (\<lambda>s. \<not> src_number s \<le> n) (map snd (ci_frames c))"
    unfolding filter_map by (auto intro!: arg_cong [of _ _ "map snd"] filter_cong simp: not_le not_less)
  have all: "mset (map snd (ci_frames c)) = mset ss" using c op by (simp add: collected_def kept_def)
  show "ci_end (dropBeyond n c) = Some n" by (simp add: dropBeyond_def Let_def)
  show "dict_ok (ci_frames (dropBeyond n c))"
    using c by (simp add: dropBeyond_def Let_def collected_def dict_ok_def sorted_wrt_filter sorted_wrt_map)
  show "mset (map snd (ci_frames (dropBeyond n c))) = mset (filter (\<lambda>s. src_number s \<le> n) ss)"
    using all f(1) by (simp add: dropBeyond_def Let_def)
  show "list_all (\<lambda>p. fst p = src_number (snd p)) (ci_frames (dropBeyond n c))"
    using keys by (simp add: dropBeyond_def Let_def list_all_iff)
  have "size_of (map snd (filter (\<lambda>p. n < fst p) (ci_frames c))) = size_of (filter (\<lambda>s. \<not> src_number s \<le> n) ss)"
    unfolding f(2) using all by (intro size_of_mset) simp
  moreover have "ci_size c = size_of ss" using c op by (simp add: collected_def kept_def)
  moreover have "size_of ss = size_of (filter (\<lambda>s. src_number s \<le> n) ss) + size_of (filter (\<lambda>s. \<not> src_number s \<le> n) ss)"
    by (induction ss) (simp_all add: size_of_def)
  ultimately show "ci_size (dropBeyond n c) = size_of (filter (\<lambda>s. src_number s \<le> n) ss)"
    by (simp add: dropBeyond_def Let_def size_of_def o_def)
qed

text \<open>Which frame a channel accepts next.\<close>

definition fits :: "frameSource list \<Rightarrow> frameSource \<Rightarrow> bool" where
  "fits ss s \<longleftrightarrow> src_number s \<notin> src_number ` set (kept ss) \<and>
     (case find src_last ss of None \<Rightarrow> True | Some l \<Rightarrow> \<not> src_last s \<and> src_number s < src_number l) \<and>
     size_of (kept (ss @ [s])) \<le> int MaxChannelBytes"

lemma kept_snoc:
  "kept (ss @ [s]) = (case find src_last ss of
      None \<Rightarrow> (if src_last s then filter (\<lambda>t. src_number t \<le> src_number s) ss else ss) @ [s]
    | Some l \<Rightarrow> kept ss @ (if src_number s \<le> src_number l then [s] else []))"
  by (simp add: kept_def find_append split: option.splits)

text \<open>Entering a frame that is new.\<close>

lemma collected_put:
  assumes ok: "dict_ok (ci_frames c)" and "list_all (\<lambda>p. fst p = src_number (snd p)) (ci_frames c)"
    and ms: "mset (map snd (ci_frames c)) = mset ks" and sz: "ci_size c = size_of ks"
    and new: "src_number s \<notin> src_number ` set ks" and k: "kept (ss @ [s]) = ks @ [s]" "distinct (map src_number ks)"
    and e: "ci_end c = map_option src_number (find src_last (ss @ [s]))"
  shows "collected (ss @ [s]) (c\<lparr>ci_size := ci_size c + int (length (src_data s)), ci_frames := dput (src_number s) s (ci_frames c)\<rparr>)"
proof -
  have "set (map snd (ci_frames c)) = set ks" using ms by (metis set_mset_mset)
  with assms(2) new have "src_number s \<notin> set (map fst (ci_frames c))" by (force simp: list_all_iff)
  then have none: "dget (ci_frames c) (src_number s) = None" by (metis dget_in_keys)
  have "set (dput (src_number s) s (ci_frames c)) = insert (src_number s, s) (set (ci_frames c))"
    using mset_dput_new [OF none, of s] by (metis set_mset_add_mset_insert set_mset_mset)
  with assms mset_dput_new [OF none, of s] show ?thesis
    by (simp add: collected_def od.ok_put list_all_iff size_of_def mset_map [symmetric] del: mset_map) (simp add: mset_map)
qed

lemma addFrame_collected:
  assumes c: "collected ss c"
  shows "if fits ss s then \<exists>c'. addFrame s c = Inr c' \<and> collected (ss @ [s]) c' else \<exists>m. addFrame s c = Inl (invalid m)"
proof (cases "find src_last ss")
  case None
  let ?ks = "if src_last s then filter (\<lambda>t. src_number t \<le> src_number s) ss else ss"
  let ?c = "if src_last s then dropBeyond (src_number s) c else c"
  have k: "kept (ss @ [s]) = ?ks @ [s]" "kept ss = ss" using None by (simp_all add: kept_snoc) (simp add: kept_def None)
  have parts: "dict_ok (ci_frames ?c)" "list_all (\<lambda>p. fst p = src_number (snd p)) (ci_frames ?c)"
    "mset (map snd (ci_frames ?c)) = mset ?ks" "ci_size ?c = size_of ?ks"
    "ci_end ?c = map_option src_number (find src_last (ss @ [s]))"
    using dropBeyond_kept [OF c None, of "src_number s"] c None k
    by (auto simp: collected_def find_append split: if_splits)
  have e: "ci_end c = None" using c None by (simp add: collected_def)
  have d: "distinct (map src_number ?ks)" using c k by (auto simp: collected_def distinct_map_filter)
  have sz: "size_of (?ks @ [s]) = ci_size ?c + int (length (src_data s))" using parts(4) by (simp add: size_of_def)
  have new: "src_number s \<notin> src_number ` set ?ks" if "src_number s \<notin> src_number ` set (kept ss)" using that k by auto
  show ?thesis
    using collected_put [OF parts(1,2,3,4) new k(1) d parts(5)] e None sz collected_get [OF c, of "src_number s"]
    unfolding fits_def k(1) by (auto simp: addFrame_def Let_def)
next
  case (Some l)
  have e: "ci_end c = Some (src_number l)" using c Some by (simp add: collected_def)
  have parts: "dict_ok (ci_frames c)" "list_all (\<lambda>p. fst p = src_number (snd p)) (ci_frames c)"
    "mset (map snd (ci_frames c)) = mset (kept ss)" "ci_size c = size_of (kept ss)" "distinct (map src_number (kept ss))"
    "ci_end c = map_option src_number (find src_last (ss @ [s]))"
    using c Some by (auto simp: collected_def find_append)
  have k: "kept (ss @ [s]) = kept ss @ [s]" if "src_number s < src_number l" using that Some by (simp add: kept_snoc)
  have sz: "size_of (kept ss @ [s]) = ci_size c + int (length (src_data s))" using parts(4) by (simp add: size_of_def)
  show ?thesis
    using collected_put [OF parts(1,2,3,4) _ k parts(5,6)] e Some sz k collected_get [OF c, of "src_number s"]
    by (auto simp: fits_def addFrame_def Let_def not_less not_le)
qed

section \<open>Collecting the frames of a submission\<close>

definition of_id :: "128 word \<Rightarrow> frameSource list \<Rightarrow> frameSource list" where
  "of_id i ss = filter (\<lambda>s. fr_ID (fs_frame s) = i) ss"

text \<open>Every frame fits the frames of its channel that came before it.\<close>

definition accepted :: "frameSource list \<Rightarrow> bool" where
  "accepted ss \<longleftrightarrow> (\<forall>j < length ss. fits (of_id (fr_ID (fs_frame (ss ! j))) (take j ss)) (ss ! j))"

definition gathered :: "frameSource list \<Rightarrow> (128 word, channelInput) dict \<Rightarrow> bool" where
  "gathered ss channels \<longleftrightarrow> dict_ok channels \<and> (\<forall>i. dget channels i = None \<longleftrightarrow> of_id i ss = []) \<and>
     (\<forall>i c. dget channels i = Some c \<longrightarrow> collected (of_id i ss) c)"

lemma accepted_snoc:
  "accepted (ss @ [s]) \<longleftrightarrow> accepted ss \<and> fits (of_id (fr_ID (fs_frame s)) ss) s"
  by (auto simp: accepted_def nth_append less_Suc_eq)

lemma of_id_snoc: "of_id i (ss @ [s]) = of_id i ss @ (if fr_ID (fs_frame s) = i then [s] else [])"
  by (simp add: of_id_def)

lemma collectFrame_gathered:
  assumes g: "gathered ss channels"
  shows "if fits (of_id (fr_ID (fs_frame s)) ss) s then \<exists>channels'. collectFrame s channels = Inr channels' \<and> gathered (ss @ [s]) channels'
    else \<exists>m. collectFrame s channels = Inl (invalid m)"
proof -
  let ?i = "fr_ID (fs_frame s)"
  let ?c = "case dget channels ?i of None \<Rightarrow> newChannelInput | Some c \<Rightarrow> c"
  from g have "collected (of_id ?i ss) ?c"
    unfolding gathered_def using collected_new by (auto split: option.splits)
  from addFrame_collected [OF this, of s] g show ?thesis
    by (auto simp: collectFrame_def Let_def gathered_def od.get_put od.ok_put of_id_snoc split: if_splits)
qed

lemma collect_all:
  "if accepted ss then \<exists>channels. foldE collectFrame ss [] = Inr channels \<and> gathered ss channels
   else \<exists>m. foldE collectFrame ss [] = Inl (invalid m)"
proof (induction ss rule: rev_induct)
  case Nil
  then show ?case by (simp add: accepted_def gathered_def of_id_def)
next
  case (snoc s ss)
  show ?case
  proof (cases "accepted ss")
    case True
    with snoc obtain channels where "foldE collectFrame ss [] = Inr channels" "gathered ss channels" by auto
    with collectFrame_gathered [of ss channels s] True show ?thesis
      by (cases "fits (of_id (fr_ID (fs_frame s)) ss) s") (fastforce simp: foldE_append accepted_snoc)+
  next
    case False
    with snoc show ?thesis by (auto simp: foldE_append accepted_snoc)
  qed
qed

section \<open>Complete channels\<close>

definition ready :: "frameSource list \<Rightarrow> bool" where
  "ready ss \<longleftrightarrow> (case find src_last ss of None \<Rightarrow> False | Some l \<Rightarrow> length (kept ss) = unat (src_number l) + 1)"

definition ordered :: "frameSource list \<Rightarrow> frameSource list" where
  "ordered ss = sort_key src_number (kept ss)"

definition firsts :: "'a list \<Rightarrow> 'a list" where
  "firsts xs = rev (remdups (rev xs))"

definition oldest :: "frameSource list \<Rightarrow> u64" where
  "oldest ss = foldl min max_u64 (map fs_timestamp ss)"

text \<open>What a complete channel consists of: its bytes in frame order, its sources, its expiry.\<close>

definition contents :: "frameSource list \<Rightarrow> bytes \<times> hash list \<times> u64" where
  "contents ss = (concat (map src_data (ordered ss)), firsts (map fs_hash (ordered ss)), oldest (ordered ss))"

lemma firsts_snoc: "firsts (xs @ [x]) = (if x \<in> set xs then firsts xs else firsts xs @ [x])"
  by (simp add: firsts_def)

lemma set_firsts [simp]: "set (firsts xs) = set xs"
  by (simp add: firsts_def)

lemma distinct_firsts [simp]: "distinct (firsts xs)"
  by (simp add: firsts_def)

lemma collected_ordered:
  assumes "collected ss c"
  shows "map snd (ci_frames c) = ordered ss" "map fst (ci_frames c) = map src_number (ordered ss)"
proof -
  from assms have keys: "map fst (ci_frames c) = map src_number (map snd (ci_frames c))"
    by (auto simp: collected_def list_all_iff)
  from assms have inj: "inj_on src_number (set (kept ss))" by (simp add: collected_def distinct_map)
  from assms have "sorted (map src_number (map snd (ci_frames c)))"
    unfolding keys [symmetric] by (simp add: collected_def dict_ok_def strict_sorted_imp_sorted)
  with sort_key_inj_key_eq [of "kept ss" "map snd (ci_frames c)" src_number] assms inj
  show eq: "map snd (ci_frames c) = ordered ss" by (simp add: ordered_def collected_def)
  from keys eq show "map fst (ci_frames c) = map src_number (ordered ss)" by simp
qed

text \<open>In a complete channel frame number \<open>i\<close> is at position \<open>i\<close>: there is no gap.\<close>

lemma ready_numbers:
  assumes c: "collected ss c" and r: "ready ss"
  shows "map (unat \<circ> src_number) (ordered ss) = [0 ..< length (ordered ss)]"
proof -
  from r obtain l where l: "find src_last ss = Some l" "length (kept ss) = unat (src_number l) + 1"
    by (auto simp: ready_def split: option.splits)
  let ?ns = "map (unat \<circ> src_number) (ordered ss)"
  have len: "length ?ns = unat (src_number l) + 1" using l by (simp add: ordered_def)
  have "set ?ns \<subseteq> {0 ..< unat (src_number l) + 1}"
    using l by (auto simp: ordered_def kept_def word_le_nat_alt less_Suc_eq_le)
  moreover have "sorted_wrt (<) (map src_number (ordered ss))"
    using c collected_ordered(2) [OF c] by (simp add: collected_def dict_ok_def)
  then have s: "sorted_wrt (<) ?ns" by (simp add: sorted_wrt_map word_less_nat_alt)
  moreover have "card (set ?ns) = unat (src_number l) + 1"
    using s len by (metis distinct_card strict_sorted_iff)
  ultimately have "set ?ns = {0 ..< unat (src_number l) + 1}" by (intro card_subset_eq) simp_all
  then have "?ns = sorted_list_of_set {0 ..< unat (src_number l) + 1}"
    using s by (metis strict_sorted_iff sorted_list_of_set.idem_if_sorted_distinct)
  then show ?thesis using len by (simp add: ordered_def l(2))
qed

lemma min_less_iff: "(if x < y then x else y) = min y (x :: 'a :: linorder)"
  by (auto simp: min_def)

lemma gather_prefix:
  assumes c: "collected ss c" and r: "ready ss"
  shows "m \<le> length (ordered ss) \<Longrightarrow> foldE (gatherFrame (ci_frames c)) [0 ..< m] ([], [], max_u64) =
    Inr (concat (map src_data (take m (ordered ss))), firsts (map fs_hash (take m (ordered ss))), oldest (take m (ordered ss)))"
proof (induction m)
  case 0
  then show ?case by (simp add: firsts_def oldest_def)
next
  case (Suc m)
  let ?s = "ordered ss ! m"
  from Suc.prems have m: "m < length (ordered ss)" by simp
  from arg_cong [OF ready_numbers [OF c r], of "\<lambda>ns. ns ! m"] m have "unat (src_number ?s) = m" by simp
  moreover have "word_of_nat (unat (src_number ?s)) = src_number ?s" by simp
  ultimately have num: "word_of_nat m = src_number ?s" by simp
  have len: "length (ci_frames c) = length (ordered ss)" using collected_ordered(1) [OF c] by (metis length_map)
  have "snd (ci_frames c ! m) = ?s" "fst (ci_frames c ! m) = src_number ?s"
    using collected_ordered [OF c] m len by (metis nth_map)+
  then have "(src_number ?s, ?s) \<in> set (ci_frames c)" using m len by (metis nth_mem prod.collapse)
  moreover have "distinct (map fst (ci_frames c))"
    using c by (simp add: collected_def dict_ok_def strict_sorted_iff)
  ultimately have get: "dget (ci_frames c) (word_of_nat m) = Some ?s" by (simp add: num)
  have t: "take (Suc m) (ordered ss) = take m (ordered ss) @ [?s]" using m by (simp add: take_Suc_conv_app_nth)
  from Suc m show ?case
    by (simp add: foldE_append gatherFrame_def get t firsts_snoc oldest_def min_less_iff)
qed

lemma decodeReadyChannel_exact:
  assumes "collected ss c"
  shows "decodeReadyChannel E c ident batch chainID =
    (if ready ss then bindE (finishChannel E ident batch chainID (contents ss)) (\<lambda>ch. Inr (Some ch)) else Inr None)"
proof (cases "find src_last ss")
  case None
  with assms show ?thesis by (simp add: decodeReadyChannel_def ready_def collected_def)
next
  case (Some l)
  then have e: "ci_end c = Some (src_number l)" using assms by (simp add: collected_def)
  show ?thesis
  proof (cases "ready ss")
    case True
    with Some have len: "length (ordered ss) = unat (src_number l) + 1" by (simp add: ready_def ordered_def)
    from gather_prefix [OF assms True, of "unat (src_number l) + 1"] len
    have "foldE (gatherFrame (ci_frames c)) [0 ..< unat (src_number l) + 1] ([], [], max_u64) = Inr (contents ss)"
      by (simp add: contents_def)
    with e True Some collected_keys(2) [OF assms] show ?thesis by (simp add: decodeReadyChannel_def ready_def)
  next
    case False
    with e Some collected_keys(2) [OF assms] show ?thesis by (simp add: decodeReadyChannel_def ready_def)
  qed
qed

section \<open>The channels of a submission\<close>

definition ready_ids :: "frameSource list \<Rightarrow> 128 word list" where
  "ready_ids ss = filter (\<lambda>i. ready (of_id i ss)) (sorted_list_of_set ((\<lambda>s. fr_ID (fs_frame s)) ` set ss))"

lemma gathered_keys:
  assumes "gathered ss channels"
  shows "map fst channels = sorted_list_of_set ((\<lambda>s. fr_ID (fs_frame s)) ` set ss)"
proof -
  have "set (map fst channels) = (\<lambda>s. fr_ID (fs_frame s)) ` set ss"
  proof (rule set_eqI)
    fix k
    have "k \<in> set (map fst channels) \<longleftrightarrow> of_id k ss \<noteq> []"
      using assms dget_in_keys [of channels k] by (simp add: gathered_def)
    then show "k \<in> set (map fst channels) \<longleftrightarrow> k \<in> (\<lambda>s. fr_ID (fs_frame s)) ` set ss"
      by (auto simp: of_id_def filter_empty_conv)
  qed
  moreover have "sorted_wrt (<) (map fst channels)" using assms by (simp add: gathered_def dict_ok_def)
  ultimately show ?thesis by (metis strict_sorted_iff sorted_list_of_set.idem_if_sorted_distinct)
qed

lemma bindE_return: "bindE m Inr = m"
  by (cases m) simp_all

lemma decodeReady_exact:
  assumes "\<And>i c. (i, c) \<in> set channels \<Longrightarrow> collected (of_id i ss) c"
  shows "decodeReady E batch chainID channels =
    mapE (\<lambda>i. finishChannel E i batch chainID (contents (of_id i ss))) (filter (\<lambda>i. ready (of_id i ss)) (map fst channels))"
  using assms
proof (induction channels)
  case (Cons p channels)
  obtain i c where p: "p = (i, c)" by (cases p)
  with Cons.prems have "collected (of_id i ss) c" by auto
  from decodeReadyChannel_exact [OF this, of E i batch chainID] Cons p show ?case
    by (cases "finishChannel E i batch chainID (contents (of_id i ss))") (simp_all add: bindE_assoc bindE_return)
qed simp

lemma DecodeChannels_eq:
  fixes txs
  defines "ss \<equiv> concat (map txSources txs)"
  shows "if accepted ss
    then DecodeChannels E txs batch chainID = mapE (\<lambda>i. finishChannel E i batch chainID (contents (of_id i ss))) (ready_ids ss)
    else \<exists>m. DecodeChannels E txs batch chainID = Inl (invalid m)"
proof (cases "accepted ss")
  case True
  with collect_all [of ss] obtain channels where run: "foldE collectFrame ss [] = Inr channels" and g: "gathered ss channels" by auto
  from g have "collected (of_id i ss) c" if "(i, c) \<in> set channels" for i c
    using that by (auto simp: gathered_def dict_ok_def strict_sorted_iff)
  from decodeReady_exact [OF this] gathered_keys [OF g] run True show ?thesis
    by (simp add: DecodeChannels_def ss_def [symmetric] ready_ids_def)
next
  case False
  with collect_all [of ss] show ?thesis by (auto simp: DecodeChannels_def ss_def [symmetric])
qed

subsection \<open>The order of arrival\<close>

text \<open>Frames numbered from zero to the closing frame, each once.\<close>

definition complete :: "frameSource list \<Rightarrow> bool" where
  "complete ss \<longleftrightarrow> (\<exists>l \<in> set ss. src_last l \<and> length ss = unat (src_number l) + 1 \<and>
     (\<forall>s \<in> set ss. src_number s \<le> src_number l \<and> (src_last s \<longrightarrow> s = l))) \<and>
     distinct (map src_number ss) \<and> size_of ss \<le> int MaxChannelBytes"

lemma size_of_filter: "size_of (filter P ss) \<le> size_of ss"
  by (induction ss) (auto simp: size_of_def)

lemma size_of_kept: "size_of (kept ss) \<le> size_of ss"
  by (simp add: kept_def size_of_filter split: option.splits)

lemma complete_kept:
  assumes "complete ss"
  shows "kept ss = ss" "ready ss"
proof -
  from assms obtain l where l: "l \<in> set ss" "src_last l" "length ss = unat (src_number l) + 1"
    "\<forall>s \<in> set ss. src_number s \<le> src_number l \<and> (src_last s \<longrightarrow> s = l)"
    unfolding complete_def by blast
  have "find src_last ss = Some l"
  proof (cases "find src_last ss")
    case None
    with l(1,2) show ?thesis by (simp add: find_None_iff)
  next
    case (Some x)
    then have "src_last x" "x \<in> set ss" by (metis find_Some_iff nth_mem)+
    with l(4) Some show ?thesis by simp
  qed
  with l(3,4) show "kept ss = ss" "ready ss" by (simp_all add: kept_def ready_def)
qed

text \<open>Every prefix of a complete channel accepts the next frame.\<close>

lemma complete_fits:
  assumes c: "complete (ps @ s # qs)"
  shows "fits ps s"
proof -
  have sub: "set (kept ps) \<subseteq> set ps" by (auto simp: kept_def split: option.splits)
  have new: "src_number s \<notin> src_number ` set ps" using c by (auto simp: complete_def)
  from c obtain l where l: "\<forall>t \<in> set (ps @ s # qs). src_number t \<le> src_number l \<and> (src_last t \<longrightarrow> t = l)"
    unfolding complete_def by blast
  have closing: "\<not> src_last s \<and> src_number s < src_number x" if "find src_last ps = Some x" for x
  proof -
    from that have x: "x \<in> set ps" "src_last x" by (metis find_Some_iff nth_mem)+
    with l have "x = l" by simp
    with new x l have "src_number s \<noteq> src_number l" "\<not> src_last s" by (auto simp: image_iff)
    with l \<open>x = l\<close> show ?thesis by (simp add: order.strict_iff_order)
  qed
  have "size_of (kept (ps @ [s])) \<le> size_of (ps @ [s])" by (rule size_of_kept)
  also have "\<dots> \<le> size_of (ps @ s # qs)" by (auto simp: size_of_def intro!: sum_list_nonneg)
  also have "\<dots> \<le> int MaxChannelBytes" using c by (simp add: complete_def)
  finally show ?thesis using new sub closing by (auto simp: fits_def split: option.splits)
qed

lemma complete_accepted:
  assumes "\<And>i. of_id i ss \<noteq> [] \<Longrightarrow> complete (of_id i ss)"
  shows "accepted ss"
  unfolding accepted_def
proof (intro allI impI)
  fix j assume j: "j < length ss"
  let ?i = "fr_ID (fs_frame (ss ! j))"
  have "ss = take j ss @ ss ! j # drop (Suc j) ss" using j by (rule id_take_nth_drop)
  then have split: "of_id ?i ss = of_id ?i (take j ss) @ ss ! j # of_id ?i (drop (Suc j) ss)"
    unfolding of_id_def by (metis (mono_tags, lifting) filter.simps(2) filter_append)
  then have "complete (of_id ?i ss)" by (intro assms) simp
  with split show "fits (of_id ?i (take j ss)) (ss ! j)" by (simp add: complete_fits)
qed

lemma complete_mset: "mset a = mset b \<Longrightarrow> complete a \<Longrightarrow> complete b"
proof -
  assume eq: "mset a = mset b" and "complete a"
  moreover from eq have "set a = set b" "length a = length b" by (rule mset_eq_setD, rule mset_eq_length)
  moreover from eq have "distinct (map src_number a) \<longleftrightarrow> distinct (map src_number b)"
    by (intro mset_eq_imp_distinct_iff) simp
  ultimately show "complete b" using size_of_mset [OF eq] by (simp add: complete_def)
qed

lemma complete_contents:
  assumes "mset a = mset b" "complete a"
  shows "contents a = contents b"
proof -
  from assms have b: "complete b" by (rule complete_mset)
  have "inj_on src_number (set a)" using assms(2) by (simp add: complete_def distinct_map)
  with assms(1) have "sort_key src_number a = sort_key src_number b"
    by (intro sort_key_inj_key_eq) simp_all
  then show ?thesis using complete_kept(1) [OF assms(2)] complete_kept(1) [OF b] by (simp add: contents_def ordered_def)
qed

lemma mapE_cong: "xs = ys \<Longrightarrow> (\<And>x. x \<in> set xs \<Longrightarrow> f x = g x) \<Longrightarrow> mapE f xs = mapE g ys"
  by (induction xs arbitrary: ys) auto

section \<open>What the store relies on\<close>

text \<open>
  A decoded channel: its sources are transactions of the submission that carry frames, it expires
  with the oldest of them, its blocks lie in the range of the commitment.
\<close>

definition channel_wf :: "BlobTransaction list \<Rightarrow> BlockBatch \<Rightarrow> BlobChannel \<Rightarrow> bool" where
  "channel_wf txs batch ch \<longleftrightarrow> (let r = bc_Record ch in
     ch_Sources r \<noteq> [] \<and> distinct (ch_Sources r) \<and> ch_ID r \<noteq> [] \<and> bc_Blocks ch \<noteq> [] \<and> ch_Blocks r = map blk_Index (bc_Blocks ch) \<and>
     ch_Batch r = batch \<and> list_all (\<lambda>b. \<not> outsideBatch batch b) (bc_Blocks ch) \<and>
     (\<forall>h \<in> set (ch_Sources r). \<exists>tx \<in> set txs. btx_Hash tx = h \<and> \<not> btx_Missing tx \<and> ch_ExpiresAt r \<le> btx_Timestamp tx) \<and>
     (\<exists>tx \<in> set txs. btx_Hash tx \<in> set (ch_Sources r) \<and> ch_ExpiresAt r = btx_Timestamp tx))"

lemma foldl_min: "foldl min (a :: 'a :: linorder) xs = Min (insert a (set xs))"
proof (induction xs arbitrary: a)
  case (Cons x xs)
  have "Min (insert (min a x) (set xs)) = Min (insert a (insert x (set xs)))"
    by (cases "xs = []") (simp_all add: min.assoc)
  with Cons show ?case by simp
qed simp

lemma oldest_least:
  assumes "ss \<noteq> []"
  shows "\<forall>s \<in> set ss. oldest ss \<le> fs_timestamp s" "\<exists>s \<in> set ss. oldest ss = fs_timestamp s"
proof -
  have "oldest ss = Min (fs_timestamp ` set ss)"
    using assms by (simp add: oldest_def foldl_min min_absorb2)
  moreover have "Min (fs_timestamp ` set ss) \<in> fs_timestamp ` set ss" using assms by (intro Min_in) simp_all
  ultimately show "\<forall>s \<in> set ss. oldest ss \<le> fs_timestamp s" "\<exists>s \<in> set ss. oldest ss = fs_timestamp s" by auto
qed

lemma set_ordered: "set (ordered ss) \<subseteq> set ss"
  by (auto simp: ordered_def kept_def split: option.splits)

lemma finishChannel_wf:
  assumes fin: "finishChannel E i batch chainID (contents (of_id i ss)) = Inr ch" and r: "ready (of_id i ss)"
    and ss: "ss = concat (map txSources txs)"
  shows "channel_wf txs batch ch"
proof -
  let ?o = "ordered (of_id i ss)"
  have "length ?o > 0" using r by (auto simp: ready_def ordered_def split: option.splits)
  then have ne: "?o \<noteq> []" by simp
  have src: "\<exists>tx \<in> set txs. btx_Hash tx = fs_hash s \<and> \<not> btx_Missing tx \<and> btx_Timestamp tx = fs_timestamp s"
    if "s \<in> set ?o" for s
    using that set_ordered [of "of_id i ss"] by (force simp: ss of_id_def txSources_def split: if_splits)
  from fin obtain blocks where blocks: "blocks \<noteq> []" "\<not> list_ex (outsideBatch batch) blocks"
    and ch: "ch = \<lparr>bc_Record = \<lparr>ch_ID = channelID E (bat_L1TransactionHash batch) i, ch_Sources = firsts (map fs_hash ?o),
           ch_Blocks = map blk_Index blocks, ch_Batch = batch, ch_ExpiresAt = oldest ?o\<rparr>, bc_Blocks = blocks\<rparr>"
    by (auto simp: finishChannel_def contents_def bindE_Inr split: if_splits)
  have "firsts (map fs_hash ?o) \<noteq> []" using ne by (metis list.map_disc_iff set_empty set_firsts)
  moreover have "\<forall>h \<in> set (firsts (map fs_hash ?o)). \<exists>tx \<in> set txs. btx_Hash tx = h \<and> \<not> btx_Missing tx \<and> oldest ?o \<le> btx_Timestamp tx"
    using src oldest_least(1) [OF ne] by fastforce
  moreover have "\<exists>tx \<in> set txs. btx_Hash tx \<in> set (firsts (map fs_hash ?o)) \<and> oldest ?o = btx_Timestamp tx"
    using src oldest_least(2) [OF ne] by fastforce
  ultimately show ?thesis
    using blocks by (simp add: channel_wf_def ch channelID_def list_all_iff list_ex_iff)
qed

text \<open>
  Every channel that \<open>DecodeChannels\<close> returns is one the store accepts.\<close>

lemma DecodeChannels_wf:
  assumes "DecodeChannels E txs batch chainID = Inr chs"
  shows "list_all (channel_wf txs batch) chs"
proof -
  let ?ss = "concat (map txSources txs)"
  from DecodeChannels_eq [of txs E batch chainID] assms
  have run: "mapE (\<lambda>i. finishChannel E i batch chainID (contents (of_id i ?ss))) (ready_ids ?ss) = Inr chs"
    by (auto split: if_splits)
  show ?thesis
    unfolding list_all_iff
  proof
    fix ch assume "ch \<in> set chs"
    from mapE_set [OF run this] obtain i where "i \<in> set (ready_ids ?ss)"
      "finishChannel E i batch chainID (contents (of_id i ?ss)) = Inr ch" by blast
    then show "channel_wf txs batch ch" by (intro finishChannel_wf [OF _ _ refl]) (auto simp: ready_ids_def)
  qed
qed

section \<open>The properties of the channel decoder\<close>

text \<open>C29.
  The channels of an Inbox submission, exactly: if every frame fits its channel when it arrives,
  then \<open>DecodeChannels\<close> decodes the channels that are complete (closing frame and all
  frames before it), in the order of their identifiers, each from the concatenation of its frames
  in frame order; channels with missing frames are left out.  Otherwise it fails with
  \<open>ErrInvalid\<close>.  The error for a gap in a complete channel never occurs.\<close>

theorem DecodeChannels_exact:
  "let ss = concat (map txSources txs) in
   if accepted ss
   then DecodeChannels E txs batch chainID = mapE (\<lambda>i. finishChannel E i batch chainID (contents (of_id i ss))) (ready_ids ss)
   else \<exists>m. DecodeChannels E txs batch chainID = Inl (invalid m)"
  using DecodeChannels_eq [of txs E batch chainID] by simp

text \<open>
  The result does not depend on the order in which complete channels arrive: if the frames of a
  submission form complete channels, every rearrangement of them over transactions with the same
  hashes and times decodes to the same channels.\<close>

lemma frames_in_any_order:
  assumes "mset (concat (map txSources txs)) = mset (concat (map txSources txs'))"
    and "list_all (\<lambda>s. complete (of_id (fr_ID (fs_frame s)) (concat (map txSources txs)))) (concat (map txSources txs))"
  shows "DecodeChannels E txs batch chainID = DecodeChannels E txs' batch chainID"
proof -
  let ?a = "concat (map txSources txs)" and ?b = "concat (map txSources txs')"
  have ca: "complete (of_id i ?a)" if "of_id i ?a \<noteq> []" for i
    using that assms(2) by (auto simp: of_id_def filter_empty_conv list_all_iff)
  have ms: "mset (of_id i ?a) = mset (of_id i ?b)" for i using assms(1) by (simp add: of_id_def mset_filter)
  have cb: "complete (of_id i ?b)" if "of_id i ?b \<noteq> []" for i
    using that complete_mset [OF ms] ca [of i] ms [of i] by fastforce
  have ids: "set ?a = set ?b" using assms(1) by (rule mset_eq_setD)
  have ne: "of_id i ?a \<noteq> []" if "i \<in> set (ready_ids ?a)" for i
    using that by (auto simp: ready_ids_def ready_def of_id_def split: option.splits)
  have "ready (of_id i ?a) = ready (of_id i ?b)" for i
  proof (cases "of_id i ?a = []")
    case True
    then show ?thesis using ms [of i] by simp
  next
    case False
    then have "of_id i ?b \<noteq> []" using ms [of i] by auto
    with False show ?thesis using complete_kept(2) ca cb by blast
  qed
  then have "ready_ids ?a = ready_ids ?b" unfolding ready_ids_def ids by simp
  moreover have "contents (of_id i ?a) = contents (of_id i ?b)" if "i \<in> set (ready_ids ?a)" for i
    using complete_contents [OF ms ca [OF ne [OF that]]] .
  ultimately show ?thesis
    using DecodeChannels_eq [of txs E batch chainID] DecodeChannels_eq [of txs' E batch chainID]
      complete_accepted [OF ca] complete_accepted [OF cb]
    by (auto intro!: mapE_cong)
qed

subsection \<open>A submission of two frames\<close>

definition sample_batch :: BlockBatch where
  "sample_batch = \<lparr>bat_Index = 7, bat_Root = 0, bat_Size = 2, bat_PrevTotalElements = 0, bat_ExtraData = '''', bat_BlockNumber = 40,
     bat_Timestamp = 500, bat_Submitter = 3, bat_L1TransactionHash = 77\<rparr>"

definition sample_data :: bytes where
  "sample_data = [1, 1] @ encodeSpan sample_span"

definition sample_frame :: "u16 \<Rightarrow> Frame" where
  "sample_frame n = \<lparr>fr_ID = 5, fr_Number = n, fr_Last = (n = 1), fr_Data = (if n = 0 then take 9 sample_data else drop 9 sample_data)\<rparr>"

definition sample_tx :: "Frame list \<Rightarrow> BlobTransaction" where
  "sample_tx fs = \<lparr>btx_Hash = 21, btx_BlockHash = 22, btx_Height = 39, btx_Timestamp = 480, btx_TxIndex = 0, btx_Missing = False,
     btx_Frames = fs\<rparr>"

lemma sample_complete:
  assumes "fs = [sample_frame 0, sample_frame 1] \<or> fs = [sample_frame 1, sample_frame 0]"
  shows "of_id 5 (txSources (sample_tx fs)) = txSources (sample_tx fs)" "complete (txSources (sample_tx fs))"
proof -
  show "of_id 5 (txSources (sample_tx fs)) = txSources (sample_tx fs)"
    using assms by (auto simp: of_id_def txSources_def sample_tx_def sample_frame_def)
  have "length (drop 9 sample_data) + length (take 9 sample_data) < 1100"
    using length_sample_span by (simp add: sample_data_def)
  with assms show "complete (txSources (sample_tx fs))"
    by (auto simp: complete_def txSources_def sample_tx_def sample_frame_def size_of_def MaxChannelBytes_def)
qed

lemma sample_contents:
  "contents (txSources (sample_tx [sample_frame 0, sample_frame 1])) = (sample_data, [21], 480)"
proof -
  have "kept (txSources (sample_tx [sample_frame 0, sample_frame 1])) = txSources (sample_tx [sample_frame 0, sample_frame 1])"
    by (rule complete_kept(1) [OF sample_complete(2)]) simp
  then show ?thesis
    by (simp add: contents_def ordered_def txSources_def sample_tx_def sample_frame_def firsts_def oldest_def min_absorb2)
qed

lemma frames_in_any_order_sample:
  "DecodeChannels sample_codec [sample_tx [sample_frame 0, sample_frame 1]] sample_batch 1088 =
   DecodeChannels sample_codec [sample_tx [sample_frame 1, sample_frame 0]] sample_batch 1088"
proof (rule frames_in_any_order)
  show "mset (concat (map txSources [sample_tx [sample_frame 0, sample_frame 1]])) =
      mset (concat (map txSources [sample_tx [sample_frame 1, sample_frame 0]]))"
    by (simp add: txSources_def sample_tx_def add_mset_commute)
  let ?ss = "concat (map txSources [sample_tx [sample_frame 0, sample_frame 1]])"
  have "complete (of_id 5 ?ss)" using sample_complete [of "[sample_frame 0, sample_frame 1]"] by simp
  moreover have "fr_ID (fs_frame s) = 5" if "s \<in> set ?ss" for s
    using that by (auto simp: txSources_def sample_tx_def sample_frame_def)
  ultimately show "list_all (\<lambda>s. complete (of_id (fr_ID (fs_frame s)) ?ss)) ?ss" by (simp add: list_all_iff)
qed

lemma sample_submission:
  "\<exists>ch. DecodeChannels sample_codec [sample_tx [sample_frame 0, sample_frame 1]] sample_batch 1088 = Inr [ch] \<and>
     length (bc_Blocks ch) = 2"
proof -
  let ?ss = "concat (map txSources [sample_tx [sample_frame 0, sample_frame 1]])"
  note c = sample_complete [of "[sample_frame 0, sample_frame 1]", simplified]
  have id: "(\<lambda>s. fr_ID (fs_frame s)) ` set ?ss = {5}" by (auto simp: txSources_def sample_tx_def sample_frame_def)
  have all: "complete (of_id i ?ss)" if "of_id i ?ss \<noteq> []" for i
    using that c by (cases "i = 5") (auto simp: of_id_def txSources_def sample_tx_def sample_frame_def)
  have ids: "ready_ids ?ss = [5]" unfolding ready_ids_def id using complete_kept(2) [OF c(2)] c(1) by simp
  obtain blocks where dec: "decodeChannel sample_codec sample_data 7 1088 = Inr blocks" and len: "length blocks = 2"
    and idx: "map blk_Index blocks = [0, 1]"
    using sample_channel_blocks [folded sample_data_def] by (elim exE conjE) (rule that)
  from arg_cong [OF idx, of set] have "blk_Index ` set blocks = {0, 1}" by simp
  then have io: "blk_Index b = 0 \<or> blk_Index b = 1" if "b \<in> set blocks" for b using that by blast
  have "\<not> outsideBatch sample_batch b" if "b \<in> set blocks" for b
    using io [OF that] by (auto simp: outsideBatch_def sample_batch_def word_le_nat_alt)
  then have out: "\<not> list_ex (outsideBatch sample_batch) blocks" by (auto simp: list_ex_iff)
  have b: "blocks \<noteq> []" "bat_Index sample_batch = 7" using len by (auto simp: sample_batch_def)
  show ?thesis
    using DecodeChannels_eq [of "[sample_tx [sample_frame 0, sample_frame 1]]" sample_codec sample_batch 1088]
      complete_accepted [OF all] ids c(1) sample_contents dec len out b
    by (simp add: finishChannel_def)
qed

end
