(* ===== verification/Beacon.thy ===== *)
theory Beacon
  imports Frames Strconv
begin

text \<open>
  \<open>internal/blob/beacon.go\<close>: the client of the Beacon API.  \<open>request\<close> sorts every
  outcome of a request into a value, \<open>ErrMissing\<close>, \<open>ErrInvalid\<close> or an error that is
  worth a retry; \<open>Slot\<close> caches the clock of the chain; \<open>Frames\<close> matches the
  returned Blobs with the versioned hashes of the transaction.

  URL handling, the HTTP client, the JSON decoder and KZG commitments are parameters.  The
  answer to a request depends on how many requests were made before.
\<close>

section \<open>Model\<close>

text \<open>A response: its status, the bytes of its body that can be read and whether reading then ends without an error.\<close>

record response =
  rp_Status :: int
  rp_Body :: bytes
  rp_Complete :: bool

text \<open>
  \<open>bn_url\<close>: the configured URL parses; \<open>bn_newRequest\<close>: the request for a path can be
  built; \<open>bn_Do\<close>: the answer to the request with a given number, \<open>None\<close> when it fails.
  \<open>bn_genesis\<close> and \<open>bn_spec\<close> decode the two clock documents to the text of their field;
  \<open>bn_data\<close> decodes the \<open>data\<close> of the Blob document, where the inner \<open>None\<close> is
  a missing or null member; \<open>bn_blobs\<close> decodes it as an array of byte strings.
  \<open>bn_versionedHash\<close> is \<open>CalcBlobHashV1\<close> of \<open>BlobToCommitment\<close>.
\<close>

record beacon_env =
  bn_url :: bool
  bn_newRequest :: "string \<Rightarrow> bool"
  bn_Do :: "nat \<Rightarrow> string \<Rightarrow> hash list \<Rightarrow> response option"
  bn_genesis :: "bytes \<Rightarrow> string option"
  bn_spec :: "bytes \<Rightarrow> string option"
  bn_data :: "bytes \<Rightarrow> string option option"
  bn_blobs :: "string \<Rightarrow> bytes list option"
  bn_versionedHash :: "bytes \<Rightarrow> hash option"

record Beacon =
  bc_genesis :: u64
  bc_seconds :: u64
  bc_clockReady :: bool
  bc_calls :: nat

type_synonym 'a beacon = "(Beacon, 'a) prog"

definition NewBeacon :: Beacon where
  "NewBeacon = \<lparr>bc_genesis = 0, bc_seconds = 0, bc_clockReady = False, bc_calls = 0\<rparr>"

text \<open>The part of \<open>types.Header\<close> the Blob code reads.\<close>

record blobHeader =
  bh_Number :: "int option"
  bh_Hash :: hash
  bh_Time :: u64
  bh_SlotNumber :: "u64 option"

definition blobsPath :: string where
  "blobsPath = ''/eth/v1/beacon/blobs/''"

definition maxResponse :: nat where
  "maxResponse = 33554432"

definition retryable :: "string \<Rightarrow> error" where
  "retryable m = Err ErrOther m"

definition missing :: error where
  "missing = Err ErrMissing ''blob data unavailable''"

text \<open>What \<open>request\<close> makes of a response.\<close>

definition classify :: "string \<Rightarrow> response \<Rightarrow> bytes result" where
  "classify path r =
     (if rp_Status r = 404 \<and> take (length blobsPath) path = blobsPath then Inl missing
      else if \<not> rp_Complete r \<and> length (rp_Body r) \<le> maxResponse then Inl (retryable ''Beacon response read failed'')
      else let raw = take (maxResponse + 1) (rp_Body r) in
        if maxResponse < length raw then Inl (invalid ''oversized Beacon response'')
        else if rp_Status r < 200 \<or> 300 \<le> rp_Status r then
          if rp_Status r = 429 \<or> 500 \<le> rp_Status r then Inl (retryable ''Beacon HTTP; retry'')
          else Inl (invalid ''Beacon HTTP (configuration or unsupported API)'')
        else Inr raw)"

definition request :: "beacon_env \<Rightarrow> string \<Rightarrow> hash list \<Rightarrow> (bytes \<Rightarrow> 'a option) \<Rightarrow> 'a beacon" where
  "request E path query decode =
     (if \<not> bn_url E then throw (invalid ''invalid Beacon URL'')
      else if \<not> bn_newRequest E path then throw (retryable ''Beacon request construction failed'')
      else bindM (\<lambda>b. (Inr (bn_Do E (bc_calls b) path query), b\<lparr>bc_calls := Suc (bc_calls b)\<rparr>)) (\<lambda>resp.
        case resp of None \<Rightarrow> throw (retryable ''Beacon request failed'')
        | Some r \<Rightarrow> bindM (liftE (classify path r)) (\<lambda>raw.
            case decode raw of None \<Rightarrow> throw (invalid ''malformed Beacon JSON'') | Some v \<Rightarrow> ret v)))"

definition readClock :: "beacon_env \<Rightarrow> unit beacon" where
  "readClock E =
     bindM (request E ''/eth/v1/beacon/genesis'' [] (bn_genesis E)) (\<lambda>genesis.
     bindM (request E ''/eth/v1/config/spec'' [] (bn_spec E)) (\<lambda>spec.
       case (ParseUint genesis, ParseUint spec) of
         (Some g, Some s) \<Rightarrow>
           if s = 0 then throw (invalid ''invalid Beacon clock'')
           else modifyM (\<lambda>b. b\<lparr>bc_genesis := g, bc_seconds := s, bc_clockReady := True\<rparr>)
       | _ \<Rightarrow> throw (invalid ''invalid Beacon clock'')))"

text \<open>Division by zero panics in Go.\<close>

definition Slot :: "beacon_env \<Rightarrow> blobHeader option \<Rightarrow> u64 beacon" where
  "Slot E header = (case header of None \<Rightarrow> throw (invalid ''missing Blob header'')
     | Some h \<Rightarrow> (case bh_SlotNumber h of Some n \<Rightarrow> ret n
       | None \<Rightarrow>
          bindM getM (\<lambda>b.
          bindM (if bc_clockReady b then ret () else readClock E) (\<lambda>_.
          bindM getM (\<lambda>b.
            if bh_Time h < bc_genesis b then throw (invalid ''timestamp precedes Beacon genesis'')
            else if bc_seconds b = 0 then throw panic
            else ret ((bh_Time h - bc_genesis b) div bc_seconds b))))))"

text \<open>\<open>maps\<close> of wanted hashes: the hashes without repetitions, in order of their first occurrence.\<close>

definition wantedHashes :: "hash list \<Rightarrow> hash list" where
  "wantedHashes hashes = foldl (\<lambda>w h. if h \<in> set w then w else w @ [h]) [] hashes"

definition matchBlob :: "beacon_env \<Rightarrow> hash list \<Rightarrow> bytes \<Rightarrow> (hash \<rightharpoonup> Frame list) \<Rightarrow> (hash \<rightharpoonup> Frame list) result" where
  "matchBlob E wanted raw byHash =
     (if length raw \<noteq> 131072 then Inl (invalid ''wrong Blob length'')
      else case bn_versionedHash E raw of
        None \<Rightarrow> Inl (invalid ''invalid KZG Blob'')
      | Some h \<Rightarrow>
          if h \<notin> set wanted then Inl (invalid ''unexpected Blob hash'')
          else if byHash h \<noteq> None then Inl (invalid ''duplicate returned Blob'')
          else bindE (DecodeBlob raw) (\<lambda>data.
            bindE (ParseFrames data) (\<lambda>frames. Inr (byHash(h \<mapsto> frames)))))"

definition joinFrames :: "(hash \<rightharpoonup> Frame list) \<Rightarrow> hash list \<Rightarrow> Frame list result" where
  "joinFrames byHash hashes = foldE (\<lambda>h frames. case byHash h of None \<Rightarrow> Inl missing | Some f \<Rightarrow> Inr (frames @ f)) hashes []"

text \<open>What is made of the \<open>data\<close> member of the Blob document.\<close>

definition matchBlobs :: "beacon_env \<Rightarrow> hash list \<Rightarrow> string option \<Rightarrow> Frame list result" where
  "matchBlobs E hashes data =
     (case data of None \<Rightarrow> Inl (invalid ''missing blobs array'')
      | Some d \<Rightarrow> (case bn_blobs E d of None \<Rightarrow> Inl (invalid ''malformed blobs array'')
        | Some blobs \<Rightarrow>
            bindE (foldE (matchBlob E (wantedHashes hashes)) blobs Map.empty) (\<lambda>byHash. joinFrames byHash hashes)))"

definition Frames :: "beacon_env \<Rightarrow> blobHeader option \<Rightarrow> hash list \<Rightarrow> Frame list beacon" where
  "Frames E h hashes =
     bindM (Slot E h) (\<lambda>slot.
     bindM (request E (blobsPath @ decimal (unat slot)) (wantedHashes hashes) (bn_data E)) (\<lambda>data.
       liftE (matchBlobs E hashes data)))"

section \<open>The clock\<close>

definition clock_ok :: "Beacon \<Rightarrow> bool" where
  "clock_ok b \<longleftrightarrow> (bc_clockReady b \<longrightarrow> bc_seconds b \<noteq> 0)"

text \<open>A request changes nothing but the count of requests; its errors fall into three classes.\<close>

definition beacon_error :: "error \<Rightarrow> bool" where
  "beacon_error e \<longleftrightarrow> e = missing \<or> (\<exists>m. e = invalid m) \<or> (\<exists>m. e = retryable m \<and> e \<noteq> panic)"

lemma beacon_error_simps [simp]: "beacon_error missing" "beacon_error (invalid m)"
  by (auto simp: beacon_error_def)

lemma classify_error: "classify path r = Inl e \<Longrightarrow> beacon_error e"
  by (auto simp: classify_def Let_def beacon_error_def retryable_def panic_def split: if_splits)

lemma request_run:
  assumes "request E path query decode b = (r, b')"
  shows "bc_clockReady b' = bc_clockReady b \<and> bc_seconds b' = bc_seconds b \<and> bc_genesis b' = bc_genesis b" "r = Inl e \<Longrightarrow> beacon_error e"
proof -
  from assms show "bc_clockReady b' = bc_clockReady b \<and> bc_seconds b' = bc_seconds b \<and> bc_genesis b' = bc_genesis b"
    by (auto simp: request_def bindM_def split: if_splits option.splits prod.splits sum.splits)
  show "beacon_error e" if "r = Inl e"
    using assms that
    by (auto simp: request_def bindM_def beacon_error_def retryable_def panic_def
        split: if_splits option.splits prod.splits sum.splits dest!: classify_error)
qed

lemma readClock_run:
  assumes "readClock E b = (r, b')"
  shows "clock_ok b \<Longrightarrow> clock_ok b'" "r = Inl e \<Longrightarrow> beacon_error e" "r = Inr u \<Longrightarrow> bc_clockReady b' \<and> bc_seconds b' \<noteq> 0"
proof -
  obtain r1 b1 where a: "request E ''/eth/v1/beacon/genesis'' [] (bn_genesis E) b = (r1, b1)" by fastforce
  obtain r2 b2 where c: "request E ''/eth/v1/config/spec'' [] (bn_spec E) b1 = (r2, b2)" by fastforce
  note bs = request_run(1) [OF a] request_run(1) [OF c]
  from assms show "clock_ok b'" if "clock_ok b"
    using that bs a c by (auto simp: readClock_def bindM_def clock_ok_def split: sum.splits option.splits if_splits)
  from assms show "beacon_error e" if "r = Inl e"
    using that request_run(2) [OF a] request_run(2) [OF c] a c
    by (auto simp: readClock_def bindM_def split: sum.splits option.splits if_splits)
  from assms show "bc_clockReady b' \<and> bc_seconds b' \<noteq> 0" if "r = Inr u"
    using that a c by (auto simp: readClock_def bindM_def split: sum.splits option.splits if_splits)
qed

definition slot_contains :: "Beacon \<Rightarrow> u64 \<Rightarrow> u64 \<Rightarrow> bool" where
  "slot_contains b n time \<longleftrightarrow> unat (bc_genesis b) + unat n * unat (bc_seconds b) \<le> unat time \<and>
     unat time < unat (bc_genesis b) + (unat n + 1) * unat (bc_seconds b)"

lemma slot_arith:
  assumes "\<not> t < g" "s \<noteq> 0"
  shows "unat (g :: u64) + unat ((t - g) div s) * unat s \<le> unat t" "unat t < unat g + (unat ((t - g) div s) + 1) * unat s"
proof -
  have le: "unat g \<le> unat t" using assms(1) by (simp add: word_less_nat_alt)
  have q: "unat ((t - g) div s) = (unat t - unat g) div unat s" using assms(1) by (simp add: unat_div unat_sub not_less)
  have s: "0 < unat s" using assms(2) by (simp add: unat_gt_0)
  have "(unat t - unat g) div unat s * unat s \<le> unat t - unat g" by simp
  then show "unat g + unat ((t - g) div s) * unat s \<le> unat t" unfolding q using le by linarith
  have "unat t - unat g < ((unat t - unat g) div unat s + 1) * unat s" using dividend_less_div_times [OF s] by simp
  then show "unat t < unat g + (unat ((t - g) div s) + 1) * unat s" unfolding q using le by linarith
qed

definition slot_outcome :: "blobHeader \<Rightarrow> Beacon \<Rightarrow> u64 result \<times> Beacon \<Rightarrow> bool" where
  "slot_outcome h b = (\<lambda>(r, b'). clock_ok b' \<and> (case r of
     Inl e \<Rightarrow> beacon_error e \<and> e \<noteq> panic
   | Inr n \<Rightarrow> (case bh_SlotNumber h of Some k \<Rightarrow> n = k \<and> b' = b | None \<Rightarrow> bc_clockReady b' \<and> slot_contains b' n (bh_Time h))))"

lemma missing_not_panic [simp]: "missing \<noteq> panic" "invalid m \<noteq> panic" "panic \<noteq> missing" "panic \<noteq> invalid m"
  by (simp_all add: missing_def invalid_def panic_def)

lemma beacon_error_not_panic: "beacon_error e \<Longrightarrow> e \<noteq> panic"
  by (auto simp: beacon_error_def)

lemma Slot_run:
  assumes ok: "clock_ok b"
  shows "slot_outcome h b (Slot E (Some h) b)"
proof (cases "bh_SlotNumber h")
  case (Some k)
  with ok show ?thesis by (simp add: Slot_def slot_outcome_def)
next
  case None
  obtain r b1 where c: "(if bc_clockReady b then ret () else readClock E) b = (r, b1)" by fastforce
  have run: "clock_ok b1 \<and> (\<forall>e. r = Inl e \<longrightarrow> beacon_error e) \<and> (\<forall>u. r = Inr u \<longrightarrow> bc_clockReady b1 \<and> bc_seconds b1 \<noteq> 0)"
  proof (cases "bc_clockReady b")
    case True
    with c ok show ?thesis by (auto simp: clock_ok_def)
  next
    case False
    with c have "readClock E b = (r, b1)" by simp
    from readClock_run [OF this] ok show ?thesis by blast
  qed
  then have ok1: "clock_ok b1" and err: "\<And>e. r = Inl e \<Longrightarrow> beacon_error e" and rdy: "\<And>u. r = Inr u \<Longrightarrow> bc_clockReady b1 \<and> bc_seconds b1 \<noteq> 0"
    by blast+
  show ?thesis
  proof (cases r)
    case (Inl e)
    with None c ok1 err beacon_error_not_panic show ?thesis by (simp add: Slot_def slot_outcome_def bindM_def)
  next
    case (Inr u)
    with rdy have s: "bc_clockReady b1" "bc_seconds b1 \<noteq> 0" by auto
    with None c Inr ok1 slot_arith [of "bh_Time h" "bc_genesis b1" "bc_seconds b1"] show ?thesis
      by (auto simp: Slot_def slot_outcome_def bindM_def slot_contains_def)
  qed
qed

section \<open>Matching Blobs\<close>

text \<open>A Blob that carries frames: it is the packing of their encodings.\<close>

definition carries :: "bytes \<Rightarrow> Frame list \<Rightarrow> bool" where
  "carries raw fs \<longleftrightarrow> fs \<noteq> [] \<and> list_all frame_ok fs \<and> length ([0] @ concat (map encodeFrame fs)) \<le> 130044 \<and>
     raw = encodeBlob ([0] @ concat (map encodeFrame fs))"

lemma carries_decoded:
  assumes "DecodeBlob raw = Inr data" "ParseFrames data = Inr fs"
  shows "carries raw fs"
proof -
  from assms(2) have fs: "fs \<noteq> []" "list_all frame_ok fs" "data = [0] @ concat (map encodeFrame fs)"
    by (simp_all add: ParseFrames_iff)
  from assms(1) have ok: "blob_ok raw" "data = blob_payload raw" by (simp_all add: DecodeBlob_meaning)
  then have len: "length data \<le> 130044" using length_blob_payload [OF ok(1)] by (simp add: blob_ok_def)
  have "raw = encodeBlob data" using blob_ok_canonical [OF ok(1) blob_ok_encodeBlob(1) [OF len]] blob_ok_encodeBlob(2) [OF len] ok(2) by simp
  with fs len show ?thesis by (simp add: carries_def)
qed

lemma matchBlob_step:
  "matchBlob E wanted raw m = Inr m' \<Longrightarrow> \<exists>h fs. bn_versionedHash E raw = Some h \<and> carries raw fs \<and> m' = m(h \<mapsto> fs)"
  by (fastforce simp: matchBlob_def bindE_Inr intro: carries_decoded split: if_splits option.splits)

definition authentic :: "beacon_env \<Rightarrow> (hash \<rightharpoonup> Frame list) \<Rightarrow> bool" where
  "authentic E m \<longleftrightarrow> (\<forall>h fs. m h = Some fs \<longrightarrow> (\<exists>raw. bn_versionedHash E raw = Some h \<and> carries raw fs))"

lemma matchBlobs_authentic: "foldE (matchBlob E wanted) blobs Map.empty = Inr m \<Longrightarrow> authentic E m"
  by (erule foldE_invariant) (auto simp: authentic_def dest!: matchBlob_step split: if_splits)

lemma joinFrames_parts:
  "foldE (\<lambda>h frames. case byHash h of None \<Rightarrow> Inl missing | Some f \<Rightarrow> Inr (frames @ f)) hashes acc = Inr frames \<Longrightarrow>
     \<exists>parts. list_all2 (\<lambda>h fs. byHash h = Some fs) hashes parts \<and> frames = acc @ concat parts"
proof (induction hashes arbitrary: acc)
  case (Cons h hashes)
  from Cons.prems obtain f where f: "byHash h = Some f"
    and run: "foldE (\<lambda>h frames. case byHash h of None \<Rightarrow> Inl missing | Some f \<Rightarrow> Inr (frames @ f)) hashes (acc @ f) = Inr frames"
    by (auto simp: bindE_Inr split: option.splits)
  from Cons.IH [OF run] obtain parts where "list_all2 (\<lambda>h fs. byHash h = Some fs) hashes parts" "frames = (acc @ f) @ concat parts" by blast
  with f show ?case by (intro exI [of _ "f # parts"]) simp
qed simp

section \<open>The properties of the Beacon client\<close>

text \<open>C32.
  The frames that \<open>Frames\<close> returns are authentic and complete: there is, for each
  versioned hash of the transaction and in their order, a Blob with that hash, and the result is the
  concatenation of the frames whose packing these Blobs are.  A Blob that was not asked for, a
  repeated Blob or one that is not a packing of frames never contributes.\<close>

theorem Frames_authentic:
  assumes "Frames E h hashes b = (Inr frames, b')"
  shows "\<exists>parts. frames = concat parts \<and>
    list_all2 (\<lambda>hash fs. \<exists>raw. bn_versionedHash E raw = Some hash \<and> carries raw fs) hashes parts"
proof -
  from assms obtain data where "matchBlobs E hashes data = Inr frames" by (auto simp: Frames_def bindM_Inr)
  then obtain blobs m where m: "foldE (matchBlob E (wantedHashes hashes)) blobs Map.empty = Inr m" and j: "joinFrames m hashes = Inr frames"
    by (auto simp: matchBlobs_def bindE_Inr split: option.splits)
  from matchBlobs_authentic [OF m] joinFrames_parts [OF j [unfolded joinFrames_def]] show ?thesis
    unfolding authentic_def by (auto elim!: list_all2_mono)
qed

text \<open>C39.
  \<open>Slot\<close> gives the slot number of the header, or else the slot whose time interval
  contains the timestamp of the header, without underflow and without division by zero, whether
  the clock was cached or read now; its errors are \<open>ErrMissing\<close>, \<open>ErrInvalid\<close> or
  worth a retry, and a clock that is kept has a positive slot length.\<close>

theorem Slot_bounds:
  assumes "clock_ok b"
  shows "slot_outcome h b (Slot E (Some h) b)"
  using assms by (rule Slot_run)

subsection \<open>A Blob with one frame\<close>

definition one_frame :: Frame where
  "one_frame = \<lparr>fr_ID = 5, fr_Number = 0, fr_Last = True, fr_Data = []\<rparr>"

definition one_blob :: bytes where
  "one_blob = encodeBlob ([0] @ encodeFrame one_frame)"

definition sample_beacon :: beacon_env where
  "sample_beacon = \<lparr>bn_url = True, bn_newRequest = (\<lambda>_. True), bn_Do = (\<lambda>_ _ _. Some \<lparr>rp_Status = 200, rp_Body = [], rp_Complete = True\<rparr>),
     bn_genesis = (\<lambda>_. Some ''100''), bn_spec = (\<lambda>_. Some ''12''), bn_data = (\<lambda>_. Some (Some [])),
     bn_blobs = (\<lambda>_. Some [one_blob]), bn_versionedHash = (\<lambda>_. Some 17)\<rparr>"

definition sample_header :: "u64 option \<Rightarrow> blobHeader" where
  "sample_header slot = \<lparr>bh_Number = Some 39, bh_Hash = 22, bh_Time = 480, bh_SlotNumber = slot\<rparr>"

lemma one_blob_frames: "length one_blob = 131072" "DecodeBlob one_blob = Inr ([0] @ encodeFrame one_frame)"
  "ParseFrames ([0] @ encodeFrame one_frame) = Inr [one_frame]"
proof -
  have len: "length ([0] @ encodeFrame one_frame) \<le> 130044" by (simp add: encodeFrame_def one_frame_def)
  show "length one_blob = 131072" unfolding one_blob_def by (rule length_encodeBlob [OF len])
  show "DecodeBlob one_blob = Inr ([0] @ encodeFrame one_frame)"
    using blob_ok_encodeBlob [OF len] by (simp add: DecodeBlob_meaning one_blob_def)
  show "ParseFrames ([0] @ encodeFrame one_frame) = Inr [one_frame]"
    by (simp add: ParseFrames_iff frame_ok_def one_frame_def MaxFrameBytes_def)
qed

lemma sample_Frames: "fst (Frames sample_beacon (Some (sample_header (Some 3))) [17] NewBeacon) = Inr [one_frame]"
proof -
  have m: "matchBlobs sample_beacon [17] (Some []) = Inr [one_frame]"
    using one_blob_frames
    by (simp add: matchBlobs_def matchBlob_def joinFrames_def wantedHashes_def sample_beacon_def)
  show ?thesis
    unfolding Frames_def Slot_def request_def bindM_def
    by (simp add: sample_header_def classify_def maxResponse_def m sample_beacon_def [THEN arg_cong, of bn_url]
      sample_beacon_def [THEN arg_cong, of bn_newRequest] sample_beacon_def [THEN arg_cong, of bn_Do] sample_beacon_def [THEN arg_cong, of bn_data])
qed

theorem Frames_authentic_witness:
  "\<exists>b' parts. Frames sample_beacon (Some (sample_header (Some 3))) [17] NewBeacon = (Inr [one_frame], b') \<and> [one_frame] = concat parts \<and>
     list_all2 (\<lambda>hash fs. \<exists>raw. bn_versionedHash sample_beacon raw = Some hash \<and> carries raw fs) [17] parts"
proof -
  obtain b' where run: "Frames sample_beacon (Some (sample_header (Some 3))) [17] NewBeacon = (Inr [one_frame], b')"
    using sample_Frames by (cases "Frames sample_beacon (Some (sample_header (Some 3))) [17] NewBeacon") simp
  from run Frames_authentic [OF run] show ?thesis by blast
qed

lemma sample_parse: "ParseUint ''100'' = Some 100" "ParseUint ''12'' = Some 12"
  by (simp_all add: ParseUint_def isDigit_def decimalValue_def of_char_def)

text \<open>A timestamp of 480, 380 seconds after genesis, is in slot 31.\<close>

theorem Slot_bounds_witness:
  "clock_ok NewBeacon \<and> slot_outcome (sample_header None) NewBeacon (Slot sample_beacon (Some (sample_header None)) NewBeacon) \<and>
     fst (Slot sample_beacon (Some (sample_header None)) NewBeacon) = Inr 31"
proof -
  have ok: "clock_ok NewBeacon" by (simp add: clock_ok_def NewBeacon_def)
  have "fst (Slot sample_beacon (Some (sample_header None)) NewBeacon) = Inr 31"
    unfolding Slot_def readClock_def request_def bindM_def
    by (simp add: sample_header_def NewBeacon_def sample_beacon_def classify_def maxResponse_def sample_parse)
  with ok Slot_bounds [OF ok, of "sample_header None" sample_beacon] show ?thesis by simp
qed

end
