(* ===== verification/Server.thy ===== *)
theory Server
  imports BlobReads Status Config Beacon
begin

text \<open>
  \<open>internal/server/\<close>: the HTTP API.  \<open>route\<close> is the table of \<open>Handler\<close> for the
  decoded segments of the path (none is empty), \<open>dataHandler\<close> the guard in front of the data
  routes.  Between the guard and the endpoint, and during every RPC call, other goroutines may
  change the store and the status.  The execution RPC and the clock are parameters.  A response is
  its status code and the value that \<open>reply\<close> encodes.
\<close>

section \<open>Data\<close>

text \<open>\<open>hr_backend\<close> is \<open>r.URL.Query()["backend"]\<close>, absent if the parameter is not given.\<close>

record httpRequest =
  hr_Method :: string
  hr_Path :: "string list"
  hr_backend :: "string list option"

text \<open>\<open>EnqueueBody None\<close> and \<open>ContextBody None\<close> are the objects with null fields.\<close>

datatype body =
    AliveBody
  | ReadyBody bool
  | ErrorBody error
  | EnqueueBody "Enqueue option"
  | HighestBody "u64 option"
  | SyncingBody bool
  | TransactionBody
  | BlockBody BlockResponse
  | ContextBody "(u64 \<times> hash \<times> u64) option"
  | NotFoundBody
  | MethodBody
  | PanicBody

record httpResponse =
  hs_Code :: nat
  hs_Body :: body

record server_env =
  sv_Config :: Config
  sv_HeaderByNumber :: "nat \<Rightarrow> u64 option \<Rightarrow> blobHeader option result"
  sv_now :: "nat \<Rightarrow> u64"
  sv_others :: "nat \<Rightarrow> Store \<times> Status \<Rightarrow> Store \<times> Status"

record Server =
  sr_Store :: Store
  sr_Status :: Status
  sr_calls :: nat

text \<open>The wildcards of a pattern; the empty string if the pattern does not have it.\<close>

record pathValues =
  pv_chainId :: string
  pv_index :: string
  pv_number :: string

datatype endpoint = Enqueue_ep | Context_ep | Highest_ep | Syncing_ep | Transaction_ep | Block_ep

datatype target = Health | Readiness | Data endpoint pathValues

definition no_values :: pathValues where
  "no_values = \<lparr>pv_chainId = [], pv_index = [], pv_number = []\<rparr>"

definition route :: "string list \<Rightarrow> target option" where
  "route path = (case path of
     [a] \<Rightarrow> if a = ''healthz'' then Some Health else if a = ''readyz'' then Some Readiness else None
   | [a, b] \<Rightarrow> if a = ''highest'' \<and> b = ''l1'' then Some (Data Highest_ep no_values) else None
   | [a, b, c] \<Rightarrow>
       let chain = no_values\<lparr>pv_chainId := c\<rparr> in
       if a = ''eth'' \<and> b = ''context'' \<and> c = ''latest'' then Some (Data Context_ep no_values)
       else if a = ''eth'' \<and> b = ''syncing'' then Some (Data Syncing_ep chain)
       else if a = ''enqueue'' \<and> b = ''latest'' then Some (Data Enqueue_ep chain)
       else if a = ''transaction'' \<and> b = ''latest'' then Some (Data Transaction_ep chain)
       else if a = ''block'' \<and> b = ''latest'' then Some (Data Block_ep chain) else None
   | [a, b, c, d] \<Rightarrow>
       let indexed = no_values\<lparr>pv_index := c, pv_chainId := d\<rparr> in
       if a = ''eth'' \<and> b = ''context'' \<and> c = ''blocknumber'' then Some (Data Context_ep (no_values\<lparr>pv_number := d\<rparr>))
       else if a = ''enqueue'' \<and> b = ''index'' then Some (Data Enqueue_ep indexed)
       else if a = ''transaction'' \<and> b = ''index'' then Some (Data Transaction_ep indexed)
       else if a = ''block'' \<and> b = ''index'' then Some (Data Block_ep indexed) else None
   | _ \<Rightarrow> None)"

section \<open>Parameters\<close>

definition bad :: "string \<Rightarrow> error" where
  "bad m = Err ErrOther m"

definition uintParam :: "string \<Rightarrow> u64 result" where
  "uintParam v = (if v = [] then Inl (bad ''empty integer'')
     else if \<not> list_all isDigit v then Inl (bad ''invalid integer'')
     else case ParseUint v of None \<Rightarrow> Inl (bad ''value out of range'') | Some n \<Rightarrow> Inr n)"

definition checkChain :: "server_env \<Rightarrow> string \<Rightarrow> unit result" where
  "checkChain E chain = (if chain = [] then Inr ()
     else case uintParam chain of Inl _ \<Rightarrow> Inl (bad ''unknown or invalid chain ID'')
       | Inr n \<Rightarrow> if n \<noteq> c_L2ChainID (sv_Config E) then Inl (bad ''unknown or invalid chain ID'') else Inr ())"

definition validateRequest :: "server_env \<Rightarrow> httpRequest \<Rightarrow> pathValues \<Rightarrow> u64 option result" where
  "validateRequest E r pv =
     bindE (checkChain E (pv_chainId pv)) (\<lambda>_.
     bindE (case hr_backend r of None \<Rightarrow> Inr ()
            | Some backend \<Rightarrow> if backend \<noteq> [''l1''] then Inl (bad ''only backend=l1 is supported'') else Inr ()) (\<lambda>_.
       if pv_index pv = [] then Inr None
       else case uintParam (pv_index pv) of Inl _ \<Rightarrow> Inl (bad ''invalid index'') | Inr n \<Rightarrow> Inr (Some n)))"

section \<open>Endpoints\<close>

text \<open>An endpoint returns a value with its code, or an error with its code.\<close>

type_synonym answer = "nat \<times> (error + body)"

definition yieldS :: "server_env \<Rightarrow> Server \<Rightarrow> Server" where
  "yieldS E s = (let n = sr_calls s; (st, status) = sv_others E n (sr_Store s, sr_Status s)
     in s\<lparr>sr_Store := st, sr_Status := status, sr_calls := Suc n\<rparr>)"

text \<open>\<open>s.Status.Set(false, err)\<close> and the answer 503.\<close>

definition fail :: "error \<Rightarrow> Server \<Rightarrow> answer \<times> Server" where
  "fail e s = (case setStatus False (Some e) (sr_Status s) of
     None \<Rightarrow> ((500, Inr PanicBody), s)
   | Some st \<Rightarrow> ((503, Inl e), s\<lparr>sr_Status := st\<rparr>))"

definition enqueue :: "u64 option \<Rightarrow> Server \<Rightarrow> answer \<times> Server" where
  "enqueue index s = (case Get (sr_Store s) index of Inl e \<Rightarrow> fail e s
     | Inr deposit \<Rightarrow> ((200, Inr (EnqueueBody deposit)), s))"

definition highestL1 :: "Server \<Rightarrow> answer \<times> Server" where
  "highestL1 s = (case Store.State (sr_Store s) of Inl e \<Rightarrow> fail e s
     | Inr st \<Rightarrow> ((200, Inr (HighestBody (st_Height st))), s))"

definition syncing :: "Server \<Rightarrow> answer \<times> Server" where
  "syncing s = ((200, Inr (SyncingBody (\<not> fst (Snapshot (sr_Status s))))), s)"

definition transaction :: "Server \<Rightarrow> answer \<times> Server" where
  "transaction s = ((200, Inr TransactionBody), s)"

definition block :: "server_env \<Rightarrow> u64 option \<Rightarrow> Server \<Rightarrow> answer \<times> Server" where
  "block E index s = (if \<not> BlobEnabled (sv_Config E) then ((200, Inr (BlockBody empty_response)), s)
     else case GetBlock (sr_Store s) index of Inl e \<Rightarrow> fail e s | Inr r \<Rightarrow> ((200, Inr (BlockBody r)), s))"

text \<open>\<open>l1Context\<close> once the tip is known.\<close>

definition contextAt :: "server_env \<Rightarrow> u64 option \<Rightarrow> u64 \<Rightarrow> Server \<Rightarrow> answer \<times> Server" where
  "contextAt E requested tip s =
     (let confirmed = (if c_Confirmations (sv_Config E) \<le> tip then tip - c_Confirmations (sv_Config E) else 0);
          n = (case requested of None \<Rightarrow> confirmed | Some r \<Rightarrow> r) in
      if confirmed < n then ((200, Inr (ContextBody None)), s)
      else let s1 = yieldS E s in
        case sv_HeaderByNumber E (sr_calls s) (Some n) of Inl e \<Rightarrow> ((503, Inl e), s1)
        | Inr h \<Rightarrow> (case Option.bind h (\<lambda>h. map_option (Pair h) (bh_Number h)) of
            None \<Rightarrow> ((503, Inl (bad ''invalid L1 header'')), s1)
          | Some (h, i) \<Rightarrow>
              if \<not> (0 \<le> i \<and> i < 2 ^ 64) \<or> word_of_int i \<noteq> n then ((503, Inl (bad ''invalid L1 header'')), s1)
              else ((200, Inr (ContextBody (Some (n, bh_Hash h, if requested = None then sv_now E (sr_calls s1) else bh_Time h)))), s1)))"

definition l1Context :: "server_env \<Rightarrow> pathValues \<Rightarrow> Server \<Rightarrow> answer \<times> Server" where
  "l1Context E pv s =
     (case (if pv_number pv = [] then Inr None else map_sum id Some (uintParam (pv_number pv))) of
        Inl e \<Rightarrow> ((400, Inl e), s)
      | Inr requested \<Rightarrow>
          let s1 = yieldS E s in
          case sv_HeaderByNumber E (sr_calls s) None of Inl e \<Rightarrow> ((503, Inl e), s1)
          | Inr tip \<Rightarrow> (case Option.bind tip bh_Number of
              None \<Rightarrow> ((503, Inl (bad ''invalid L1 tip'')), s1)
            | Some i \<Rightarrow> if \<not> (0 \<le> i \<and> i < 2 ^ 64) then ((503, Inl (bad ''invalid L1 tip'')), s1)
                else contextAt E requested (word_of_int i) s1))"

definition handle :: "server_env \<Rightarrow> endpoint \<Rightarrow> pathValues \<Rightarrow> u64 option \<Rightarrow> Server \<Rightarrow> answer \<times> Server" where
  "handle E ep pv index = (case ep of
     Enqueue_ep \<Rightarrow> enqueue index | Context_ep \<Rightarrow> l1Context E pv | Highest_ep \<Rightarrow> highestL1
   | Syncing_ep \<Rightarrow> syncing | Transaction_ep \<Rightarrow> transaction | Block_ep \<Rightarrow> block E index)"

section \<open>Handlers\<close>

definition reply :: "nat \<Rightarrow> body \<Rightarrow> httpResponse" where
  "reply code b = \<lparr>hs_Code = code, hs_Body = b\<rparr>"

definition health :: httpResponse where
  "health = reply 200 AliveBody"

definition readiness :: "Status \<Rightarrow> httpResponse" where
  "readiness status = (case Snapshot status of (flag, err) \<Rightarrow>
     if \<not> flag \<or> err \<noteq> None then reply 503 (ReadyBody False) else reply 200 (ReadyBody True))"

definition dataHandler :: "server_env \<Rightarrow> endpoint \<Rightarrow> pathValues \<Rightarrow> httpRequest \<Rightarrow> Server \<Rightarrow> httpResponse \<times> Server" where
  "dataHandler E ep pv r s = (case snd (Snapshot (sr_Status s)) of
     Some e \<Rightarrow> (reply 503 (ErrorBody e), s)
   | None \<Rightarrow> (case validateRequest E r pv of
       Inl e \<Rightarrow> (reply 400 (ErrorBody e), s)
     | Inr index \<Rightarrow> (case handle E ep pv index (yieldS E s) of
         ((code, Inl e), s') \<Rightarrow> (reply code (ErrorBody e), s')
       | ((code, Inr v), s') \<Rightarrow> (reply code v, s'))))"

text \<open>A pattern with method GET also matches HEAD.\<close>

definition ServeHTTP :: "server_env \<Rightarrow> httpRequest \<Rightarrow> Server \<Rightarrow> httpResponse \<times> Server" where
  "ServeHTTP E r s = (case route (hr_Path r) of
     None \<Rightarrow> (reply 404 NotFoundBody, s)
   | Some t \<Rightarrow> if hr_Method r \<noteq> ''GET'' \<and> hr_Method r \<noteq> ''HEAD'' then (reply 405 MethodBody, s)
       else (case t of Health \<Rightarrow> (health, s) | Readiness \<Rightarrow> (readiness (sr_Status s), s)
         | Data ep pv \<Rightarrow> dataHandler E ep pv r s))"

section \<open>Decimal parameters\<close>

text \<open>Printing and parsing a number.\<close>

lemma uintParam_decimal: "uintParam (decimal (unat n)) = Inr n"
proof -
  have "unat n < 2 ^ 64" using unsigned_less [of n, where ?'a = nat] by simp
  with decimal_digits [of "unat n"] show ?thesis by (simp add: uintParam_def ParseUint_def)
qed

lemma uintParam_Inr:
  "uintParam v = Inr n \<longleftrightarrow> v \<noteq> [] \<and> list_all isDigit v \<and> decimalValue v = unat n"
  by (auto simp: uintParam_def ParseUint_def unat_of_nat take_bit_eq_mod split: if_splits) (use unsigned_less [of n, where ?'a = nat] in simp)

section \<open>Failing closed\<close>

definition server_others_ok :: "server_env \<Rightarrow> bool" where
  "server_others_ok E \<longleftrightarrow> (\<forall>n st ss. status_run ss (snd (sv_others E n (st, ss))))"

lemma yieldS_inv:
  assumes "server_others_ok E" "status_inv (sr_Status s)"
  shows "status_inv (sr_Status (yieldS E s))"
proof -
  obtain st ss where o: "sv_others E (sr_calls s) (sr_Store s, sr_Status s) = (st, ss)" by force
  with assms(1) have "status_run (sr_Status s) ss" unfolding server_others_ok_def by (metis snd_conv)
  with status_run_inv assms(2) o show ?thesis by (simp add: yieldS_def Let_def)
qed

text \<open>What an endpoint can answer.\<close>

definition answer_ok :: "bool \<Rightarrow> answer \<times> Server \<Rightarrow> bool" where
  "answer_ok fromStore = (\<lambda>((code, v), s). status_inv (sr_Status s) \<and> v \<noteq> Inr PanicBody \<and> code \<in> {200, 400, 503} \<and>
     (code = 200 \<longleftrightarrow> (\<exists>b. v = Inr b)) \<and> (fromStore \<and> code = 503 \<longrightarrow> ss_fatal (sr_Status s) \<noteq> None))"

lemma fail_ok:
  assumes "status_inv (sr_Status s)"
  shows "answer_ok True (fail e s)"
  using status_inv_records [OF assms, of False e] by (auto simp: fail_def answer_ok_def)

lemma contextAt_ok:
  assumes "server_others_ok E" "status_inv (sr_Status s)"
  shows "answer_ok False (contextAt E requested tip s)"
  using assms(2) yieldS_inv [OF assms]
  by (auto simp: contextAt_def answer_ok_def Let_def split: sum.splits option.splits)

lemma l1Context_ok:
  assumes "server_others_ok E" "status_inv (sr_Status s)"
  shows "answer_ok False (l1Context E pv s)"
  using assms(2) yieldS_inv [OF assms] contextAt_ok [OF assms(1) yieldS_inv [OF assms]]
  by (auto simp: l1Context_def answer_ok_def Let_def split: sum.splits option.splits)

lemma handle_ok:
  assumes "server_others_ok E" "status_inv (sr_Status s)"
  shows "answer_ok (ep \<in> {Enqueue_ep, Highest_ep, Block_ep}) (handle E ep pv index s)"
proof (cases ep)
  case Enqueue_ep
  then show ?thesis using assms(2) fail_ok [OF assms(2)]
    by (auto simp: handle_def enqueue_def answer_ok_def split: sum.splits)
next
  case Highest_ep
  then show ?thesis using assms(2) fail_ok [OF assms(2)]
    by (auto simp: handle_def highestL1_def answer_ok_def split: sum.splits)
next
  case Block_ep
  then show ?thesis using assms(2) fail_ok [OF assms(2)]
    by (auto simp: handle_def block_def answer_ok_def split: sum.splits)
next
  case Context_ep
  then show ?thesis using l1Context_ok [OF assms] by (simp add: handle_def)
qed (use assms(2) in \<open>simp_all add: handle_def syncing_def transaction_def answer_ok_def\<close>)

definition isGet :: "httpRequest \<Rightarrow> bool" where
  "isGet r \<longleftrightarrow> hr_Method r = ''GET'' \<or> hr_Method r = ''HEAD''"

lemma ServeHTTP_data:
  "route (hr_Path r) = Some (Data ep pv) \<Longrightarrow> isGet r \<Longrightarrow> ServeHTTP E r s = dataHandler E ep pv r s"
  by (auto simp: ServeHTTP_def isGet_def)

lemma dataHandler_fatal: "ss_fatal (sr_Status s) = Some e \<Longrightarrow> dataHandler E ep pv r s = (reply 503 (ErrorBody e), s)"
  by (simp add: dataHandler_def Snapshot_def)

lemma dataHandler_ok:
  assumes "server_others_ok E" "status_inv (sr_Status s)" "dataHandler E ep pv r s = (resp, s')"
  shows "status_inv (sr_Status s') \<and> hs_Code resp \<in> {200, 400, 503} \<and> hs_Body resp \<noteq> PanicBody \<and>
    (ep \<in> {Enqueue_ep, Highest_ep, Block_ep} \<and> hs_Code resp = 503 \<longrightarrow> ss_fatal (sr_Status s') \<noteq> None)"
proof (cases "snd (Snapshot (sr_Status s))")
  case (Some e)
  with assms(2,3) show ?thesis by (auto simp: dataHandler_def reply_def Snapshot_def)
next
  case None
  show ?thesis
  proof (cases "validateRequest E r pv")
    case (Inl e)
    with None assms(2,3) show ?thesis by (auto simp: dataHandler_def reply_def)
  next
    case (Inr index)
    obtain code v t where h: "handle E ep pv index (yieldS E s) = ((code, v), t)" by (metis surj_pair)
    note ok = handle_ok [OF assms(1) yieldS_inv [OF assms(1,2)], of ep pv index, unfolded h]
    from None Inr h assms(3) have "resp = reply code (case v of Inl e \<Rightarrow> ErrorBody e | Inr b \<Rightarrow> b) \<and> s' = t"
      by (cases v) (auto simp: dataHandler_def)
    with ok show ?thesis by (cases v) (auto simp: answer_ok_def reply_def)
  qed
qed

section \<open>Serving the store\<close>

definition healthy :: "server_env \<Rightarrow> httpRequest \<Rightarrow> Server \<Rightarrow> bool" where
  "healthy E r s \<longleftrightarrow> ss_fatal (sr_Status s) = None \<and> isGet r \<and> (hr_backend r = None \<or> hr_backend r = Some [''l1''])"

text \<open>Parameters of this chain with a decimal index are valid.\<close>

lemma validateRequest_valid:
  assumes "healthy E r s" "pv_chainId pv = [] \<or> pv_chainId pv = decimal (unat (c_L2ChainID (sv_Config E)))"
    and "pv_index pv = (case index of None \<Rightarrow> [] | Some n \<Rightarrow> decimal (unat n))"
  shows "validateRequest E r pv = Inr index"
proof -
  have "checkChain E (pv_chainId pv) = Inr ()"
    using assms(2) decimal_digits by (auto simp: checkChain_def uintParam_decimal)
  moreover have "(if pv_index pv = [] then Inr None
       else case uintParam (pv_index pv) of Inl _ \<Rightarrow> Inl (bad ''invalid index'') | Inr n \<Rightarrow> Inr (Some n)) = Inr index"
    using assms(3) decimal_digits by (cases index) (auto simp: uintParam_decimal)
  ultimately show ?thesis using assms(1) by (auto simp: validateRequest_def healthy_def)
qed

lemma dataHandler_serves:
  assumes "healthy E r s" "pv_chainId pv = [] \<or> pv_chainId pv = decimal (unat (c_L2ChainID (sv_Config E)))"
    and "pv_index pv = (case index of None \<Rightarrow> [] | Some n \<Rightarrow> decimal (unat n))"
    and "handle E ep pv index (yieldS E s) = ((code, Inr v), s')"
  shows "dataHandler E ep pv r s = (reply code v, s')"
  using validateRequest_valid [OF assms(1-3)] assms(1,4) by (simp add: dataHandler_def healthy_def Snapshot_def)

lemma serves:
  assumes "healthy E r s" "route (hr_Path r) = Some (Data ep pv)"
    and "pv_chainId pv = [] \<or> pv_chainId pv = decimal (unat (c_L2ChainID (sv_Config E)))"
    and "pv_index pv = (case index of None \<Rightarrow> [] | Some n \<Rightarrow> decimal (unat n))"
    and "handle E ep pv index (yieldS E s) = ((code, Inr v), s')"
  shows "ServeHTTP E r s = (reply code v, s')"
  using dataHandler_serves [OF assms(1,3,4,5)] ServeHTTP_data [OF assms(2)] assms(1) by (simp add: healthy_def)

text \<open>An endpoint that fails records its error and answers 503.\<close>

definition block_answer :: "BlockResponse result \<Rightarrow> Server \<Rightarrow> httpResponse \<times> Server" where
  "block_answer found t = (case found of Inr b \<Rightarrow> (reply 200 (BlockBody b), t)
     | Inl e \<Rightarrow> (reply 503 (ErrorBody e), t\<lparr>sr_Status := the (setStatus False (Some e) (sr_Status t))\<rparr>))"

lemma serves_block:
  assumes "healthy E r s" "t = yieldS E s" "BlobEnabled (sv_Config E)" "status_inv (sr_Status t)"
    and "route (hr_Path r) = Some (Data Block_ep pv)"
    and "pv_chainId pv = [] \<or> pv_chainId pv = decimal (unat (c_L2ChainID (sv_Config E)))"
    and "pv_index pv = (case index of None \<Rightarrow> [] | Some n \<Rightarrow> decimal (unat n))"
  shows "ServeHTTP E r s = block_answer (GetBlock (sr_Store t) index) t"
proof -
  have data: "ServeHTTP E r s = dataHandler E Block_ep pv r s"
    using assms(1,5) by (simp add: ServeHTTP_data healthy_def)
  show ?thesis
  proof (cases "GetBlock (sr_Store t) index")
    case (Inl e)
    from status_inv_set [OF assms(4)] obtain st where "setStatus False (Some e) (sr_Status t) = Some st" by blast
    with Inl data assms(1-3) validateRequest_valid [OF assms(1,6,7)] show ?thesis
      by (simp add: dataHandler_def healthy_def Snapshot_def handle_def block_def fail_def block_answer_def)
  next
    case (Inr b)
    with data assms(1-3) validateRequest_valid [OF assms(1,6,7)] show ?thesis
      by (simp add: dataHandler_def healthy_def Snapshot_def handle_def block_def block_answer_def)
  qed
qed

section \<open>Properties\<close>

text \<open>The read of the store that an endpoint makes, if it fails.\<close>

definition failed_read :: "server_env \<Rightarrow> endpoint \<Rightarrow> u64 option \<Rightarrow> Store \<Rightarrow> error option" where
  "failed_read E ep index st = (case ep of
     Enqueue_ep \<Rightarrow> (case Get st index of Inl e \<Rightarrow> Some e | Inr _ \<Rightarrow> None)
   | Highest_ep \<Rightarrow> (case Store.State st of Inl e \<Rightarrow> Some e | Inr _ \<Rightarrow> None)
   | Block_ep \<Rightarrow> if \<not> BlobEnabled (sv_Config E) then None
       else (case GetBlock st index of Inl e \<Rightarrow> Some e | Inr _ \<Rightarrow> None)
   | _ \<Rightarrow> None)"

text \<open>Every data route answers with the recorded error and changes nothing, and the service is not ready.\<close>

definition withdrawn :: "server_env \<Rightarrow> error \<Rightarrow> Server \<Rightarrow> bool" where
  "withdrawn E e s \<longleftrightarrow> ss_fatal (sr_Status s) = Some e \<and> hs_Code (readiness (sr_Status s)) = 503 \<and>
     (\<forall>r ep pv. route (hr_Path r) = Some (Data ep pv) \<and> isGet r \<longrightarrow> ServeHTTP E r s = (reply 503 (ErrorBody e), s))"

lemma fatal_withdraws: "ss_fatal (sr_Status s) = Some e \<Longrightarrow> withdrawn E e s"
  by (simp add: withdrawn_def ServeHTTP_data dataHandler_fatal) (simp add: readiness_def Snapshot_def reply_def)

lemma fail_withdraws:
  assumes "status_inv (sr_Status s)"
  obtains s' f where "fail e s = ((503, Inl e), s')" "sr_Store s' = sr_Store s" "withdrawn E f s'"
    "ss_fatal (sr_Status s) = None \<longrightarrow> f = e"
proof -
  from status_inv_records [OF assms, of False e] obtain st f where st: "setStatus False (Some e) (sr_Status s) = Some st" "ss_fatal st = Some f"
    by blast
  then have "ss_fatal (sr_Status s) = None \<longrightarrow> f = e" by (auto simp: setStatus_def Let_def bind_eq_Some_conv)
  with st fatal_withdraws [of "s\<lparr>sr_Status := st\<rparr>" f E] show thesis
    by (intro that [of "s\<lparr>sr_Status := st\<rparr>" f]) (simp_all add: fail_def)
qed

lemma handle_failed_read:
  "failed_read E ep index (sr_Store s) = Some e \<Longrightarrow> handle E ep pv index s = fail e s"
  by (cases ep) (auto simp: failed_read_def handle_def enqueue_def highestL1_def block_def split: sum.splits if_splits)

lemma handle_read:
  "failed_read E ep index (sr_Store s) = None \<Longrightarrow> ep \<in> {Enqueue_ep, Highest_ep, Block_ep} \<Longrightarrow>
     \<exists>v. handle E ep pv index s = ((200, Inr v), s)"
  by (cases ep) (auto simp: failed_read_def handle_def enqueue_def highestL1_def block_def split: sum.splits if_splits)

text \<open>C36.
  The API fails closed.  A data route answers with status 200, 400 or 503 and never panics.  Once
  a fatal error is recorded, the data routes are withdrawn: each answers 503 with that error and
  changes nothing, and \<open>/readyz\<close> answers 503.  If the read of the store that a valid request
  makes fails (the deposit of the enqueue routes, the checkpoint of the highest route, the block
  of the block routes), then the answer is 503 with the error of the read, a fatal error is
  recorded, the error of the read if there was none before, and all data routes are withdrawn.
  If the read succeeds, the answer is 200 and nothing is recorded.\<close>

theorem data_routes_fail_closed:
  assumes "server_others_ok E" and "status_inv (sr_Status s)" and "route (hr_Path r) = Some (Data ep pv)" and "isGet r"
    and "ServeHTTP E r s = (resp, s')" and "t = yieldS E s"
  shows "hs_Code resp \<in> {200, 400, 503} \<and> hs_Body resp \<noteq> PanicBody \<and>
    (\<forall>e. ss_fatal (sr_Status s) = Some e \<longrightarrow> resp = reply 503 (ErrorBody e) \<and> s' = s \<and> withdrawn E e s) \<and>
    (\<forall>index. ss_fatal (sr_Status s) = None \<and> validateRequest E r pv = Inr index \<longrightarrow>
      (\<forall>e. failed_read E ep index (sr_Store t) = Some e \<longrightarrow>
        resp = reply 503 (ErrorBody e) \<and> sr_Store s' = sr_Store t \<and>
        (\<exists>f. withdrawn E f s' \<and> (ss_fatal (sr_Status t) = None \<longrightarrow> f = e))) \<and>
      (failed_read E ep index (sr_Store t) = None \<and> ep \<in> {Enqueue_ep, Highest_ep, Block_ep} \<longrightarrow>
        hs_Code resp = 200 \<and> s' = t))"
proof -
  from assms(3-5) have run: "dataHandler E ep pv r s = (resp, s')" by (simp add: ServeHTTP_data)
  have fatal: "resp = reply 503 (ErrorBody e) \<and> s' = s \<and> withdrawn E e s" if "ss_fatal (sr_Status s) = Some e" for e
    using dataHandler_fatal [OF that] run fatal_withdraws [OF that] by simp
  have failing: "resp = reply 503 (ErrorBody e) \<and> sr_Store s' = sr_Store t \<and>
      (\<exists>f. withdrawn E f s' \<and> (ss_fatal (sr_Status t) = None \<longrightarrow> f = e))"
    if ok: "ss_fatal (sr_Status s) = None" "validateRequest E r pv = Inr index" and bad: "failed_read E ep index (sr_Store t) = Some e" for index e
  proof -
    have "status_inv (sr_Status t)" using yieldS_inv [OF assms(1,2)] assms(6) by simp
    then obtain u f where
      u: "fail e t = ((503, Inl e), u)" "sr_Store u = sr_Store t" "withdrawn E f u" "ss_fatal (sr_Status t) = None \<longrightarrow> f = e"
      by (rule fail_withdraws)
    with handle_failed_read [OF bad, of pv] ok run assms(6) show ?thesis by (auto simp: dataHandler_def Snapshot_def)
  qed
  have good: "hs_Code resp = 200 \<and> s' = t"
    if ok: "ss_fatal (sr_Status s) = None" "validateRequest E r pv = Inr index"
      and read: "failed_read E ep index (sr_Store t) = None" "ep \<in> {Enqueue_ep, Highest_ep, Block_ep}" for index
    using handle_read [OF read, of pv] ok run assms(6) by (auto simp: dataHandler_def Snapshot_def reply_def)
  from dataHandler_ok [OF assms(1,2) run] fatal failing good show ?thesis by blast
qed

text \<open>C37.
  The API serves the store.  On a healthy service with a working database, the enqueue routes
  return the deposit of the index in decimal, or the last one, and the block routes return the
  retained block with its deposits, or the greatest one, of the store as it is when the request
  is handled; the checkpoint route returns its height.  A block that holds a deposit without a
  usable queue index is answered with 503, and reading it records a fatal error, which stops
  both synchronizers.\<close>

theorem routes_serve_store:
  assumes "healthy E r s" and "t = yieldS E s" and "\<not> s_closed (sr_Store t)" and "fault_free (s_db (sr_Store t))"
    and "queue_rep (s_db (sr_Store t)) dst q" and "blob_inv (s_db (sr_Store t)) st V" and "status_inv (sr_Status t)"
    and "BlobEnabled (sv_Config E)" and "chain = decimal (unat (c_L2ChainID (sv_Config E)))"
  shows "(hr_Path r = [''enqueue'', ''index'', decimal (unat n), chain] \<longrightarrow>
      ServeHTTP E r s = (reply 200 (EnqueueBody (if unat n < length q then Some (Enqueue.truncate (q ! unat n)) else None)), t)) \<and>
    (hr_Path r = [''enqueue'', ''latest'', chain] \<longrightarrow>
      ServeHTTP E r s = (reply 200 (EnqueueBody (if q = [] then None else Some (Enqueue.truncate (last q)))), t)) \<and>
    (hr_Path r = [''block'', ''index'', decimal (unat n), chain] \<longrightarrow>
      ServeHTTP E r s = block_answer (view_get q V (Some n)) t) \<and>
    (hr_Path r = [''block'', ''latest'', chain] \<longrightarrow>
      ServeHTTP E r s = block_answer (view_get q V (bst_Latest st)) t) \<and>
    (hr_Path r = [''highest'', ''l1''] \<longrightarrow> ServeHTTP E r s = (reply 200 (HighestBody (st_Height dst)), t)) \<and>
    (\<forall>e. view_get q V (Some n) = Inl e \<longrightarrow> ss_fatal (sr_Status (snd (block_answer (view_get q V (Some n)) t))) \<noteq> None)"
proof (intro conjI impI)
  note get = Get_index [OF assms(5,3,4)] Get_latest [OF assms(5,3,4)]
  note blk = GetBlock_view [OF assms(6,5,4,3)]
  have st: "Store.State (sr_Store t) = Inr dst"
    using assms(3-5) readState_fault_free by (simp add: State_def queue_rep_def)
  show "ServeHTTP E r s = (reply 200 (EnqueueBody (if unat n < length q then Some (Enqueue.truncate (q ! unat n)) else None)), t)"
    if "hr_Path r = [''enqueue'', ''index'', decimal (unat n), chain]"
    by (rule serves [OF assms(1), of Enqueue_ep "no_values\<lparr>pv_index := decimal (unat n), pv_chainId := chain\<rparr>" "Some n"])
      (use that assms(2,9) get in \<open>simp_all add: route_def no_values_def handle_def enqueue_def\<close>)
  show "ServeHTTP E r s = (reply 200 (EnqueueBody (if q = [] then None else Some (Enqueue.truncate (last q)))), t)"
    if "hr_Path r = [''enqueue'', ''latest'', chain]"
    by (rule serves [OF assms(1), of Enqueue_ep "no_values\<lparr>pv_chainId := chain\<rparr>" None])
      (use that assms(2,9) get in \<open>simp_all add: route_def no_values_def handle_def enqueue_def\<close>)
  show "ServeHTTP E r s = block_answer (view_get q V (Some n)) t"
    if "hr_Path r = [''block'', ''index'', decimal (unat n), chain]"
    using serves_block [OF assms(1,2,8,7), of "no_values\<lparr>pv_index := decimal (unat n), pv_chainId := chain\<rparr>" "Some n"] that assms(9) blk
    by (simp add: route_def no_values_def)
  show "ServeHTTP E r s = block_answer (view_get q V (bst_Latest st)) t"
    if "hr_Path r = [''block'', ''latest'', chain]"
    using serves_block [OF assms(1,2,8,7), of "no_values\<lparr>pv_chainId := chain\<rparr>" None] that assms(9) blk
    by (simp add: route_def no_values_def)
  show "ServeHTTP E r s = (reply 200 (HighestBody (st_Height dst)), t)" if "hr_Path r = [''highest'', ''l1'']"
    by (rule serves [OF assms(1), of Highest_ep no_values None])
      (use that assms(2) st in \<open>simp_all add: route_def no_values_def handle_def highestL1_def\<close>)
  show "\<forall>e. view_get q V (Some n) = Inl e \<longrightarrow> ss_fatal (sr_Status (snd (block_answer (view_get q V (Some n)) t))) \<noteq> None"
  proof (intro allI impI)
    fix e assume "view_get q V (Some n) = Inl e"
    with status_inv_records [OF assms(7), of False e] show "ss_fatal (sr_Status (snd (block_answer (view_get q V (Some n)) t))) \<noteq> None"
      by (auto simp: block_answer_def)
  qed
qed

section \<open>A sample server\<close>

definition sample_server_env :: server_env where
  "sample_server_env = \<lparr>sv_Config = \<lparr>c_RPC = ''r'', c_L1ChainID = 1, c_L2ChainID = 8, c_AddressManager = 3, c_Start = 5,
     c_Confirmations = 2, c_BatchSize = 10, c_Poll = 1, c_DB = ''d'', c_Listen = ''l'', c_Beacon = ''b'', c_Inbox = 5,
     c_InboxSender = 3, c_BlobSender = 4, c_InboxStart = 0\<rparr>,
     sv_HeaderByNumber = (\<lambda>_ _. Inr None), sv_now = (\<lambda>_. 0), sv_others = (\<lambda>_ x. x)\<rparr>"

definition sample_request :: "string list \<Rightarrow> httpRequest" where
  "sample_request path = \<lparr>hr_Method = ''GET'', hr_Path = path, hr_backend = None\<rparr>"

definition sample_server :: "error option \<Rightarrow> Store \<Rightarrow> Server" where
  "sample_server e st = \<lparr>sr_Store = st, sr_Status = (case e of None \<Rightarrow> zero_Status
     | Some e \<Rightarrow> zero_Status\<lparr>ss_fatal := Some e, ss_halted := Some ChanClosed\<rparr>), sr_calls = 0\<rparr>"

text \<open>Requests on a store that was closed, and after a fatal error.\<close>

theorem data_routes_fail_closed_witness:
  "(\<exists>s' f. ServeHTTP sample_server_env (sample_request [''highest'', ''l1'']) (sample_server None (sample_blob_store\<lparr>s_closed := True\<rparr>)) =
       (reply 503 (ErrorBody f), s') \<and> withdrawn sample_server_env f s') \<and>
   fst (ServeHTTP sample_server_env (sample_request [''highest'', ''l1'']) (sample_server (Some (Err ErrFatal ''x'')) sample_blob_store)) =
     reply 503 (ErrorBody (Err ErrFatal ''x''))"
proof -
  let ?r = "sample_request [''highest'', ''l1'']"
  let ?closed = "sample_server None (sample_blob_store\<lparr>s_closed := True\<rparr>)"
  let ?fatal = "sample_server (Some (Err ErrFatal ''x'')) sample_blob_store"
  have others: "server_others_ok sample_server_env" by (simp add: server_others_ok_def sample_server_env_def status_run.same)
  have inv: "status_inv (sr_Status ?closed)" "status_inv (sr_Status ?fatal)" by (simp_all add: status_inv_def sample_server_def zero_Status_def)
  have rt: "route (hr_Path ?r) = Some (Data Highest_ep no_values)" by (simp add: route_def sample_request_def)
  have get: "isGet ?r" by (simp add: isGet_def sample_request_def)
  have valid: "validateRequest sample_server_env ?r no_values = Inr None"
    by (simp add: validateRequest_def sample_request_def no_values_def checkChain_def)
  have t: "sr_Store (yieldS sample_server_env ?closed) = sample_blob_store\<lparr>s_closed := True\<rparr>"
    "ss_fatal (sr_Status (yieldS sample_server_env ?closed)) = None" "ss_fatal (sr_Status ?closed) = None"
    by (simp_all add: yieldS_def sample_server_env_def sample_server_def zero_Status_def)
  have read: "failed_read sample_server_env Highest_ep None (sample_blob_store\<lparr>s_closed := True\<rparr>) = Some (Err ErrClosed ''pebble: closed'')"
    by (simp add: failed_read_def State_def)
  obtain a u where run: "ServeHTTP sample_server_env ?r ?closed = (a, u)" by force
  obtain resp s' where run': "ServeHTTP sample_server_env ?r ?fatal = (resp, s')" by force
  from data_routes_fail_closed [OF others inv(1) rt get run refl] valid t read run
  have "\<exists>s' f. ServeHTTP sample_server_env ?r ?closed = (reply 503 (ErrorBody f), s') \<and> withdrawn sample_server_env f s'" by auto
  moreover from data_routes_fail_closed [OF others inv(2) rt get run' refl] run'
  have "fst (ServeHTTP sample_server_env ?r ?fatal) = reply 503 (ErrorBody (Err ErrFatal ''x''))" by (simp add: sample_server_def)
  ultimately show ?thesis by blast
qed

theorem routes_serve_store_witness:
  "ServeHTTP sample_server_env (sample_request [''enqueue'', ''index'', ''0'', ''8'']) (sample_server None sample_blob_store) =
     (reply 200 (EnqueueBody None), yieldS sample_server_env (sample_server None sample_blob_store))"
proof -
  let ?s = "sample_server None sample_blob_store"
  let ?r = "sample_request [''enqueue'', ''index'', ''0'', ''8'']"
  have h: "healthy sample_server_env ?r ?s"
    by (simp add: healthy_def isGet_def sample_request_def sample_server_def zero_Status_def)
  have st: "sr_Store (yieldS sample_server_env ?s) = sample_blob_store"
    by (simp add: yieldS_def sample_server_env_def sample_server_def Let_def)
  have dec: "decimal 0 = ''0''" "decimal 8 = ''8''" by (simp_all add: decimal.simps char_of_def bit_0)
  have inv: "status_inv (sr_Status (yieldS sample_server_env ?s))"
    by (simp add: yieldS_def sample_server_env_def sample_server_def Let_def status_inv_def zero_Status_def)
  from routes_serve_store [OF h refl, unfolded st, OF _ _ sample_queue_rep sample_blob_inv inv _ refl, of 0]
  show ?thesis by (simp add: sample_request_def sample_server_env_def [THEN arg_cong, of sv_Config] BlobEnabled_def dec)
qed

end
