(* ===== verification/Ingest.thy ===== *)
theory Ingest
  imports BlobReads Status Config
begin

text \<open>
  \<open>internal/ingest/\<close>: the deposit synchronizer.  One \<open>Step\<close> reads the
  checkpoint, chooses a window of confirmed blocks, discovers the active
  CanonicalTransactionChain when there is no checkpoint, loads and decodes the logs and
  commits them (\<open>abi.go\<close>, \<open>decode.go\<close>, \<open>ingest.go\<close>,
  \<open>bootstrap.go\<close>, \<open>syncer_step.go\<close>).

  The execution RPC, the contract ABI (event identifiers, argument packing) and
  \<open>hexutil.Encode\<close> are parameters.  The answer of an RPC call depends on how many
  calls were made before, so two calls with the same arguments may differ, as they do
  across a chain reorganisation.  \<open>en_others\<close> is what the other goroutines do to the
  store and the status while a call is under way.  \<open>sort.Slice\<close> is not stable: the
  model takes the sorting function as the parameter \<open>en_sort\<close>.
\<close>

section \<open>Data\<close>

record header =
  hd_Number :: "int option"
  hd_Hash :: hash

record Log =
  lg_Address :: address
  lg_Topics :: "hash list"
  lg_Data :: bytes
  lg_BlockNumber :: u64
  lg_TxHash :: hash
  lg_TxIndex :: u64
  lg_BlockHash :: hash
  lg_Index :: u64
  lg_Removed :: bool

text \<open>\<open>ethereum.FilterQuery\<close>; the order of the addresses (a Go map) does not matter.\<close>

record FilterQuery =
  fq_From :: u64
  fq_To :: u64
  fq_Addresses :: "address set"
  fq_Topics :: "hash list list"

text \<open>An event of the ABI: its identifier and its codec for the arguments that are not indexed.\<close>

record 'v event =
  ev_ID :: hash
  ev_Unpack :: "bytes \<Rightarrow> 'v result"
  ev_Pack :: "'v \<Rightarrow> bytes result"

text \<open>\<open>AddressSet\<close>: new and old address; \<open>TransactionEnqueued\<close>: chain, gas, data, timestamp.\<close>

type_synonym addressSet = "address \<times> address"
type_synonym enqueued = "int \<times> int \<times> bytes \<times> int"

record ingest_env =
  en_Config :: Config
  en_AddressSet :: "addressSet event"
  en_Enqueued :: "enqueued event"
  en_nameHash :: hash
  en_hexEncode :: "bytes \<Rightarrow> string"
  en_sort :: "Log list \<Rightarrow> Log list"
  en_HeaderByNumber :: "nat \<Rightarrow> u64 option \<Rightarrow> header option result"
  en_FilterLogs :: "nat \<Rightarrow> FilterQuery \<Rightarrow> Log list result"
  en_others :: "nat \<Rightarrow> Store \<times> Status \<Rightarrow> Store \<times> Status"
  en_ctxErr :: "nat \<Rightarrow> error option"

record bootstrapState =
  bs_anchor :: hash
  bs_next :: u64
  bs_ready :: bool
  bs_ctc :: address

record Syncer =
  sy_Store :: Store
  sy_Status :: Status
  sy_bootstrap :: "bootstrapState option"
  sy_calls :: nat

type_synonym 'a sync = "(Syncer, 'a) prog"

definition fatal :: "string \<Rightarrow> error" where
  "fatal m = Err ErrFatal m"

definition IsUint64 :: "int \<Rightarrow> bool" where
  "IsUint64 i \<longleftrightarrow> 0 \<le> i \<and> i < 2 ^ 64"

lemma IsUint64_uint [simp]: "IsUint64 (uint (n :: u64))"
  using uint_lt2p [of n] by (simp add: IsUint64_def)

section \<open>Logs\<close>

definition equalTopics :: "hash list \<Rightarrow> hash list \<Rightarrow> bool" where
  "equalTopics a b \<longleftrightarrow> length a = length b \<and> list_all (\<lambda>(x, y). x = y) (zip a b)"

definition validateLog :: "Log \<Rightarrow> u64 \<Rightarrow> u64 \<Rightarrow> unit result" where
  "validateLog l from end =
     (if lg_Removed l \<or> lg_BlockNumber l < from \<or> lg_BlockNumber l > end \<or> lg_Topics l = []
      then Inl (fatal ''invalid log range or metadata'') else Inr ())"

definition unpack :: "'v event \<Rightarrow> bytes \<Rightarrow> 'v result" where
  "unpack ev data =
     (case ev_Unpack ev data of Inl e \<Rightarrow> Inl (Wrap ErrFatal e) | Inr v \<Rightarrow>
       (case ev_Pack ev v of Inl _ \<Rightarrow> Inl (fatal ''noncanonical event data'')
        | Inr raw \<Rightarrow> if raw \<noteq> data then Inl (fatal ''noncanonical event data'') else Inr v))"

definition Decode :: "ingest_env \<Rightarrow> Log \<Rightarrow> (Record \<times> int) result" where
  "Decode E l =
     (if length (lg_Topics l) \<noteq> 4 \<or> lg_Topics l ! 0 \<noteq> ev_ID (en_Enqueued E)
      then Inl (fatal ''invalid enqueue topics'')
      else if \<exists>t \<in> set (take 2 (drop 1 (lg_Topics l))). drop_bit 160 t \<noteq> 0
      then Inl (fatal ''invalid address topic'')
      else bindE (unpack (en_Enqueued E) (lg_Data l)) (\<lambda>(chain, gas, data, timestamp).
        let idx = uint (lg_Topics l ! 3) in
        if \<not> IsUint64 gas \<or> \<not> IsUint64 timestamp \<or> \<not> IsUint64 idx
        then Inl (fatal ''enqueue integer overflow'')
        else Inr (\<lparr>enq_Index = word_of_int idx, enq_Target = ucast (lg_Topics l ! 2),
            enq_Data = en_hexEncode E data, enq_GasLimit = decimal (nat gas),
            enq_Origin = ucast (lg_Topics l ! 1), enq_BlockNumber = lg_BlockNumber l,
            enq_Timestamp = word_of_int timestamp, enq_CTCIndex = None, rec_BlockHash = lg_BlockHash l,
            rec_TxHash = lg_TxHash l, rec_LogIndex = lg_Index l\<rparr>, chain)))"

text \<open>The state of the loop of \<open>decodeLogs\<close>: records, seen logs, active address.\<close>

type_synonym decodeState = "Record list \<times> (hash \<times> u64 \<rightharpoonup> Log) \<times> address"

definition decodeLog :: "ingest_env \<Rightarrow> u64 \<Rightarrow> u64 \<Rightarrow> Log \<Rightarrow> decodeState \<Rightarrow> decodeState result" where
  "decodeLog E from end l = (\<lambda>(records, seen, ctc).
     bindE (validateLog l from end) (\<lambda>_.
       case seen (lg_BlockHash l, lg_Index l) of
         Some old \<Rightarrow>
           (if lg_BlockNumber old \<noteq> lg_BlockNumber l \<or> lg_Address old \<noteq> lg_Address l \<or> lg_TxHash old \<noteq> lg_TxHash l
              \<or> lg_TxIndex old \<noteq> lg_TxIndex l \<or> lg_Data old \<noteq> lg_Data l \<or> \<not> equalTopics (lg_Topics old) (lg_Topics l)
            then Inl (fatal ''conflicting log'') else Inr (records, seen, ctc))
       | None \<Rightarrow>
           let seen = seen((lg_BlockHash l, lg_Index l) \<mapsto> l) in
           if lg_Address l = c_AddressManager (en_Config E) \<and> lg_Topics l ! 0 = ev_ID (en_AddressSet E)
           then bindE (unpack (en_AddressSet E) (lg_Data l)) (\<lambda>(new, old).
             if old \<noteq> ctc then Inl (fatal ''address history mismatch'') else Inr (records, seen, new))
           else if lg_Address l \<noteq> ctc then Inr (records, seen, ctc)
           else bindE (Decode E l) (\<lambda>(r, chain).
             Inr (if chain = uint (c_L2ChainID (en_Config E)) then records @ [r] else records, seen, ctc))))"

definition decodeLogs ::
  "ingest_env \<Rightarrow> Log list \<Rightarrow> address \<Rightarrow> u64 \<Rightarrow> u64 \<Rightarrow> (Record list \<times> address) result" where
  "decodeLogs E logs ctc from end =
     bindE (foldE (decodeLog E from end) (en_sort E logs) ([], Map.empty, ctc))
       (\<lambda>(records, seen, ctc). Inr (records, ctc))"

section \<open>Remote calls and status\<close>

definition rpc :: "ingest_env \<Rightarrow> (nat \<Rightarrow> 'a result) \<Rightarrow> 'a sync" where
  "rpc E answer = (\<lambda>s.
     let n = sy_calls s; (st, status) = en_others E n (sy_Store s, sy_Status s)
     in (answer n, s\<lparr>sy_Store := st, sy_Status := status, sy_calls := Suc n\<rparr>))"

definition setM :: "bool \<Rightarrow> error option \<Rightarrow> unit sync" where
  "setM ready err = (\<lambda>s. case setStatus ready err (sy_Status s) of
     None \<Rightarrow> (Inl (Err ErrOther ''panic: close of closed channel''), s)
   | Some st \<Rightarrow> (Inr (), s\<lparr>sy_Status := st\<rparr>))"

definition header :: "ingest_env \<Rightarrow> u64 \<Rightarrow> header sync" where
  "header E n = bindM (rpc E (\<lambda>k. en_HeaderByNumber E k (Some n))) (\<lambda>h.
     case h of None \<Rightarrow> throw (fatal ''invalid header'')
     | Some h \<Rightarrow> (case hd_Number h of None \<Rightarrow> throw (fatal ''invalid header'')
         | Some i \<Rightarrow> if \<not> IsUint64 i \<or> word_of_int i \<noteq> n then throw (fatal ''invalid header'') else ret h))"

section \<open>The window\<close>

record scanWindow =
  w_before :: State
  w_from :: u64
  w_end :: u64
  w_target :: u64
  w_endHash :: hash
  w_ctc :: address

text \<open>\<open>None\<close> is the early return with nothing to scan.\<close>

definition chooseWindow :: "Config \<Rightarrow> State \<Rightarrow> u64 \<Rightarrow> bool \<times> scanWindow option" where
  "chooseWindow c before tip =
     (let target = (if c_Confirmations c \<le> tip then tip - c_Confirmations c else 0);
          window = (\<lambda>from. let end = (if c_BatchSize c \<le> target - from then from + c_BatchSize c - 1 else target) in
            Some \<lparr>w_before = before, w_from = from, w_end = end, w_target = target, w_endHash = 0, w_ctc = st_CTC before\<rparr>)
      in case st_Height before of
           Some h \<Rightarrow> if target \<le> h then (True, None)
                     else if target < h + 1 then (False, None) else (False, window (h + 1))
         | None \<Rightarrow> if target < c_Start c then (False, None) else (False, window (c_Start c)))"

text \<open>The rest of \<open>prepareWindow\<close> once the tip is known.\<close>

definition tipWindow :: "ingest_env \<Rightarrow> State \<Rightarrow> header option \<Rightarrow> scanWindow option sync" where
  "tipWindow E before tip =
     (case Option.bind tip hd_Number of
        None \<Rightarrow> throw (fatal ''invalid tip'')
      | Some i \<Rightarrow>
          if \<not> IsUint64 i then throw (fatal ''invalid tip'')
          else (case chooseWindow (en_Config E) before (word_of_int i) of
              (True, w) \<Rightarrow> bindM (setM True None) (\<lambda>_. ret None)
            | (False, None) \<Rightarrow> ret None
            | (False, Some w) \<Rightarrow> bindM (setM False None) (\<lambda>_. ret (Some w))))"

definition prepareWindow :: "ingest_env \<Rightarrow> scanWindow option sync" where
  "prepareWindow E =
     bindM getM (\<lambda>s. case State (sy_Store s) of
       Inl e \<Rightarrow> throw (Wrap ErrIntegrity e)
     | Inr before \<Rightarrow>
       bindM (case st_Height before of None \<Rightarrow> ret ()
              | Some h \<Rightarrow> bindM (header E h) (\<lambda>hd.
                  if hd_Hash hd \<noteq> st_Hash before then throw (fatal ''committed block changed'') else ret ())) (\<lambda>_.
       bindM (rpc E (\<lambda>k. en_HeaderByNumber E k None)) (tipWindow E before)))"

definition anchorWindow :: "ingest_env \<Rightarrow> scanWindow \<Rightarrow> scanWindow sync" where
  "anchorWindow E w = bindM (header E (w_end w)) (\<lambda>h. ret (w\<lparr>w_endHash := hd_Hash h\<rparr>))"

section \<open>Loading logs\<close>

text \<open>\<open>for _, l := range logs { ... }\<close> with the checks of \<open>AddressSet\<close> logs; the
  result is the new addresses.\<close>

definition checkAddressLog :: "ingest_env \<Rightarrow> string \<Rightarrow> u64 \<Rightarrow> u64 \<Rightarrow> Log \<Rightarrow> address result" where
  "checkAddressLog E msg from end l =
     bindE (validateLog l from end) (\<lambda>_.
       if lg_Address l \<noteq> c_AddressManager (en_Config E) \<or> length (lg_Topics l) \<noteq> 2
         \<or> lg_Topics l ! 0 \<noteq> ev_ID (en_AddressSet E) \<or> lg_Topics l ! 1 \<noteq> en_nameHash E
       then Inl (fatal msg)
       else bindE (unpack (en_AddressSet E) (lg_Data l)) (\<lambda>(new, old). Inr new))"

definition addressQuery :: "ingest_env \<Rightarrow> u64 \<Rightarrow> u64 \<Rightarrow> FilterQuery" where
  "addressQuery E from end = \<lparr>fq_From = from, fq_To = end, fq_Addresses = {c_AddressManager (en_Config E)},
     fq_Topics = [[ev_ID (en_AddressSet E)], [en_nameHash E]]\<rparr>"

definition loadLogs :: "ingest_env \<Rightarrow> scanWindow \<Rightarrow> Log list sync" where
  "loadLogs E w =
     bindM (rpc E (\<lambda>k. en_FilterLogs E k (addressQuery E (w_from w) (w_end w)))) (\<lambda>changes.
     bindM (liftE (mapE (checkAddressLog E ''unexpected address log'' (w_from w) (w_end w)) changes)) (\<lambda>news.
       let addresses = (set news - {0}) \<union> ({w_ctc w} - {0}) in
       if addresses = {} then ret changes
       else bindM (rpc E (\<lambda>k. en_FilterLogs E k \<lparr>fq_From = w_from w, fq_To = w_end w, fq_Addresses = addresses,
              fq_Topics = [[ev_ID (en_Enqueued E)]]\<rparr>)) (\<lambda>enqueues. ret (changes @ enqueues))))"

section \<open>Bootstrap\<close>

definition checkBootstrap :: "ingest_env \<Rightarrow> unit sync" where
  "checkBootstrap E = bindM getM (\<lambda>s. case sy_bootstrap s of None \<Rightarrow> ret ()
     | Some b \<Rightarrow> bindM (header E (c_Start (en_Config E) - 1)) (\<lambda>h.
         if hd_Hash h \<noteq> bs_anchor b then throw (fatal ''initialization anchor changed'') else ret ()))"

record bootstrapPage =
  pg_from :: u64
  pg_end :: u64
  pg_logs :: "Log list"

definition loadBootstrapPage :: "ingest_env \<Rightarrow> u64 \<Rightarrow> bootstrapPage sync" where
  "loadBootstrapPage E end =
     (let size = c_BatchSize (en_Config E);
          from = (if size \<le> end then end - size + 1 else 0)
      in if size = 0 then throw (Err ErrOther ''batch size must be positive'')
         else bindM (\<lambda>s. case rpc E (\<lambda>k. en_FilterLogs E k (addressQuery E from end)) s of
               (Inl e, s') \<Rightarrow> (Inl (Wrap ErrOther e), s') | (Inr x, s') \<Rightarrow> (Inr x, s')) (\<lambda>logs.
           bindM (liftE (mapE (checkAddressLog E ''unexpected initialization log'' from end) logs)) (\<lambda>_.
           ret \<lparr>pg_from = from, pg_end = end, pg_logs = logs\<rparr>)))"

definition decodeBootstrapPage :: "ingest_env \<Rightarrow> bootstrapPage \<Rightarrow> address result" where
  "decodeBootstrapPage E page =
     (if pg_logs page = [] then Inr 0
      else let logs = en_sort E (pg_logs page) in
        bindE (unpack (en_AddressSet E) (lg_Data (hd logs))) (\<lambda>(new, old).
          let initial = (if pg_from page = 0 then 0 else old) in
          bindE (decodeLogs E logs initial (pg_from page) (pg_end page)) (\<lambda>(records, ctc). Inr ctc)))"

definition setBootstrap :: "bootstrapState option \<Rightarrow> unit sync" where
  "setBootstrap b = modifyM (\<lambda>s. s\<lparr>sy_bootstrap := b\<rparr>)"

text \<open>The window with its address when the bootstrap is complete, \<open>None\<close> when there are more pages.\<close>

definition bootstrapStep :: "ingest_env \<Rightarrow> bootstrapState \<Rightarrow> scanWindow \<Rightarrow> scanWindow option sync" where
  "bootstrapStep E b w =
     (if bs_ready b then ret (Some (w\<lparr>w_ctc := bs_ctc b\<rparr>))
      else bindM (loadBootstrapPage E (bs_next b)) (\<lambda>page.
        bindM (liftE (decodeBootstrapPage E page)) (\<lambda>ctc.
        bindM (checkBootstrap E) (\<lambda>_.
          if pg_logs page = [] \<and> 0 < pg_from page
          then bindM (setBootstrap (Some (b\<lparr>bs_next := pg_from page - 1\<rparr>))) (\<lambda>_. ret None)
          else bindM (setBootstrap (Some (b\<lparr>bs_ctc := ctc, bs_ready := True\<rparr>))) (\<lambda>_.
            ret (Some (w\<lparr>w_ctc := ctc\<rparr>)))))))"

definition initializeCTC :: "ingest_env \<Rightarrow> scanWindow \<Rightarrow> scanWindow option sync" where
  "initializeCTC E w =
     (if st_Height (w_before w) \<noteq> None then bindM (setBootstrap None) (\<lambda>_. ret (Some w))
      else if w_from w = 0 then ret (Some w)
      else bindM (setM False None) (\<lambda>_.
        bindM getM (\<lambda>s.
        bindM (if sy_bootstrap s = None
               then bindM (header E (w_from w - 1)) (\<lambda>h.
                 setBootstrap (Some \<lparr>bs_anchor = hd_Hash h, bs_next = w_from w - 1, bs_ready = False, bs_ctc = 0\<rparr>))
               else ret ()) (\<lambda>_.
        bindM (checkBootstrap E) (\<lambda>_.
        bindM getM (\<lambda>s. case sy_bootstrap s of
            None \<Rightarrow> throw (Err ErrOther ''panic: nil dereference'')
          | Some b \<Rightarrow> bootstrapStep E b w))))))"

section \<open>Commit and step\<close>

definition storeM :: "(Status \<Rightarrow> Store \<Rightarrow> unit result \<times> Store) \<Rightarrow> unit sync" where
  "storeM f = (\<lambda>s. case f (sy_Status s) (sy_Store s) of (r, st) \<Rightarrow> (r, s\<lparr>sy_Store := st\<rparr>))"

definition wrapIntegrity :: "unit result \<times> Store \<Rightarrow> unit result \<times> Store" where
  "wrapIntegrity = (\<lambda>(r, st). (case r of Inl e \<Rightarrow> Inl (Wrap ErrIntegrity e) | Inr u \<Rightarrow> Inr u, st))"

definition commitWindow :: "ingest_env \<Rightarrow> scanWindow \<Rightarrow> address \<Rightarrow> Record list \<Rightarrow> unit sync" where
  "commitWindow E w ctc records =
     bindM (if st_Height (w_before w) = None then checkBootstrap E else ret ()) (\<lambda>_.
     if w_end w = w_target w \<and> ctc = 0
     then throw (fatal ''no active CanonicalTransactionChain at confirmed tip'')
     else bindM (header E (w_end w)) (\<lambda>h.
       if hd_Hash h \<noteq> w_endHash w then throw (fatal ''scan changed before commit'')
       else bindM (case st_Height (w_before w) of None \<Rightarrow> ret ()
              | Some n \<Rightarrow> bindM (header E n) (\<lambda>h.
                  if hd_Hash h \<noteq> st_Hash (w_before w) then throw (fatal ''checkpoint changed before commit'')
                  else ret ())) (\<lambda>_.
         let after = \<lparr>st_Height = Some (w_end w), st_Hash = w_endHash w, st_CTC = ctc, st_Latest = None\<rparr> in
         bindM getM (\<lambda>s. storeM (\<lambda>status. commitIfHealthy status (\<lambda>st.
           case en_ctxErr E (sy_calls s) of Some e \<Rightarrow> (Inl e, st)
           | None \<Rightarrow> wrapIntegrity (Commit st (w_before w) after records)))))))"

text \<open>\<open>Step\<close> from the anchor of the window to the end.\<close>

definition scanAndCommit :: "ingest_env \<Rightarrow> scanWindow \<Rightarrow> bool sync" where
  "scanAndCommit E w =
     bindM (anchorWindow E w) (\<lambda>w.
     bindM (loadLogs E w) (\<lambda>logs.
     bindM (liftE (decodeLogs E logs (w_ctc w) (w_from w) (w_end w))) (\<lambda>(records, ctc).
     bindM (commitWindow E w ctc records) (\<lambda>_.
       let caught = (w_end w = w_target w) in
       bindM (setM caught None) (\<lambda>_. ret caught)))))"

definition Step :: "ingest_env \<Rightarrow> bool sync" where
  "Step E = bindM getM (\<lambda>s. case snd (Snapshot (sy_Status s)) of
     Some e \<Rightarrow> throw e
   | None \<Rightarrow> bindM (prepareWindow E) (\<lambda>w. case w of
       None \<Rightarrow> ret True
     | Some w \<Rightarrow> bindM (initializeCTC E w) (\<lambda>w. case w of
         None \<Rightarrow> ret False
       | Some w \<Rightarrow> scanAndCommit E w)))"

text \<open>One iteration of \<open>Run\<close>: stop, go on at once, or wait for the poll interval.\<close>

datatype loop_next = Stop | Again | Sleep

definition runOnce :: "ingest_env \<Rightarrow> Syncer \<Rightarrow> loop_next \<times> Syncer" where
  "runOnce E s =
     (case Step E s of (r, s1) \<Rightarrow>
        (case snd (Snapshot (sy_Status s1)) of Some e \<Rightarrow> (Stop, s1)
         | None \<Rightarrow> (case r of
             Inl e \<Rightarrow>
               (let s2 = snd (setM False None s1) in
                if errors_is ErrFatal e \<or> errors_is ErrIntegrity e
                then (Stop, snd (setM False (Some e) s2)) else (Sleep, s2))
           | Inr caught \<Rightarrow> (if caught then Sleep else Again, s1))))"

text \<open>\<open>Run\<close> on a context that is not cancelled: the states after each iteration, and whether it stopped.\<close>

inductive Run :: "ingest_env \<Rightarrow> Syncer \<Rightarrow> bool \<Rightarrow> Syncer \<Rightarrow> bool" for E where
  start: "Run E s False s"
| go: "Run E s False t \<Longrightarrow> runOnce E t = (n, u) \<Longrightarrow> Run E s (n = Stop) u"
| halted: "Run E s False t \<Longrightarrow> fst (Done (sy_Status t)) = ChanClosed \<Longrightarrow> Run E s True t"

end
