(* ===== verification/IngestDecode.thy ===== *)
theory IngestDecode
  imports Ingest "HOL-Library.Multiset"
begin

text \<open>
  What decoding a window of logs means.  \<open>decodeLogs\<close> walks over the sorted logs with
  a mutable address and a map of the logs it has seen; here its result is described
  position by position: a log counts once, and an enqueue counts exactly if it was emitted
  by the contract that the last earlier \<open>AddressSet\<close> made active.
\<close>

section \<open>Sorting\<close>

definition log_key :: "Log \<Rightarrow> u64 \<times> u64 \<times> u64" where
  "log_key l = (lg_BlockNumber l, lg_TxIndex l, lg_Index l)"

definition log_le :: "Log \<Rightarrow> Log \<Rightarrow> bool" where
  "log_le a b \<longleftrightarrow> lg_BlockNumber a < lg_BlockNumber b \<or> lg_BlockNumber a = lg_BlockNumber b \<and>
     (lg_TxIndex a < lg_TxIndex b \<or> lg_TxIndex a = lg_TxIndex b \<and> lg_Index a \<le> lg_Index b)"

text \<open>What \<open>sort.Slice\<close> promises: a permutation, ordered; nothing about equal keys.\<close>

locale slice_sort =
  fixes srt :: "Log list \<Rightarrow> Log list"
  assumes perm: "mset (srt xs) = mset xs"
    and ordered: "sorted_wrt log_le (srt xs)"
begin

lemma set_srt: "set (srt xs) = set xs"
  using perm by (metis set_mset_mset)

lemma length_srt: "length (srt xs) = length xs"
  using perm by (metis size_mset)

lemma srt_Nil_iff: "srt xs = [] \<longleftrightarrow> xs = []"
  using length_srt [of xs] by auto

lemma srt_cong: "mset xs = mset ys \<Longrightarrow> set (srt xs) = set (srt ys)"
  by (metis perm set_mset_mset)

end

text \<open>Insertion sort is one such function.\<close>

fun insort_log :: "Log \<Rightarrow> Log list \<Rightarrow> Log list" where
  "insort_log x [] = [x]"
| "insort_log x (y # ys) = (if log_le x y then x # y # ys else y # insort_log x ys)"

definition sort_logs :: "Log list \<Rightarrow> Log list" where
  "sort_logs xs = foldr insort_log xs []"

lemma log_le_total: "log_le a b \<or> log_le b a"
  by (auto simp: log_le_def)

lemma log_le_trans: "log_le a b \<Longrightarrow> log_le b c \<Longrightarrow> log_le a c"
  unfolding log_le_def by (auto intro: less_trans order_trans)

lemma mset_insort_log: "mset (insort_log x ys) = add_mset x (mset ys)"
  by (induction ys) auto

lemma sorted_insort_log: "sorted_wrt log_le ys \<Longrightarrow> sorted_wrt log_le (insort_log x ys)"
proof (induction ys)
  case (Cons y ys)
  have set: "set (insort_log x ys) = insert x (set ys)"
    using mset_insort_log [of x ys] by (metis set_mset_mset set_mset_add_mset_insert)
  show ?case
  proof (cases "log_le x y")
    case True
    with Cons.prems show ?thesis by (auto intro: log_le_trans)
  next
    case False
    with log_le_total have "log_le y x" by blast
    with False Cons set show ?thesis by auto
  qed
qed simp

interpretation sl: slice_sort sort_logs
proof
  show "mset (sort_logs xs) = mset xs" for xs
    by (induction xs) (simp_all add: sort_logs_def mset_insort_log)
  show "sorted_wrt log_le (sort_logs xs)" for xs
    by (induction xs) (simp_all add: sort_logs_def sorted_insort_log)
qed

lemma equalTopics_eq: "equalTopics a b \<longleftrightarrow> a = b"
  by (induction a b rule: list_induct2') (auto simp: equalTopics_def)

section \<open>The meaning of a list of logs\<close>

definition log_id :: "Log \<Rightarrow> hash \<times> u64" where
  "log_id l = (lg_BlockHash l, lg_Index l)"

text \<open>The first occurrence of every log identifier.\<close>

fun fresh :: "(hash \<times> u64) set \<Rightarrow> Log list \<Rightarrow> Log list" where
  "fresh ids [] = []"
| "fresh ids (l # ls) = (if log_id l \<in> ids then fresh ids ls else l # fresh (insert (log_id l) ids) ls)"

definition is_change :: "ingest_env \<Rightarrow> Log \<Rightarrow> bool" where
  "is_change E l \<longleftrightarrow> lg_Address l = c_AddressManager (en_Config E) \<and> lg_Topics l ! 0 = ev_ID (en_AddressSet E)"

definition new_address :: "ingest_env \<Rightarrow> Log \<Rightarrow> address" where
  "new_address E l = (case unpack (en_AddressSet E) (lg_Data l) of Inr (new, old) \<Rightarrow> new | Inl _ \<Rightarrow> 0)"

definition old_address :: "ingest_env \<Rightarrow> Log \<Rightarrow> address" where
  "old_address E l = (case unpack (en_AddressSet E) (lg_Data l) of Inr (new, old) \<Rightarrow> old | Inl _ \<Rightarrow> 0)"

text \<open>The address that is active after some logs: the new address of the last change.\<close>

definition active_after :: "ingest_env \<Rightarrow> address \<Rightarrow> Log list \<Rightarrow> address" where
  "active_after E ctc ls =
     (let changes = filter (is_change E) ls in if changes = [] then ctc else new_address E (last changes))"

text \<open>What one log contributes when \<open>a\<close> is active.\<close>

definition contribution :: "ingest_env \<Rightarrow> address \<Rightarrow> Log \<Rightarrow> Record list" where
  "contribution E a l =
     (if is_change E l \<or> lg_Address l \<noteq> a then []
      else case Decode E l of Inl _ \<Rightarrow> []
        | Inr (r, chain) \<Rightarrow> if chain = uint (c_L2ChainID (en_Config E)) then [r] else [])"

definition window_records :: "ingest_env \<Rightarrow> address \<Rightarrow> Log list \<Rightarrow> Record list" where
  "window_records E ctc ls =
     concat (map (\<lambda>i. contribution E (active_after E ctc (take i ls)) (ls ! i)) [0 ..< length ls])"

lemma active_after_Nil [simp]: "active_after E ctc [] = ctc"
  by (simp add: active_after_def)

lemma active_after_Cons:
  "active_after E ctc (l # ls) = active_after E (if is_change E l then new_address E l else ctc) ls"
  by (auto simp: active_after_def Let_def)

lemma window_records_Nil [simp]: "window_records E ctc [] = []"
  by (simp add: window_records_def)

lemma window_records_Cons:
  "window_records E ctc (l # ls) =
     contribution E ctc l @ window_records E (if is_change E l then new_address E l else ctc) ls"
proof -
  have "[0 ..< length (l # ls)] = 0 # map Suc [0 ..< length ls]"
    by (simp add: map_Suc_upt upt_conv_Cons del: upt_Suc)
  then show ?thesis
    by (simp add: window_records_def active_after_Cons comp_def)
qed

text \<open>The history of changes fits: each one starts from the address that was active.\<close>

definition history_ok :: "ingest_env \<Rightarrow> address \<Rightarrow> Log list \<Rightarrow> bool" where
  "history_ok E ctc ls \<longleftrightarrow> (\<forall>i < length ls. is_change E (ls ! i) \<longrightarrow>
     old_address E (ls ! i) = active_after E ctc (take i ls))"

lemma history_ok_Cons:
  "history_ok E ctc (l # ls) \<longleftrightarrow> (is_change E l \<longrightarrow> old_address E l = ctc) \<and>
     history_ok E (if is_change E l then new_address E l else ctc) ls"
  unfolding history_ok_def by (auto simp: less_Suc_eq_0_disj active_after_Cons)

section \<open>The loop\<close>

lemma decodeLog_seen:
  assumes "decodeLog E f e l (rs, seen, a) = Inr x" "seen (log_id l) \<noteq> None"
  shows "x = (rs, seen, a) \<and> f \<le> lg_BlockNumber l \<and> lg_BlockNumber l \<le> e \<and> \<not> lg_Removed l"
  using assms
  by (auto simp: decodeLog_def log_id_def validateLog_def bindE_def not_less split: if_splits)

lemma decodeLog_fresh:
  assumes "decodeLog E f e l (rs, seen, a) = Inr x" "seen (log_id l) = None"
  shows "x = (rs @ contribution E a l, seen(log_id l \<mapsto> l), if is_change E l then new_address E l else a) \<and>
    f \<le> lg_BlockNumber l \<and> lg_BlockNumber l \<le> e \<and> \<not> lg_Removed l \<and>
    (is_change E l \<longrightarrow> old_address E l = a)"
  using assms
  by (auto simp: decodeLog_def log_id_def validateLog_def bindE_Inr not_less is_change_def new_address_def
      old_address_def contribution_def Let_def split: if_splits)

lemma decodeLogs_loop:
  assumes "foldE (decodeLog E f e) ls (rs, seen, a) = Inr (rs', seen', a')"
  shows "rs' = rs @ window_records E a (fresh (dom seen) ls) \<and> a' = active_after E a (fresh (dom seen) ls) \<and>
    history_ok E a (fresh (dom seen) ls) \<and>
    (\<forall>l \<in> set ls. f \<le> lg_BlockNumber l \<and> lg_BlockNumber l \<le> e \<and> \<not> lg_Removed l)"
  using assms
proof (induction ls arbitrary: rs seen a)
  case Nil
  then show ?case by (simp add: history_ok_def)
next
  case (Cons l ls)
  from Cons.prems obtain x where x: "decodeLog E f e l (rs, seen, a) = Inr x"
    and rest: "foldE (decodeLog E f e) ls x = Inr (rs', seen', a')" by (auto simp: bindE_Inr)
  show ?case
  proof (cases "seen (log_id l)")
    case None
    from decodeLog_fresh [OF x None] rest have
      rest': "foldE (decodeLog E f e) ls (rs @ contribution E a l, seen(log_id l \<mapsto> l),
        if is_change E l then new_address E l else a) = Inr (rs', seen', a')" by simp
    have "log_id l \<notin> dom seen" using None by blast
    have dom: "dom (seen(log_id l \<mapsto> l)) = insert (log_id l) (dom seen)" by simp
    from Cons.IH [OF rest', unfolded dom] \<open>log_id l \<notin> dom seen\<close> decodeLog_fresh [OF x None] show ?thesis
      by (simp add: window_records_Cons active_after_Cons history_ok_Cons)
  next
    case (Some old)
    then have "log_id l \<in> dom seen" by blast
    moreover from decodeLog_seen [OF x] Some rest have "foldE (decodeLog E f e) ls (rs, seen, a) = Inr (rs', seen', a')" by simp
    moreover note decodeLog_seen [OF x]
    ultimately show ?thesis using Cons.IH [of rs seen a] Some by simp
  qed
qed

lemma decodeLogs_Inr:
  assumes "decodeLogs E logs ctc f e = Inr (rs, a)"
  shows "rs = window_records E ctc (fresh {} (en_sort E logs)) \<and> a = active_after E ctc (fresh {} (en_sort E logs)) \<and>
    history_ok E ctc (fresh {} (en_sort E logs)) \<and>
    (\<forall>l \<in> set (en_sort E logs). f \<le> lg_BlockNumber l \<and> lg_BlockNumber l \<le> e \<and> \<not> lg_Removed l)"
proof -
  from assms obtain seen where "foldE (decodeLog E f e) (en_sort E logs) ([], Map.empty, ctc) = Inr (rs, seen, a)"
    by (auto simp: decodeLogs_def bindE_Inr split: prod.splits)
  from decodeLogs_loop [OF this] show ?thesis by simp
qed

lemma fresh_ids: "distinct (map log_id (fresh ids ls)) \<and> set (map log_id (fresh ids ls)) = log_id ` set ls - ids"
  by (induction ids ls rule: fresh.induct) auto

lemma fresh_subset: "set (fresh ids ls) \<subseteq> set ls"
  by (induction ids ls rule: fresh.induct) auto

lemma fresh_sorted: "sorted_wrt P ls \<Longrightarrow> sorted_wrt P (fresh ids ls)"
proof (induction ids ls rule: fresh.induct)
  case (2 ids l ls)
  then show ?case using fresh_subset [of "insert (log_id l) ids" ls] by auto
qed simp

section \<open>Properties\<close>

text \<open>C9.  The meaning of a decoded window, for any sorting function that keeps the promise
  of \<open>sort.Slice\<close>: the logs count once each, in block, transaction and log order; the
  records are exactly the enqueues for this chain emitted by the contract that is active at
  their position; every address change starts from the active address; the result is the
  address active at the end; and every log lies in the window.\<close>

theorem decodeLogs_meaning:
  assumes "slice_sort (en_sort E)" and "decodeLogs E logs ctc from end = Inr (rs, a)"
  shows "\<exists>ls. sorted_wrt log_le ls \<and> distinct (map log_id ls) \<and> set ls \<subseteq> set logs \<and> log_id ` set ls = log_id ` set logs \<and>
    rs = window_records E ctc ls \<and> a = active_after E ctc ls \<and> history_ok E ctc ls \<and>
    (\<forall>l \<in> set logs. from \<le> lg_BlockNumber l \<and> lg_BlockNumber l \<le> end \<and> \<not> lg_Removed l)"
proof -
  have set: "set (en_sort E logs) = set logs" by (rule slice_sort.set_srt [OF assms(1)])
  let ?ls = "fresh {} (en_sort E logs)"
  have "sorted_wrt log_le ?ls" by (rule fresh_sorted [OF slice_sort.ordered [OF assms(1)]])
  moreover have "set ?ls \<subseteq> set logs" using fresh_subset set by blast
  moreover have "log_id ` set ?ls = log_id ` set logs" "distinct (map log_id ?ls)"
    using fresh_ids [of "{}" "en_sort E logs"] set by auto
  ultimately show ?thesis using decodeLogs_Inr [OF assms(2)] set by blast
qed

section \<open>A sample environment and the witness\<close>

definition sample_Config :: Config where
  "sample_Config = \<lparr>c_RPC = ''r'', c_L1ChainID = 1, c_L2ChainID = 1088, c_AddressManager = 3, c_Start = 5,
     c_Confirmations = 2, c_BatchSize = 10, c_Poll = 1, c_DB = ''d'', c_Listen = ''l'', c_Beacon = [], c_Inbox = 0,
     c_InboxSender = 0, c_BlobSender = 0, c_InboxStart = 0\<rparr>"

text \<open>A toy codec: addresses are two bytes (new, old), enqueues carry fixed arguments.\<close>

definition sample_env :: ingest_env where
  "sample_env = \<lparr>en_Config = sample_Config,
     en_AddressSet = \<lparr>ev_ID = 100, ev_Unpack = (\<lambda>d. case d of [x, y] \<Rightarrow> Inr (ucast x, ucast y) | _ \<Rightarrow> Inl (Err ErrOther ''abi'')),
       ev_Pack = (\<lambda>(new, old). Inr [ucast new, ucast old])\<rparr>,
     en_Enqueued = \<lparr>ev_ID = 200, ev_Unpack = (\<lambda>d. if d = [] then Inr (1088, 21000, [], 7) else Inl (Err ErrOther ''abi'')),
       ev_Pack = (\<lambda>_. Inr [])\<rparr>,
     en_nameHash = 300, en_hexEncode = (\<lambda>_. ''0x''), en_sort = sort_logs,
     en_HeaderByNumber = (\<lambda>k n. Inr (Some \<lparr>hd_Number = Some (case n of None \<Rightarrow> 9 | Some m \<Rightarrow> uint m), hd_Hash = 77\<rparr>)),
     en_FilterLogs = (\<lambda>k q. Inr []), en_others = (\<lambda>k x. x), en_ctxErr = (\<lambda>k. None)\<rparr>"

definition sample_change :: Log where
  "sample_change = \<lparr>lg_Address = 3, lg_Topics = [100, 300], lg_Data = [9, 0], lg_BlockNumber = 5, lg_TxHash = 1,
     lg_TxIndex = 0, lg_BlockHash = 50, lg_Index = 0, lg_Removed = False\<rparr>"

definition sample_enqueue :: Log where
  "sample_enqueue = \<lparr>lg_Address = 9, lg_Topics = [200, 1, 2, 0], lg_Data = [], lg_BlockNumber = 6, lg_TxHash = 2,
     lg_TxIndex = 0, lg_BlockHash = 60, lg_Index = 0, lg_Removed = False\<rparr>"

text \<open>The enqueue is listed first and twice; it counts once, after the change that activates its contract.\<close>

lemma sample_sorted:
  "sort_logs [sample_enqueue, sample_change, sample_enqueue] = [sample_change, sample_enqueue, sample_enqueue]"
  by (simp add: sort_logs_def log_le_def sample_enqueue_def sample_change_def)

lemma drop_small: "drop_bit 160 (1 :: hash) = 0" "drop_bit 160 (2 :: hash) = 0" "ucast (1 :: hash) = (1 :: address)"
  "ucast (2 :: hash) = (2 :: address)"
  by simp_all

lemma sample_Decode:
  "Decode sample_env sample_enqueue = Inr (\<lparr>enq_Index = 0, enq_Target = 2, enq_Data = ''0x'', enq_GasLimit = decimal 21000,
     enq_Origin = 1, enq_BlockNumber = 6, enq_Timestamp = 7, enq_CTCIndex = None, rec_BlockHash = 60, rec_TxHash = 2,
     rec_LogIndex = 0\<rparr>, 1088)"
  by (simp add: Decode_def sample_enqueue_def sample_env_def unpack_def IsUint64_def Let_def drop_small)

lemma sample_unpack: "unpack (en_AddressSet sample_env) [9, 0] = Inr (9, 0)"
  by (simp add: unpack_def sample_env_def)

lemma sample_decodeLogs:
  "decodeLogs sample_env [sample_enqueue, sample_change, sample_enqueue] 0 5 7 =
     Inr ([\<lparr>enq_Index = 0, enq_Target = 2, enq_Data = ''0x'', enq_GasLimit = decimal 21000, enq_Origin = 1, enq_BlockNumber = 6,
       enq_Timestamp = 7, enq_CTCIndex = None, rec_BlockHash = 60, rec_TxHash = 2, rec_LogIndex = 0\<rparr>], 9)"
proof -
  have srt: "en_sort sample_env = sort_logs" by (simp add: sample_env_def)
  have change: "decodeLog sample_env 5 7 sample_change ([], Map.empty, 0) =
      Inr ([], [log_id sample_change \<mapsto> sample_change], 9)"
    using sample_unpack
    by (simp add: decodeLog_def validateLog_def sample_change_def log_id_def)
      (simp add: sample_env_def sample_Config_def)
  show ?thesis
    unfolding decodeLogs_def srt sample_sorted foldE.simps change
    using sample_Decode
    by (simp add: decodeLog_def validateLog_def log_id_def sample_change_def equalTopics_eq)
      (simp add: sample_enqueue_def sample_env_def sample_Config_def equalTopics_eq)
qed

theorem decodeLogs_meaning_witness:
  "\<exists>ls. sorted_wrt log_le ls \<and> distinct (map log_id ls) \<and> set ls \<subseteq> {sample_enqueue, sample_change} \<and>
     length (window_records sample_env 0 ls) = 1 \<and> active_after sample_env 0 ls = 9"
proof -
  have "slice_sort (en_sort sample_env)" by (simp add: sample_env_def sl.slice_sort_axioms)
  from decodeLogs_meaning [OF this sample_decodeLogs] obtain ls where
    "sorted_wrt log_le ls" "distinct (map log_id ls)" "set ls \<subseteq> set [sample_enqueue, sample_change, sample_enqueue]"
    "9 = active_after sample_env 0 ls" and recs: "[\<lparr>enq_Index = 0, enq_Target = 2, enq_Data = ''0x'', enq_GasLimit = decimal 21000,
       enq_Origin = 1, enq_BlockNumber = 6, enq_Timestamp = 7, enq_CTCIndex = None, rec_BlockHash = 60, rec_TxHash = 2,
       rec_LogIndex = 0\<rparr>] = window_records sample_env 0 ls" by blast
  moreover from arg_cong [OF recs, of length] have "length (window_records sample_env 0 ls) = 1" by simp
  ultimately show ?thesis by (intro exI [of _ ls]) auto
qed

end
