(* ===== verification/Auth.thy ===== *)
theory Auth
  imports IngestDecode
begin

text \<open>
  \<open>internal/blobingest/auth.go\<close>, the pure part: the schedules of authorized senders
  for every known sender manager, the events that change them, their stored form and the lookup
  of the sender in charge at a height.  The methods that call the execution RPC are in
  \<open>BlobScan\<close>.

  Go iterates over maps in any order; the model goes through the entries in key order and the
  theorems show that the order does not matter.  In memory a schedule is never nil.
\<close>

section \<open>Model\<close>

record senderSchedule =
  sc_Batch :: "(u64, address) dict"
  sc_Blob :: "(u64, address) dict"

record authorization =
  au_Manager :: address
  au_Known :: "(address, senderSchedule) dict"

definition newAuthorization :: authorization where
  "newAuthorization = \<lparr>au_Manager = 0, au_Known = []\<rparr>"

definition ensure :: "address \<Rightarrow> authorization \<Rightarrow> authorization" where
  "ensure address a = (if dget (au_Known a) address = None
     then a\<lparr>au_Known := dput address \<lparr>sc_Batch = [], sc_Blob = []\<rparr> (au_Known a)\<rparr> else a)"

text \<open>The loop of \<open>sender\<close>: the latest effective height, whether there is one, and the address.\<close>

definition senderEntry :: "u64 \<Rightarrow> u64 \<times> bool \<times> address \<Rightarrow> u64 \<times> address \<Rightarrow> u64 \<times> bool \<times> address" where
  "senderEntry height = (\<lambda>(latest, found, current) (effective, address).
     if effective \<le> height \<and> (\<not> found \<or> latest \<le> effective) then (effective, True, address) else (latest, found, current))"

definition sender :: "authorization \<Rightarrow> u64 \<Rightarrow> bool \<Rightarrow> address \<Rightarrow> address" where
  "sender a height blob fallback =
     (case dget (au_Known a) (au_Manager a) of None \<Rightarrow> fallback
      | Some table \<Rightarrow>
          let entries = (if blob then sc_Blob table else sc_Batch table);
              (latest, found, current) = foldl (senderEntry height) (0, False, fallback) entries
          in current)"

text \<open>
  Decoding the stored authorization.  \<open>null\<close> leaves the fresh value unchanged, a null map
  of managers or a null schedule is refused.
\<close>

definition decodeSchedule :: "address \<times> rawSchedule option \<Rightarrow> (address \<times> senderSchedule) result" where
  "decodeSchedule = (\<lambda>(address, schedule).
     if address = 0 then Inl (fatal ''invalid stored sender schedule'')
     else case schedule of None \<Rightarrow> Inl (fatal ''invalid stored sender schedule'')
       | Some s \<Rightarrow> (case (raw_Batch s, raw_Blob s) of
            (Some batch, Some blob) \<Rightarrow> Inr (address, \<lparr>sc_Batch = batch, sc_Blob = blob\<rparr>)
          | _ \<Rightarrow> Inl (fatal ''invalid stored sender schedule'')))"

definition zeroSender :: "senderSchedule \<Rightarrow> bool" where
  "zeroSender s \<longleftrightarrow> list_ex (\<lambda>p. snd p = 0) (sc_Batch s) \<or> list_ex (\<lambda>p. snd p = 0) (sc_Blob s)"

definition decodeAuth :: "RawMessage \<Rightarrow> authorization result" where
  "decodeAuth raw = (case raw of
     RawNil \<Rightarrow> Inr newAuthorization
   | RawNull \<Rightarrow> Inr newAuthorization
   | RawInvalid _ \<Rightarrow> Inl (fatal ''invalid stored authorization'')
   | RawDoc d \<Rightarrow> (case raw_Known d of None \<Rightarrow> Inl (fatal ''invalid stored authorization'')
       | Some known \<Rightarrow>
           bindE (mapE decodeSchedule known) (\<lambda>known.
             if raw_Manager d \<noteq> 0 \<and> dget known (raw_Manager d) = None then Inl (fatal ''missing stored active manager'')
             else if list_ex (\<lambda>p. zeroSender (snd p)) known then Inl (fatal ''zero stored sender'')
             else Inr \<lparr>au_Manager = raw_Manager d, au_Known = known\<rparr>)))"

definition marshalAuth :: "authorization \<Rightarrow> RawMessage" where
  "marshalAuth a = RawDoc \<lparr>raw_Manager = au_Manager a,
     raw_Known = Some (map (\<lambda>(k, s). (k, Some \<lparr>raw_Batch = Some (sc_Batch s), raw_Blob = Some (sc_Blob s)\<rparr>)) (au_Known a))\<rparr>"

definition cloneAuth :: "authorization \<Rightarrow> authorization result" where
  "cloneAuth a = decodeAuth (marshalAuth a)"

section \<open>Events\<close>

text \<open>The \<open>AddressSet\<close> event of the ABI, the name of the manager, the sender event.\<close>

record auth_env =
  ax_AddressSet :: "addressSet event"
  ax_managerName :: hash
  ax_senderTopic :: hash

text \<open>The order of the sorted logs.  \<open>sort.Slice\<close> leaves no later log before an earlier one.\<close>

definition positionLess :: "Log \<Rightarrow> Log \<Rightarrow> bool" where
  "positionLess a b =
     (if lg_BlockNumber a \<noteq> lg_BlockNumber b then lg_BlockNumber a < lg_BlockNumber b
      else if lg_TxIndex a \<noteq> lg_TxIndex b then lg_TxIndex a < lg_TxIndex b
      else lg_Index a < lg_Index b)"

lemma log_le_positionLess: "log_le a b \<longleftrightarrow> \<not> positionLess b a"
  by (auto simp: log_le_def positionLess_def)

definition validateAuthLog :: "Log \<Rightarrow> u64 \<Rightarrow> u64 \<Rightarrow> unit result" where
  "validateAuthLog l from end =
     (if lg_Removed l \<or> lg_BlockNumber l < from \<or> end < lg_BlockNumber l \<or> lg_Topics l = []
      then Inl (fatal ''invalid authorization log range or metadata'') else Inr ())"

definition addressChange :: "auth_env \<Rightarrow> Log \<Rightarrow> (address \<times> address) result" where
  "addressChange X l =
     (if length (lg_Topics l) \<noteq> 2 \<or> lg_Topics l ! 0 \<noteq> ev_ID (ax_AddressSet X) \<or> lg_Topics l ! 1 \<noteq> ax_managerName X
      then Inl (fatal ''invalid sender manager event'')
      else case ev_Unpack (ax_AddressSet X) (lg_Data l) of
        Inl _ \<Rightarrow> Inl (fatal ''invalid sender manager ABI'')
      | Inr values \<Rightarrow> (case ev_Pack (ax_AddressSet X) values of
            Inl _ \<Rightarrow> Inl (fatal ''noncanonical sender manager ABI'')
          | Inr raw \<Rightarrow> if raw \<noteq> lg_Data l then Inl (fatal ''noncanonical sender manager ABI'') else Inr values))"

text \<open>\<open>l.Topics[0]\<close> of a log without topics panics.\<close>

definition isAddressChange :: "auth_env \<Rightarrow> address \<Rightarrow> Log \<Rightarrow> bool" where
  "isAddressChange X manager l \<longleftrightarrow> lg_Address l = manager \<and> hd (lg_Topics l) = ev_ID (ax_AddressSet X)"

definition applyLog :: "auth_env \<Rightarrow> address \<Rightarrow> Log \<Rightarrow> authorization \<Rightarrow> authorization result" where
  "applyLog X manager l a =
     (if lg_Address l = manager \<and> lg_Topics l = [] then Inl (Err ErrOther ''panic: index out of range'')
      else if isAddressChange X manager l then
        bindE (addressChange X l) (\<lambda>(new, old).
          if old \<noteq> au_Manager a then Inl (fatal ''sender manager address history mismatch'')
          else Inr (a\<lparr>au_Manager := new\<rparr>))
      else if length (lg_Topics l) \<noteq> 4 \<or> lg_Topics l ! 0 \<noteq> ax_senderTopic X \<or> lg_Data l \<noteq> []
      then Inl (fatal ''invalid InboxSenderSet topics/data'')
      else let height = uint (lg_Topics l ! 1); kind = uint (lg_Topics l ! 3) in
        if \<not> IsUint64 height \<or> \<not> IsUint64 kind \<or> 1 < kind \<or> drop_bit 160 (lg_Topics l ! 2) \<noteq> 0
        then Inl (fatal ''invalid InboxSenderSet values'')
        else let new = ucast (lg_Topics l ! 2) :: address in
          if new = 0 then Inl (fatal ''zero Inbox sender'')
          else case dget (au_Known a) (lg_Address l) of
            None \<Rightarrow> Inl (fatal ''unknown sender manager log'')
          | Some table \<Rightarrow>
              let table = (if kind = 0 then table\<lparr>sc_Batch := dput (word_of_int height) new (sc_Batch table)\<rparr>
                           else table\<lparr>sc_Blob := dput (word_of_int height) new (sc_Blob table)\<rparr>)
              in Inr (a\<lparr>au_Known := dput (lg_Address l) table (au_Known a)\<rparr>))"

text \<open>
  \<open>orderedLogs\<close>: sorted by position, without repetitions.  A log is identified by block
  number and index; two logs are the same if their JSON texts are.
\<close>

definition orderLog :: "Log \<Rightarrow> (u64 \<times> u64 \<rightharpoonup> Log) \<times> Log list \<Rightarrow> ((u64 \<times> u64 \<rightharpoonup> Log) \<times> Log list) result" where
  "orderLog l = (\<lambda>(seen, out).
     case seen (lg_BlockNumber l, lg_Index l) of
       Some old \<Rightarrow> if old \<noteq> l then Inl (fatal ''conflicting authorization log'') else Inr (seen, out)
     | None \<Rightarrow> Inr (seen((lg_BlockNumber l, lg_Index l) \<mapsto> l), out @ [l]))"

definition orderedLogs :: "(Log list \<Rightarrow> Log list) \<Rightarrow> Log list \<Rightarrow> Log list result" where
  "orderedLogs srt logs = bindE (foldE orderLog (srt logs) (Map.empty, [])) (\<lambda>(seen, out). Inr out)"

section \<open>The sender in charge\<close>

text \<open>The entry with the greatest height that is not beyond the given one.\<close>

definition scheduled :: "(u64, address) dict \<Rightarrow> u64 \<Rightarrow> address \<Rightarrow> address" where
  "scheduled es height fallback = (let ks = filter (\<lambda>k. k \<le> height) (map fst es) in
     if ks = [] then fallback else the (dget es (Max (set ks))))"

definition loop_inv :: "u64 \<Rightarrow> address \<Rightarrow> (u64 \<times> address) list \<Rightarrow> u64 \<times> bool \<times> address \<Rightarrow> bool" where
  "loop_inv height fallback es = (\<lambda>(latest, found, current).
     if found then (latest, current) \<in> set es \<and> latest \<le> height \<and> (\<forall>p \<in> set es. fst p \<le> height \<longrightarrow> fst p \<le> latest)
     else current = fallback \<and> (\<forall>p \<in> set es. \<not> fst p \<le> height))"

lemma senderEntry_inv:
  "loop_inv height fallback es st \<Longrightarrow> loop_inv height fallback (es @ [e]) (senderEntry height st e)"
  by (cases st; cases e) (auto simp: loop_inv_def senderEntry_def split: if_splits)

lemma sender_loop: "loop_inv height fallback es (foldl (senderEntry height) (0, False, fallback) es)"
proof (induction es rule: rev_induct)
  case Nil
  then show ?case by (simp add: loop_inv_def)
next
  case (snoc e es)
  then show ?case by (simp add: senderEntry_inv)
qed

lemma sender_loop_scheduled:
  assumes ok: "dict_ok es" and perm: "mset es' = mset es"
  shows "snd (snd (foldl (senderEntry height) (0, False, fallback) es')) = scheduled es height fallback"
proof -
  obtain latest found current where st: "foldl (senderEntry height) (0, False, fallback) es' = (latest, found, current)"
    by (metis surj_pair)
  have "set es' = set es" using perm by (rule mset_eq_setD)
  with sender_loop [of height fallback es'] st have inv: "loop_inv height fallback es (latest, found, current)"
    by (auto simp: loop_inv_def split: if_splits)
  let ?ks = "filter (\<lambda>k. k \<le> height) (map fst es)"
  have "current = scheduled es height fallback"
  proof (cases found)
    case True
    with inv have in_es: "(latest, current) \<in> set es" and le: "latest \<le> height" and max: "\<forall>p \<in> set es. fst p \<le> height \<longrightarrow> fst p \<le> latest"
      by (simp_all add: loop_inv_def)
    then have mem: "latest \<in> set ?ks" by force
    then have "Max (set ?ks) = latest" using max by (intro Max_eqI) auto
    moreover have "dget es latest = Some current"
      using in_es ok by (auto simp: dict_ok_def strict_sorted_iff)
    moreover have "?ks \<noteq> []" using mem by (metis list.set(1) empty_iff)
    ultimately show ?thesis by (simp add: scheduled_def Let_def)
  next
    case False
    with inv show ?thesis by (auto simp: loop_inv_def scheduled_def Let_def filter_empty_conv)
  qed
  with st show ?thesis by simp
qed

section \<open>The stored form\<close>

definition schedule_ok :: "senderSchedule \<Rightarrow> bool" where
  "schedule_ok s \<longleftrightarrow> dict_ok (sc_Batch s) \<and> dict_ok (sc_Blob s) \<and> \<not> zeroSender s"

definition auth_ok :: "authorization \<Rightarrow> bool" where
  "auth_ok a \<longleftrightarrow> dict_ok (au_Known a) \<and> dget (au_Known a) 0 = None \<and>
     (au_Manager a = 0 \<or> dget (au_Known a) (au_Manager a) \<noteq> None) \<and> list_all (\<lambda>p. schedule_ok (snd p)) (au_Known a)"

lemma mapE_decodeSchedule:
  "0 \<notin> fst ` set known \<Longrightarrow>
    mapE decodeSchedule (map (\<lambda>(k, s). (k, Some \<lparr>raw_Batch = Some (sc_Batch s), raw_Blob = Some (sc_Blob s)\<rparr>)) known) = Inr known"
  by (induction known) (auto simp: decodeSchedule_def)

lemma mapE_decodeSchedule_zero:
  "0 \<in> fst ` set known \<Longrightarrow> \<exists>m.
    mapE decodeSchedule (map (\<lambda>(k, s). (k, Some \<lparr>raw_Batch = Some (sc_Batch s), raw_Blob = Some (sc_Blob s)\<rparr>)) known) = Inl (fatal m)"
proof (induction known)
  case (Cons p known)
  obtain k s where p: "p = (k, s)" by (cases p)
  show ?case
  proof (cases "k = 0")
    case True
    then show ?thesis by (auto simp: p decodeSchedule_def)
  next
    case False
    with Cons p obtain m where "mapE decodeSchedule (map (\<lambda>(k, s). (k, Some \<lparr>raw_Batch = Some (sc_Batch s), raw_Blob = Some (sc_Blob s)\<rparr>)) known) = Inl (fatal m)"
      by auto
    with False show ?thesis by (auto simp: p decodeSchedule_def)
  qed
qed simp

text \<open>What \<open>decodeAuth\<close> accepts: exactly that comes back when it is stored.\<close>

definition managers :: "authorization \<Rightarrow> address set" where
  "managers a = fst ` set (au_Known a)"

definition auth_valid :: "authorization \<Rightarrow> bool" where
  "auth_valid a \<longleftrightarrow> 0 \<notin> managers a \<and> (au_Manager a = 0 \<or> au_Manager a \<in> managers a) \<and>
     (\<forall>p \<in> set (au_Known a). \<not> zeroSender (snd p))"

lemma cloneAuth_Inr: "cloneAuth a = Inr b \<longleftrightarrow> b = a \<and> auth_valid a"
proof (cases "0 \<in> fst ` set (au_Known a)")
  case True
  from mapE_decodeSchedule_zero [OF this] True show ?thesis by (auto simp: cloneAuth_def decodeAuth_def marshalAuth_def auth_valid_def managers_def)
next
  case False
  from mapE_decodeSchedule [OF this] False show ?thesis
    by (auto simp: cloneAuth_def decodeAuth_def marshalAuth_def auth_valid_def managers_def map_of_eq_None_iff list_ex_iff split: if_splits)
qed

lemma auth_valid_new: "auth_valid newAuthorization"
  by (simp add: auth_valid_def managers_def newAuthorization_def)

lemma decodeSchedule_Inr: "decodeSchedule p = Inr q \<Longrightarrow> fst q \<noteq> 0"
  by (auto simp: decodeSchedule_def split: prod.splits if_splits option.splits)

lemma decodeAuth_valid:
  assumes "decodeAuth raw = Inr a"
  shows "auth_valid a"
proof (cases raw)
  case (RawDoc d)
  with assms obtain known0 known where m: "mapE decodeSchedule known0 = Inr known" and a: "a = \<lparr>au_Manager = raw_Manager d, au_Known = known\<rparr>"
    and rest: "\<not> (raw_Manager d \<noteq> 0 \<and> dget known (raw_Manager d) = None)" "\<not> list_ex (\<lambda>p. zeroSender (snd p)) known"
    by (auto simp: decodeAuth_def bindE_Inr split: option.splits if_splits)
  have "0 \<notin> fst ` set known" using mapE_set [OF m] decodeSchedule_Inr by fastforce
  with a rest show ?thesis by (auto simp: auth_valid_def managers_def list_ex_iff map_of_eq_None_iff)
qed (use assms auth_valid_new in \<open>auto simp: decodeAuth_def\<close>)

lemma in_dput: "p \<in> set (dput k v m) \<Longrightarrow> p = (k, v) \<or> p \<in> set m"
  by (induction m) (auto split: if_splits)

lemma managers_put: "managers (a\<lparr>au_Known := dput address s (au_Known a)\<rparr>) = insert address (managers a)"
  using set_keys_dput [of address s "au_Known a"] by (simp add: managers_def)

lemma managers_manager [simp]: "managers (a\<lparr>au_Manager := m\<rparr>) = managers a"
  by (simp add: managers_def)

lemma auth_valid_put:
  assumes "auth_valid a" "address \<noteq> 0" "\<not> zeroSender s"
  shows "auth_valid (a\<lparr>au_Known := dput address s (au_Known a)\<rparr>)"
proof -
  have "\<not> zeroSender (snd p)" if "p \<in> set (dput address s (au_Known a))" for p
    using in_dput [OF that] assms by (auto simp: auth_valid_def)
  with assms show ?thesis by (auto simp: auth_valid_def managers_put)
qed

lemma auth_valid_ensure: "auth_valid a \<Longrightarrow> address \<noteq> 0 \<Longrightarrow> auth_valid (ensure address a)"
  by (simp add: ensure_def auth_valid_put zeroSender_def)

lemma zeroSender_put:
  assumes "\<not> zeroSender s" "new \<noteq> 0"
  shows "\<not> zeroSender (s\<lparr>sc_Batch := dput h new (sc_Batch s)\<rparr>)" "\<not> zeroSender (s\<lparr>sc_Blob := dput h new (sc_Blob s)\<rparr>)"
  using assms in_dput [of _ h new] by (fastforce simp: zeroSender_def list_ex_iff)+

text \<open>An address change leads to a manager whose schedule is known.\<close>

definition known_change :: "auth_env \<Rightarrow> address \<Rightarrow> address set \<Rightarrow> Log \<Rightarrow> bool" where
  "known_change X manager known l \<longleftrightarrow> (isAddressChange X manager l \<longrightarrow>
     (\<forall>new old. addressChange X l = Inr (new, old) \<longrightarrow> new = 0 \<or> new \<in> known))"

lemma applyLog_valid:
  assumes "applyLog X manager l a = Inr b" "auth_valid a" "known_change X manager (managers a) l"
  shows "auth_valid b \<and> managers b = managers a"
proof (cases "isAddressChange X manager l")
  case True
  with assms show ?thesis
    by (auto simp: applyLog_def known_change_def auth_valid_def bindE_Inr split: if_splits)
next
  case False
  with assms(1) obtain table new h where t: "dget (au_Known a) (lg_Address l) = Some table" and new: "new \<noteq> 0"
    and b: "b = a\<lparr>au_Known := dput (lg_Address l) (table\<lparr>sc_Batch := dput h new (sc_Batch table)\<rparr>) (au_Known a)\<rparr> \<or>
      b = a\<lparr>au_Known := dput (lg_Address l) (table\<lparr>sc_Blob := dput h new (sc_Blob table)\<rparr>) (au_Known a)\<rparr>"
    by (auto simp: applyLog_def Let_def split: if_splits option.splits)
  have mem: "(lg_Address l, table) \<in> set (au_Known a)" using t by (rule map_of_SomeD)
  then have m: "lg_Address l \<in> managers a" by (force simp: managers_def)
  have "\<not> zeroSender table" "lg_Address l \<noteq> 0" using assms(2) mem m by (auto simp: auth_valid_def)
  then have "auth_valid b" using b auth_valid_put [OF assms(2)] zeroSender_put [OF _ new] by metis
  moreover have "managers b = insert (lg_Address l) (managers a)" using b managers_put by metis
  ultimately show ?thesis using m by (simp add: insert_absorb)
qed

section \<open>The property of the schedule\<close>

text \<open>C38.
  The sender in charge at a height is the one set last at or before it by the active manager, or
  the configured fallback when there is none; the answer does not depend on the order in which
  the entries of the map are visited.\<close>

theorem sender_in_charge:
  assumes "auth_ok a" "dget (au_Known a) (au_Manager a) = Some table"
    and "mset es = mset (if blob then sc_Blob table else sc_Batch table)"
  shows "sender a height blob fallback = scheduled (if blob then sc_Blob table else sc_Batch table) height fallback \<and>
    snd (snd (foldl (senderEntry height) (0, False, fallback) es)) = sender a height blob fallback"
proof -
  let ?es = "if blob then sc_Blob table else sc_Batch table"
  have "schedule_ok table" using map_of_SomeD [OF assms(2)] assms(1) by (force simp: auth_ok_def list_all_iff)
  then have ok: "dict_ok ?es" by (simp add: schedule_ok_def)
  have "sender a height blob fallback = snd (snd (foldl (senderEntry height) (0, False, fallback) ?es))"
    using assms(2) by (simp add: sender_def Let_def case_prod_beta)
  with sender_loop_scheduled [OF ok refl] sender_loop_scheduled [OF ok assms(3)] show ?thesis by simp
qed

text \<open>Two entries, visited in the opposite order; at height 15 the entry of height 10 counts.\<close>

definition sample_auth :: authorization where
  "sample_auth = \<lparr>au_Manager = 4, au_Known = [(4, \<lparr>sc_Batch = [(10, 7), (20, 8)], sc_Blob = []\<rparr>)]\<rparr>"

theorem sender_in_charge_witness:
  "sender sample_auth 15 False 3 = 7 \<and> snd (snd (foldl (senderEntry 15) (0, False, 3) [(20, 8), (10, 7)])) = (7 :: address)"
proof -
  have ok: "auth_ok sample_auth"
    by (simp add: auth_ok_def sample_auth_def schedule_ok_def zeroSender_def dict_ok_def)
  have get: "dget (au_Known sample_auth) (au_Manager sample_auth) = Some \<lparr>sc_Batch = [(10, 7), (20, 8)], sc_Blob = []\<rparr>"
    by (simp add: sample_auth_def)
  have "scheduled [(10, 7), (20, 8)] 15 3 = 7" by (simp add: scheduled_def)
  with sender_in_charge [OF ok get, of "[(20, 8), (10, 7)]" False 15 3] show ?thesis by (simp add: add_mset_commute)
qed

end
