(* ===== verification/BlobScan.thy ===== *)
theory BlobScan
  imports Auth Beacon
begin

text \<open>
  \<open>internal/blobingest/scan.go\<close> and the methods of \<open>auth.go\<close> that call the
  execution RPC: the log queries that keep the sender authorization up to date, the scan of a
  window of blocks for Inbox submissions, and the fetching of the Blob transactions they refer
  to.  The step and the loop (\<open>syncer.go\<close>) are in \<open>BlobStep\<close>.

  The execution RPC is a parameter: the answer to a call depends on the number of calls made
  before, and during every call other goroutines may change the store and the status
  (\<open>bx_others\<close>).  A transaction, a block and a receipt are what the accessors of go-ethereum
  return for them; \<open>bx_ctxErr\<close> is the error of the context of a step, \<open>bx_cancelled\<close>
  says whether the one of the whole run is done; \<open>lt_Sender\<close> is \<open>types.Sender\<close>
  for a chain identifier.  The source of Blobs is the Beacon client of \<open>Beacon\<close>.
\<close>

section \<open>Data\<close>

record l1Tx =
  lt_Hash :: hash
  lt_To :: "address option"
  lt_Data :: bytes
  lt_Type :: nat
  lt_BlobHashes :: "hash list"
  lt_ChainId :: nat
  lt_Sender :: "u64 \<Rightarrow> address option"

record l1Block =
  lb_Number :: int
  lb_Hash :: hash
  lb_ParentHash :: hash
  lb_Time :: u64
  lb_Transactions :: "l1Tx list"
  lb_SlotNumber :: "u64 option"

record receipt =
  rc_TxHash :: hash
  rc_BlockHash :: hash
  rc_BlockNumber :: "int option"
  rc_TransactionIndex :: u64
  rc_Status :: u64

definition BlobTxType :: nat where
  "BlobTxType = 3"

definition ReceiptStatusSuccessful :: u64 where
  "ReceiptStatusSuccessful = 1"

definition lb_NumberU64 :: "l1Block \<Rightarrow> u64" where
  "lb_NumberU64 b = word_of_int (lb_Number b)"

definition lb_Header :: "l1Block \<Rightarrow> blobHeader" where
  "lb_Header b = \<lparr>bh_Number = Some (lb_Number b), bh_Hash = lb_Hash b, bh_Time = lb_Time b, bh_SlotNumber = lb_SlotNumber b\<rparr>"

record blob_env =
  bx_Config :: Config
  bx_auth :: auth_env
  bx_span :: span_env
  bx_beacon :: beacon_env
  bx_sort :: "Log list \<Rightarrow> Log list"
  bx_HeaderByNumber :: "nat \<Rightarrow> u64 option \<Rightarrow> blobHeader option result"
  bx_BlockByNumber :: "nat \<Rightarrow> u64 \<Rightarrow> l1Block option result"
  bx_BlockByHash :: "nat \<Rightarrow> hash \<Rightarrow> l1Block option result"
  bx_TransactionReceipt :: "nat \<Rightarrow> hash \<Rightarrow> receipt option result"
  bx_FilterLogs :: "nat \<Rightarrow> FilterQuery \<Rightarrow> Log list result"
  bx_others :: "nat \<Rightarrow> Store \<times> Status \<Rightarrow> Store \<times> Status"
  bx_ctxErr :: "nat \<Rightarrow> error option"
  bx_cancelled :: "nat \<Rightarrow> bool"

record senderBackfill =
  sb_before :: u64
  sb_next :: u64
  sb_anchor :: hash
  sb_auth :: authorization

record blobBootstrap =
  bb_next :: u64
  bb_anchor :: hash
  bb_auth :: authorization
  bb_ready :: bool

text \<open>The nil map of backfills reads as the empty map.\<close>

record BlobSyncer =
  by_Store :: Store
  by_Status :: Status
  by_Beacon :: Beacon
  by_bootstrap :: "blobBootstrap option"
  by_backfills :: "(address, senderBackfill) dict"
  by_calls :: nat

type_synonym 'a bsync = "(BlobSyncer, 'a) prog"

section \<open>Remote calls\<close>

definition call :: "blob_env \<Rightarrow> (nat \<Rightarrow> 'a result) \<Rightarrow> 'a bsync" where
  "call E answer = (\<lambda>s.
     let n = by_calls s; (st, status) = bx_others E n (by_Store s, by_Status s)
     in (answer n, s\<lparr>by_Store := st, by_Status := status, by_calls := Suc n\<rparr>))"

text \<open>A request of the Beacon client; other goroutines run meanwhile.\<close>

definition callBeacon :: "blob_env \<Rightarrow> 'a beacon \<Rightarrow> 'a bsync" where
  "callBeacon E m = bindM (call E (\<lambda>_. Inr ())) (\<lambda>_ s. case m (by_Beacon s) of (r, b) \<Rightarrow> (r, s\<lparr>by_Beacon := b\<rparr>))"

definition blobHead :: "blob_env \<Rightarrow> u64 \<Rightarrow> blobHeader bsync" where
  "blobHead E n = bindM (call E (\<lambda>k. bx_HeaderByNumber E k (Some n))) (\<lambda>h.
     case h of None \<Rightarrow> throw (fatal ''invalid Blob scan header'')
     | Some h \<Rightarrow> (case bh_Number h of None \<Rightarrow> throw (fatal ''invalid Blob scan header'')
         | Some i \<Rightarrow> if \<not> IsUint64 i \<or> word_of_int i \<noteq> n then throw (fatal ''invalid Blob scan header'') else ret h))"

definition check :: "blob_env \<Rightarrow> u64 \<Rightarrow> hash \<Rightarrow> unit bsync" where
  "check E n hash = bindM (blobHead E n) (\<lambda>h.
     if bh_Hash h \<noteq> hash then throw (fatal ''Blob scan anchor changed'') else ret ())"

definition checkpoint :: "blob_env \<Rightarrow> BlobState \<Rightarrow> unit bsync" where
  "checkpoint E st =
     bindM (case bst_RetentionHeight st of None \<Rightarrow> ret () | Some n \<Rightarrow> check E n (bst_RetentionHash st)) (\<lambda>_.
       case bst_Height st of None \<Rightarrow> ret () | Some n \<Rightarrow> check E n (bst_Hash st))"

section \<open>Authorization logs\<close>

definition checkSenderLog :: "blob_env \<Rightarrow> address set \<Rightarrow> u64 \<Rightarrow> u64 \<Rightarrow> Log \<Rightarrow> unit result" where
  "checkSenderLog E allowed from end l = bindE (validateAuthLog l from end) (\<lambda>_.
     if lg_Address l \<notin> allowed \<or> hd (lg_Topics l) \<noteq> ax_senderTopic (bx_auth E)
     then Inl (fatal ''unexpected sender log'') else Inr ())"

definition senderLogs :: "blob_env \<Rightarrow> address list \<Rightarrow> u64 \<Rightarrow> u64 \<Rightarrow> Log list bsync" where
  "senderLogs E addresses from end =
     bindM (call E (\<lambda>k. bx_FilterLogs E k \<lparr>fq_From = from, fq_To = end, fq_Addresses = set addresses,
       fq_Topics = [[ax_senderTopic (bx_auth E)]]\<rparr>)) (\<lambda>logs.
     bindM (liftE (mapE (checkSenderLog E (set addresses) from end) logs)) (\<lambda>_. ret logs))"

definition applyLogs :: "blob_env \<Rightarrow> Log list \<Rightarrow> authorization \<Rightarrow> authorization result" where
  "applyLogs E logs a = foldE (applyLog (bx_auth E) (c_AddressManager (bx_Config E))) logs a"

definition setBackfills :: "(address, senderBackfill) dict \<Rightarrow> unit bsync" where
  "setBackfills b = modifyM (\<lambda>s. s\<lparr>by_backfills := b\<rparr>)"

text \<open>The stored progress of a backfill, or a fresh one anchored before the scan.\<close>

definition newBackfill :: "blob_env \<Rightarrow> address \<Rightarrow> u64 \<Rightarrow> senderBackfill bsync" where
  "newBackfill E address before = bindM (blobHead E (before - 1)) (\<lambda>h.
     let p = \<lparr>sb_before = before, sb_next = 0, sb_anchor = bh_Hash h, sb_auth = ensure address newAuthorization\<rparr> in
     bindM getM (\<lambda>s. bindM (setBackfills (dput address p (by_backfills s))) (\<lambda>_. ret p)))"

definition startBackfill :: "blob_env \<Rightarrow> address \<Rightarrow> u64 \<Rightarrow> senderBackfill bsync" where
  "startBackfill E address before = bindM getM (\<lambda>s.
     case dget (by_backfills s) address of
       None \<Rightarrow> newBackfill E address before
     | Some p \<Rightarrow> if sb_before p \<noteq> before then newBackfill E address before else ret p)"

text \<open>One page of the history of a manager.\<close>

definition backfillPage :: "blob_env \<Rightarrow> address \<Rightarrow> u64 \<Rightarrow> senderBackfill \<Rightarrow> senderBackfill bsync" where
  "backfillPage E address before p =
     (let size = c_BatchSize (bx_Config E);
          stop = (if size \<le> before - 1 - sb_next p then sb_next p + size - 1 else before - 1) in
      bindM (liftE (cloneAuth (sb_auth p))) (\<lambda>updated.
      bindM (senderLogs E [address] (sb_next p) stop) (\<lambda>prior.
      bindM (liftE (orderedLogs (bx_sort E) prior)) (\<lambda>prior.
      bindM (liftE (applyLogs E prior updated)) (\<lambda>updated.
      bindM (check E (before - 1) (sb_anchor p)) (\<lambda>_.
        let p = p\<lparr>sb_auth := updated, sb_next := stop + 1\<rparr> in
        bindM getM (\<lambda>s. bindM (setBackfills (dput address p (by_backfills s))) (\<lambda>_. ret p))))))))"

definition errBackfillPending :: error where
  "errBackfillPending = Err ErrBackfillPending ''sender history backfill pending''"

text \<open>The copied schedule is always there: a backfill starts with the schedule of its manager.\<close>

definition backfillManager :: "blob_env \<Rightarrow> address \<Rightarrow> u64 \<Rightarrow> authorization \<Rightarrow> authorization bsync" where
  "backfillManager E address before a =
     (if before = 0 then ret (ensure address a)
      else bindM (startBackfill E address before) (\<lambda>p.
        bindM (check E (before - 1) (sb_anchor p)) (\<lambda>_.
        bindM (if sb_next p < before then backfillPage E address before p else ret p) (\<lambda>p.
          if sb_next p < before then throw errBackfillPending
          else bindM (liftE (cloneAuth (sb_auth p))) (\<lambda>copy.
            case dget (au_Known copy) address of
              None \<Rightarrow> throw (Err ErrOther ''nil schedule'')
            | Some t \<Rightarrow> ret (a\<lparr>au_Known := dput address t (au_Known a)\<rparr>))))))"

definition authChange :: "blob_env \<Rightarrow> u64 \<Rightarrow> u64 \<Rightarrow> Log \<Rightarrow> authorization \<Rightarrow> authorization bsync" where
  "authChange E from end l a =
     bindM (liftE (validateAuthLog l from end)) (\<lambda>_.
       if lg_Address l \<noteq> c_AddressManager (bx_Config E) then throw (fatal ''wrong AddressManager log'')
       else bindM (liftE (addressChange (bx_auth E) l)) (\<lambda>(new, old).
         if new = 0 \<or> dget (au_Known a) new \<noteq> None then ret a
         else backfillManager E new from a))"

primrec authChanges :: "blob_env \<Rightarrow> u64 \<Rightarrow> u64 \<Rightarrow> Log list \<Rightarrow> authorization \<Rightarrow> authorization bsync" where
  "authChanges E from end [] a = ret a"
| "authChanges E from end (l # ls) a = bindM (authChange E from end l a) (authChanges E from end ls)"

text \<open>The address changes of a window, the managers they lead to, and the sender events of all known managers.\<close>

definition authLogs :: "blob_env \<Rightarrow> authorization \<Rightarrow> u64 \<Rightarrow> u64 \<Rightarrow> (Log list \<times> authorization) bsync" where
  "authLogs E a from end =
     bindM (call E (\<lambda>k. bx_FilterLogs E k \<lparr>fq_From = from, fq_To = end, fq_Addresses = {c_AddressManager (bx_Config E)},
       fq_Topics = [[ev_ID (ax_AddressSet (bx_auth E))], [ax_managerName (bx_auth E)]]\<rparr>)) (\<lambda>changes.
     bindM (authChanges E from end changes a) (\<lambda>a.
     bindM (if au_Known a = [] then ret changes
            else bindM (senderLogs E (map fst (au_Known a)) from end) (\<lambda>logs. ret (changes @ logs))) (\<lambda>logs.
     bindM (liftE (orderedLogs (bx_sort E) logs)) (\<lambda>logs. ret (logs, a)))))"

section \<open>Submissions\<close>

definition transactionSender :: "blob_env \<Rightarrow> l1Tx \<Rightarrow> address result" where
  "transactionSender E tx =
     (if lt_ChainId tx \<noteq> unat (c_L1ChainID (bx_Config E)) then Inl (fatal ''Inbox transaction L1 chain mismatch'')
      else case lt_Sender tx (c_L1ChainID (bx_Config E)) of
        None \<Rightarrow> Inl (fatal ''invalid Inbox transaction signature'') | Some a \<Rightarrow> Inr a)"

definition getReceipt :: "blob_env \<Rightarrow> hash \<Rightarrow> l1Block \<Rightarrow> u64 \<Rightarrow> receipt bsync" where
  "getReceipt E hash b index = bindM (call E (\<lambda>k. bx_TransactionReceipt E k hash)) (\<lambda>r.
     case r of None \<Rightarrow> throw (Err ErrOther ''L1 receipt unavailable; retry'')
     | Some r \<Rightarrow>
        if rc_TxHash r \<noteq> hash \<or> rc_BlockHash r \<noteq> lb_Hash b \<or> rc_BlockNumber r \<noteq> Some (lb_Number b) \<or> rc_TransactionIndex r \<noteq> index
        then throw (fatal ''receipt provenance mismatch'') else ret r)"

text \<open>The references behind the first 70 bytes, without repetitions.\<close>

fun blobRefs :: "bytes \<Rightarrow> hash list" where
  "blobRefs [] = []"
| "blobRefs bs = word_of_nat (be_nat (take 32 bs)) # blobRefs (drop 32 bs)"

definition addRef :: "hash \<Rightarrow> hash list \<Rightarrow> hash list result" where
  "addRef h hashes = (if h = 0 then Inl (fatal ''zero Blob transaction reference'')
     else if h \<in> set hashes then Inr hashes else Inr (hashes @ [h]))"

definition parseSubmission :: "l1Tx \<Rightarrow> l1Block \<Rightarrow> address \<Rightarrow> (BlockBatch \<times> hash list) result" where
  "parseSubmission tx b from =
     (let data = lt_Data tx in
      if length data < 102 \<or> (length data - 70) mod 32 \<noteq> 0 \<or> data ! 1 \<noteq> 0 then Inl (fatal ''invalid Blob Inbox commitment'')
      else let index = be_nat (take 32 (drop 2 data)); start = be_nat (take 32 (drop 34 data));
               size = unat (uint32_be (drop 66 data)) in
        if \<not> index < 2 ^ 64 \<or> \<not> start < 2 ^ 64 \<or> start = 0 \<or> size = 0 \<or> 2 ^ 64 - 1 - start < size - 1
        then Inl (fatal ''invalid Inbox batch range'')
        else bindE (foldE addRef (blobRefs (drop 70 data)) []) (\<lambda>hashes.
          Inr (\<lparr>bat_Index = word_of_nat index, bat_Root = lb_ParentHash b, bat_Size = word_of_nat size,
            bat_PrevTotalElements = word_of_nat start - 1, bat_ExtraData = '''', bat_BlockNumber = lb_NumberU64 b,
            bat_Timestamp = lb_Time b, bat_Submitter = from, bat_L1TransactionHash = lt_Hash tx\<rparr>, hashes)))"

definition sourceBlock :: "blob_env \<Rightarrow> hash \<Rightarrow> (l1Block \<times> l1Tx \<times> receipt) bsync" where
  "sourceBlock E hash = bindM (call E (\<lambda>k. bx_TransactionReceipt E k hash)) (\<lambda>r.
     case r of None \<Rightarrow> throw (Err ErrOther ''blob transaction receipt unavailable; retry'')
     | Some r \<Rightarrow> bindM (call E (\<lambda>k. bx_BlockByHash E k (rc_BlockHash r))) (\<lambda>b.
        case b of None \<Rightarrow> throw (Err ErrOther ''blob transaction block unavailable; retry'')
        | Some b \<Rightarrow>
           if \<not> IsUint64 (lb_Number b) \<or> rc_BlockNumber r \<noteq> Some (lb_Number b) \<or> rc_TxHash r \<noteq> hash \<or> rc_BlockHash r \<noteq> lb_Hash b \<or>
             length (lb_Transactions b) \<le> unat (rc_TransactionIndex r)
           then throw (fatal ''invalid Blob transaction receipt'')
           else let tx = lb_Transactions b ! unat (rc_TransactionIndex r) in
             if lt_Hash tx \<noteq> hash \<or> lt_Type tx \<noteq> BlobTxType \<or> lt_BlobHashes tx = [] \<or> rc_Status r \<noteq> ReceiptStatusSuccessful
             then throw (fatal ''invalid referenced Blob transaction'') else ret (b, tx, r)))"

definition checkSource :: "blob_env \<Rightarrow> l1Tx \<Rightarrow> l1Block \<Rightarrow> receipt \<Rightarrow> l1Block \<Rightarrow> u64 \<Rightarrow> address \<Rightarrow> unit result" where
  "checkSource E tx b r commit commitIndex authorized =
     bindE (transactionSender E tx) (\<lambda>submitter.
       if submitter \<noteq> authorized \<or> lt_To tx \<noteq> Some (c_Inbox (bx_Config E)) then Inl (fatal ''unauthorized referenced Blob transaction'')
       else if lb_Number commit < lb_Number b \<or>
         (lb_Number b = lb_Number commit \<and> (lb_Hash b \<noteq> lb_Hash commit \<or> commitIndex < rc_TransactionIndex r))
       then Inl (fatal ''Blob reference is after its Inbox commitment'') else Inr ())"

definition fetchTransaction :: "blob_env \<Rightarrow> hash \<Rightarrow> l1Block \<Rightarrow> u64 \<Rightarrow> address \<Rightarrow> u64 \<Rightarrow> BlobTransaction bsync" where
  "fetchTransaction E hash commit index submitter cutoff =
     bindM (sourceBlock E hash) (\<lambda>(b, tx, r).
     bindM (liftE (checkSource E tx b r commit index submitter)) (\<lambda>_.
       let out = \<lparr>btx_Hash = hash, btx_BlockHash = lb_Hash b, btx_Height = lb_NumberU64 b, btx_Timestamp = lb_Time b,
         btx_TxIndex = rc_TransactionIndex r, btx_Missing = False, btx_Frames = []\<rparr> in
       if lb_Time b < cutoff then ret out
       else (\<lambda>s. case callBeacon E (Frames (bx_beacon E) (Some (lb_Header b)) (lt_BlobHashes tx)) s of
           (Inl e, s') \<Rightarrow> if errors_is ErrMissing e then (Inr (out\<lparr>btx_Missing := True\<rparr>), s') else (Inl e, s')
         | (Inr frames, s') \<Rightarrow> (Inr (out\<lparr>btx_Frames := frames\<rparr>), s'))))"

definition validateSource :: "blob_env \<Rightarrow> BlobTransaction \<Rightarrow> l1Block \<Rightarrow> u64 \<Rightarrow> address \<Rightarrow> unit bsync" where
  "validateSource E source commit index submitter =
     bindM (sourceBlock E (btx_Hash source)) (\<lambda>(b, tx, r).
       if btx_BlockHash source \<noteq> lb_Hash b \<or> btx_Height source \<noteq> lb_NumberU64 b \<or> btx_Timestamp source \<noteq> lb_Time b \<or>
         btx_TxIndex source \<noteq> rc_TransactionIndex r
       then throw (fatal ''cached Blob provenance mismatch'')
       else liftE (checkSource E tx b r commit index submitter))"

record scanResult =
  sn_txs :: "BlobTransaction list"
  sn_channels :: "BlobChannel list"
  sn_cache :: "hash \<rightharpoonup> BlobTransaction"

text \<open>The source of a reference and the updated result.\<close>

definition resolveSource ::
    "blob_env \<Rightarrow> scanResult \<Rightarrow> hash \<Rightarrow> l1Block \<Rightarrow> u64 \<Rightarrow> address \<Rightarrow> u64 \<Rightarrow> (BlobTransaction \<times> scanResult) bsync" where
  "resolveSource E result hash block index submitter cutoff =
     (case sn_cache result hash of
        Some source \<Rightarrow> bindM (validateSource E source block index submitter) (\<lambda>_. ret (source, result))
      | None \<Rightarrow> bindM getM (\<lambda>s. case BlobTransaction (by_Store s) hash of
          Inl e \<Rightarrow> throw (Wrap ErrIntegrity e)
        | Inr (Some source) \<Rightarrow> bindM (validateSource E source block index submitter) (\<lambda>_.
            ret (source, result\<lparr>sn_cache := (sn_cache result)(hash \<mapsto> source)\<rparr>))
        | Inr None \<Rightarrow> bindM (fetchTransaction E hash block index submitter cutoff) (\<lambda>source.
            let result = result\<lparr>sn_cache := (sn_cache result)(hash \<mapsto> source)\<rparr> in
            ret (source, if cutoff \<le> btx_Timestamp source then result\<lparr>sn_txs := sn_txs result @ [source]\<rparr> else result))))"

primrec resolveSources ::
    "blob_env \<Rightarrow> l1Block \<Rightarrow> u64 \<Rightarrow> address \<Rightarrow> u64 \<Rightarrow> hash list \<Rightarrow> scanResult \<Rightarrow> (BlobTransaction list \<times> scanResult) bsync" where
  "resolveSources E block index submitter cutoff [] result = ret ([], result)"
| "resolveSources E block index submitter cutoff (h # hs) result =
     bindM (resolveSource E result h block index submitter cutoff) (\<lambda>(source, result).
     bindM (resolveSources E block index submitter cutoff hs result) (\<lambda>(sources, result).
       ret (if cutoff \<le> btx_Timestamp source then source # sources else sources, result)))"

definition submission ::
    "blob_env \<Rightarrow> authorization \<Rightarrow> l1Tx \<Rightarrow> l1Block \<Rightarrow> u64 \<Rightarrow> u64 \<Rightarrow> scanResult \<Rightarrow> scanResult bsync" where
  "submission E a tx block index cutoff result =
     (let c = bx_Config E in
      if lt_To tx \<noteq> Some (c_Inbox c) \<or> lt_Data tx = [] \<or> hd (lt_Data tx) \<noteq> 3 then ret result
      else case lt_Sender tx (c_L1ChainID c) of
        None \<Rightarrow> throw (fatal ''invalid Inbox transaction signature'')
      | Some from \<Rightarrow>
        if from \<noteq> sender a (lb_NumberU64 block) False (c_InboxSender c) then ret result
        else if lt_ChainId tx \<noteq> unat (c_L1ChainID c) then throw (fatal ''Inbox transaction L1 chain mismatch'')
        else bindM (getReceipt E (lt_Hash tx) block index) (\<lambda>receipt.
          if rc_Status receipt \<noteq> ReceiptStatusSuccessful then ret result
          else bindM (liftE (parseSubmission tx block from)) (\<lambda>(batch, hashes).
            bindM (resolveSources E block index (sender a (lb_NumberU64 block) True (c_BlobSender c)) cutoff hashes result) (\<lambda>(sources, result).
            bindM (liftE (DecodeChannels (bx_span E) sources batch (c_L2ChainID c))) (\<lambda>decoded.
              ret (result\<lparr>sn_channels := sn_channels result @ decoded\<rparr>))))))"

section \<open>Scanning blocks\<close>

text \<open>Applying the logs that come before a position; the rest remains.\<close>

primrec applyBefore :: "blob_env \<Rightarrow> (Log \<Rightarrow> bool) \<Rightarrow> Log list \<Rightarrow> authorization \<Rightarrow> (authorization \<times> Log list) result" where
  "applyBefore E before [] a = Inr (a, [])"
| "applyBefore E before (l # ls) a =
     (if before l then bindE (applyLog (bx_auth E) (c_AddressManager (bx_Config E)) l a) (applyBefore E before ls)
      else Inr (a, l # ls))"

type_synonym scanState = "authorization \<times> Log list \<times> scanResult"

primrec scanTxs :: "blob_env \<Rightarrow> u64 \<Rightarrow> l1Block \<Rightarrow> u64 \<Rightarrow> nat \<Rightarrow> l1Tx list \<Rightarrow> scanState \<Rightarrow> scanState bsync" where
  "scanTxs E cutoff block height i [] st = ret st"
| "scanTxs E cutoff block height i (tx # txs) st = (case st of (a, logs, result) \<Rightarrow>
     bindM (liftE (applyBefore E (\<lambda>l. lg_BlockNumber l < height \<or> (lg_BlockNumber l = height \<and> unat (lg_TxIndex l) < i)) logs a)) (\<lambda>(a, logs).
     bindM (submission E a tx block (word_of_nat i) cutoff result) (\<lambda>result.
       scanTxs E cutoff block height (Suc i) txs (a, logs, result))))"

definition scanBlock :: "blob_env \<Rightarrow> u64 \<Rightarrow> u64 \<Rightarrow> scanState \<Rightarrow> scanState bsync" where
  "scanBlock E cutoff height st =
     bindM (call E (\<lambda>k. bx_BlockByNumber E k height)) (\<lambda>b.
       case b of None \<Rightarrow> throw (fatal ''invalid Inbox block'')
       | Some block \<Rightarrow>
          if \<not> IsUint64 (lb_Number block) \<or> lb_NumberU64 block \<noteq> height then throw (fatal ''invalid Inbox block'')
          else bindM (scanTxs E cutoff block height 0 (lb_Transactions block) st) (\<lambda>(a, logs, result).
            bindM (liftE (applyBefore E (\<lambda>l. lg_BlockNumber l = height) logs a)) (\<lambda>(a, logs). ret (a, logs, result))))"

primrec scanBlocks :: "blob_env \<Rightarrow> u64 \<Rightarrow> u64 list \<Rightarrow> scanState \<Rightarrow> scanState bsync" where
  "scanBlocks E cutoff [] st = ret st"
| "scanBlocks E cutoff (h # hs) st = bindM (scanBlock E cutoff h st) (scanBlocks E cutoff hs)"

text \<open>\<open>for height := from; ; height++ { ... if height == end { break } }\<close>\<close>

definition heights :: "u64 \<Rightarrow> u64 \<Rightarrow> u64 list" where
  "heights from end = map (\<lambda>i. from + word_of_nat i) [0 ..< Suc (unat (end - from))]"

definition emptyResult :: scanResult where
  "emptyResult = \<lparr>sn_txs = [], sn_channels = [], sn_cache = Map.empty\<rparr>"

definition scan :: "blob_env \<Rightarrow> authorization \<Rightarrow> Log list \<Rightarrow> u64 \<Rightarrow> u64 \<Rightarrow> u64 \<Rightarrow>
    (BlobTransaction list \<times> BlobChannel list \<times> authorization) bsync" where
  "scan E a logs from end cutoff =
     bindM (scanBlocks E cutoff (heights from end) (a, logs, emptyResult)) (\<lambda>(a, logs, result).
       if logs \<noteq> [] then throw (fatal ''unapplied authorization logs'')
       else ret (sn_txs result, sn_channels result, a))"

end
