(* ===== verification/ScanSafe.thy ===== *)
theory ScanSafe
  imports BlobScan
begin

text \<open>
  What a scan of the Blob synchronizer returns: only channels of successful Inbox transactions by
  the batch sender in charge at their block, put together from transactions that the Blob sender
  in charge sent to the Inbox at or before the commitment, and the authorization after all logs.
\<close>

section \<open>The sources of a submission\<close>

text \<open>A transaction that may carry Blobs for a commitment.\<close>

definition sourced :: "blob_env \<Rightarrow> l1Block \<Rightarrow> u64 \<Rightarrow> address \<Rightarrow> hash \<Rightarrow> bool" where
  "sourced E commit index authorized hash \<longleftrightarrow> (\<exists>k1 k2 r b tx.
     bx_TransactionReceipt E k1 hash = Inr (Some r) \<and> rc_Status r = ReceiptStatusSuccessful \<and>
     bx_BlockByHash E k2 (rc_BlockHash r) = Inr (Some b) \<and> lb_Hash b = rc_BlockHash r \<and>
     unat (rc_TransactionIndex r) < length (lb_Transactions b) \<and> tx = lb_Transactions b ! unat (rc_TransactionIndex r) \<and>
     lt_Hash tx = hash \<and> lt_Type tx = BlobTxType \<and>
     lt_Sender tx (c_L1ChainID (bx_Config E)) = Some authorized \<and> lt_To tx = Some (c_Inbox (bx_Config E)) \<and>
     (lb_Number b < lb_Number commit \<or>
      lb_Number b = lb_Number commit \<and> lb_Hash b = lb_Hash commit \<and> rc_TransactionIndex r \<le> index))"

lemma call_Inr: "call E ans s = (Inr x, s') \<Longrightarrow> \<exists>k. ans k = Inr x"
  by (auto simp: call_def Let_def split: prod.splits)

lemma sourceBlock_Inr:
  assumes "sourceBlock E hash s = (Inr (b, tx, r), s')"
  shows "\<exists>k1 k2. bx_TransactionReceipt E k1 hash = Inr (Some r) \<and> bx_BlockByHash E k2 (rc_BlockHash r) = Inr (Some b) \<and>
    rc_Status r = ReceiptStatusSuccessful \<and> lb_Hash b = rc_BlockHash r \<and> unat (rc_TransactionIndex r) < length (lb_Transactions b) \<and>
    tx = lb_Transactions b ! unat (rc_TransactionIndex r) \<and> lt_Hash tx = hash \<and> lt_Type tx = BlobTxType"
proof -
  from assms obtain x s1 where one: "call E (\<lambda>k. bx_TransactionReceipt E k hash) s = (Inr (Some x), s1)"
    unfolding sourceBlock_def bindM_Inr by (auto split: option.split_asm)
  with assms obtain y s2 where two: "call E (\<lambda>k. bx_BlockByHash E k (rc_BlockHash x)) s1 = (Inr (Some y), s2)"
    unfolding sourceBlock_def by (auto simp: bindM_Inr split: option.split_asm)
  from assms one two have "b = y" "r = x" "rc_Status r = ReceiptStatusSuccessful" "lb_Hash b = rc_BlockHash r"
    "unat (rc_TransactionIndex r) < length (lb_Transactions b)"
    "tx = lb_Transactions b ! unat (rc_TransactionIndex r)" "lt_Hash tx = hash" "lt_Type tx = BlobTxType"
    by (auto simp: sourceBlock_def bindM_Inr Let_def not_le split: if_split_asm)
  with call_Inr [OF one] call_Inr [OF two] show ?thesis by blast
qed

lemma checkSource_Inr:
  assumes "checkSource E tx b r commit index authorized = Inr ()"
  shows "lt_Sender tx (c_L1ChainID (bx_Config E)) = Some authorized \<and> lt_To tx = Some (c_Inbox (bx_Config E)) \<and>
    (lb_Number b < lb_Number commit \<or> lb_Number b = lb_Number commit \<and> lb_Hash b = lb_Hash commit \<and> rc_TransactionIndex r \<le> index)"
  using assms by (auto simp: checkSource_def transactionSender_def bindE_Inr not_less split: if_splits option.splits)

lemma sourcedI:
  assumes "sourceBlock E hash s = (Inr (b, tx, r), s')" "checkSource E tx b r commit index authorized = Inr ()"
  shows "sourced E commit index authorized hash"
  using sourceBlock_Inr [OF assms(1)] checkSource_Inr [OF assms(2)] unfolding sourced_def by blast

lemma fetchTransaction_Inr:
  assumes "fetchTransaction E hash commit index authorized cutoff s = (Inr src, s')"
  shows "btx_Hash src = hash \<and> sourced E commit index authorized hash"
proof -
  from assms obtain b tx r s1 where "sourceBlock E hash s = (Inr (b, tx, r), s1)"
    "checkSource E tx b r commit index authorized = Inr ()"
    unfolding fetchTransaction_def by (auto simp: bindM_Inr)
  moreover from assms have "btx_Hash src = hash"
    unfolding fetchTransaction_def
    by (auto simp: bindM_Inr Let_def split: if_split_asm) (auto split: if_split_asm prod.split_asm sum.split_asm)
  ultimately show ?thesis using sourcedI by blast
qed

lemma validateSource_Inr:
  assumes "validateSource E src commit index authorized s = (Inr u, s')"
  shows "sourced E commit index authorized (btx_Hash src)"
proof -
  from assms obtain b tx r s1 where "sourceBlock E (btx_Hash src) s = (Inr (b, tx, r), s1)"
    "checkSource E tx b r commit index authorized = Inr ()"
    unfolding validateSource_def by (auto simp: bindM_Inr split: if_splits)
  then show ?thesis by (rule sourcedI)
qed

text \<open>The cache is keyed by the hash of the transaction.\<close>

definition cache_ok :: "scanResult \<Rightarrow> bool" where
  "cache_ok result \<longleftrightarrow> (\<forall>h t. sn_cache result h = Some t \<longrightarrow> btx_Hash t = h)"

lemma BlobTransaction_hash: "BlobTransaction st h = Inr (Some t) \<Longrightarrow> btx_Hash t = h"
  by (auto simp: BlobTransaction_def bindE_Inr split: if_splits option.splits)

lemma resolveSource_Inr:
  assumes "resolveSource E result hash commit index authorized cutoff s = (Inr (src, result'), s')" "cache_ok result"
  shows "btx_Hash src = hash \<and> sourced E commit index authorized hash \<and> cache_ok result' \<and> sn_channels result' = sn_channels result"
proof (cases "sn_cache result hash")
  case (Some t)
  with assms show ?thesis
    by (auto simp: resolveSource_def bindM_Inr cache_ok_def dest: validateSource_Inr)
next
  case None
  show ?thesis
  proof (cases "BlobTransaction (by_Store s) hash")
    case (Inl e)
    with None assms(1) show ?thesis by (simp add: resolveSource_def bindM_Inr)
  next
    case (Inr saved)
    then show ?thesis
    proof (cases saved)
      case (Some t)
      with None Inr assms show ?thesis using BlobTransaction_hash
        by (auto simp: resolveSource_def bindM_Inr cache_ok_def split: if_split_asm dest!: validateSource_Inr)
    next
      assume "saved = None"
      with None Inr assms show ?thesis
        by (auto simp: resolveSource_def bindM_Inr cache_ok_def Let_def split: if_split_asm dest!: fetchTransaction_Inr)
    qed
  qed
qed

lemma resolveSources_Inr:
  assumes "resolveSources E commit index authorized cutoff hs result s = (Inr (srcs, result'), s')" "cache_ok result"
  shows "cache_ok result' \<and> sn_channels result' = sn_channels result \<and>
    (\<forall>src \<in> set srcs. btx_Hash src \<in> set hs \<and> sourced E commit index authorized (btx_Hash src) \<and> cutoff \<le> btx_Timestamp src)"
  using assms
proof (induction hs arbitrary: result s srcs)
  case Nil
  then show ?case by simp
next
  case (Cons h hs)
  from Cons.prems(1) obtain src result1 s1 rest where
    one: "resolveSource E result h commit index authorized cutoff s = (Inr (src, result1), s1)"
    and more: "resolveSources E commit index authorized cutoff hs result1 s1 = (Inr (rest, result'), s')"
    and srcs: "srcs = (if cutoff \<le> btx_Timestamp src then src # rest else rest)"
    by (auto simp: bindM_Inr)
  from resolveSource_Inr [OF one Cons.prems(2)] Cons.IH [OF more] srcs show ?case by auto
qed

section \<open>Submissions\<close>

text \<open>A channel that a transaction of a block commits to, under an authorization.\<close>

definition admitted :: "blob_env \<Rightarrow> u64 \<Rightarrow> authorization \<Rightarrow> l1Block \<Rightarrow> u64 \<Rightarrow> l1Tx \<Rightarrow> BlobChannel \<Rightarrow> bool" where
  "admitted E cutoff a block index tx ch \<longleftrightarrow> (let c = bx_Config E; n = lb_NumberU64 block; from = sender a n False (c_InboxSender c) in
     lt_To tx = Some (c_Inbox c) \<and> lt_Sender tx (c_L1ChainID c) = Some from \<and> lt_ChainId tx = unat (c_L1ChainID c) \<and>
     (\<exists>k r. bx_TransactionReceipt E k (lt_Hash tx) = Inr (Some r) \<and> rc_BlockHash r = lb_Hash block \<and>
        rc_TransactionIndex r = index \<and> rc_Status r = ReceiptStatusSuccessful) \<and>
     (\<exists>hashes. parseSubmission tx block from = Inr (ch_Batch (bc_Record ch), hashes) \<and>
        (\<forall>h \<in> set (ch_Sources (bc_Record ch)). h \<in> set hashes \<and>
           sourced E block index (sender a n True (c_BlobSender c)) h)) \<and>
     cutoff \<le> ch_ExpiresAt (bc_Record ch))"

lemma getReceipt_Inr:
  assumes "getReceipt E hash b index s = (Inr r, s')"
  shows "\<exists>k. bx_TransactionReceipt E k hash = Inr (Some r) \<and> rc_BlockHash r = lb_Hash b \<and> rc_TransactionIndex r = index"
  using assms by (auto simp: getReceipt_def bindM_Inr split: option.split_asm if_split_asm dest: call_Inr)

lemma channel_wf_sources:
  assumes "channel_wf txs batch ch" and "\<And>tx. tx \<in> set txs \<Longrightarrow> P (btx_Hash tx) \<and> cutoff \<le> btx_Timestamp tx"
  shows "(\<forall>h \<in> set (ch_Sources (bc_Record ch)). P h) \<and> cutoff \<le> ch_ExpiresAt (bc_Record ch) \<and> ch_Batch (bc_Record ch) = batch"
  using assms unfolding channel_wf_def Let_def by metis

lemma submission_Inr:
  assumes "submission E a tx block index cutoff result s = (Inr result', s')" "cache_ok result"
  shows "cache_ok result' \<and> (\<exists>chs. sn_channels result' = sn_channels result @ chs \<and> (\<forall>ch \<in> set chs. admitted E cutoff a block index tx ch))"
proof (cases "result' = result")
  case False
  let ?c = "bx_Config E"
  let ?from = "sender a (lb_NumberU64 block) False (c_InboxSender ?c)"
  let ?blob = "sender a (lb_NumberU64 block) True (c_BlobSender ?c)"
  from False assms(1) have "lt_To tx = Some (c_Inbox ?c)" "lt_Sender tx (c_L1ChainID ?c) = Some ?from"
    "lt_ChainId tx = unat (c_L1ChainID ?c)"
    by (auto simp: submission_def Let_def split: if_split_asm option.split_asm)
  note tx = this
  from False assms(1) tx obtain r s1 batch hashes sources result1 s2 chs where
    r: "getReceipt E (lt_Hash tx) block index s = (Inr r, s1)" "rc_Status r = ReceiptStatusSuccessful"
    and parse: "parseSubmission tx block ?from = Inr (batch, hashes)"
    and src: "resolveSources E block index ?blob cutoff hashes result s1 = (Inr (sources, result1), s2)"
    and dec: "DecodeChannels (bx_span E) sources batch (c_L2ChainID ?c) = Inr chs"
    and res: "result' = result1\<lparr>sn_channels := sn_channels result1 @ chs\<rparr>"
    by (auto simp: submission_def Let_def bindM_Inr split: if_split_asm)
  from resolveSources_Inr [OF src assms(2)] have ok: "cache_ok result1" "sn_channels result1 = sn_channels result"
    and each: "\<And>t. t \<in> set sources \<Longrightarrow> (btx_Hash t \<in> set hashes \<and> sourced E block index ?blob (btx_Hash t)) \<and> cutoff \<le> btx_Timestamp t"
    by auto
  have "admitted E cutoff a block index tx ch" if "ch \<in> set chs" for ch
  proof -
    have "channel_wf sources batch ch" using DecodeChannels_wf [OF dec] that by (simp add: list_all_iff)
    from channel_wf_sources [OF this each] tx parse getReceipt_Inr [OF r(1)] r(2) show ?thesis
      unfolding admitted_def Let_def by auto
  qed
  with ok res show ?thesis by (auto simp: cache_ok_def)
qed (use assms in auto)

section \<open>The order of logs and transactions\<close>

text \<open>The logs before a transaction of a block.\<close>

definition log_before :: "u64 \<Rightarrow> nat \<Rightarrow> Log \<Rightarrow> bool" where
  "log_before height i l \<longleftrightarrow> lg_BlockNumber l < height \<or> lg_BlockNumber l = height \<and> unat (lg_TxIndex l) < i"

lemma log_before_down: "log_before h i k \<Longrightarrow> log_le l k \<Longrightarrow> log_before h i l"
  by (auto simp: log_before_def log_le_def word_less_nat_alt)

text \<open>In a sorted list the elements with a property that is closed downwards come first.\<close>

lemma sorted_prefix:
  assumes "sorted_wrt R xs" and down: "\<And>l k. q k \<Longrightarrow> R l k \<Longrightarrow> q l"
  shows "takeWhile q xs = filter q xs \<and> dropWhile q xs = filter (\<lambda>l. \<not> q l) xs"
  using assms(1)
proof (induction xs)
  case (Cons x xs)
  have "\<forall>k \<in> set xs. \<not> q k" if "\<not> q x" using Cons.prems that down by auto
  then have "filter q xs = [] \<and> filter (\<lambda>l. \<not> q l) xs = xs" if "\<not> q x"
    using that by (simp add: filter_empty_conv filter_id_conv)
  with Cons show ?case by simp
qed simp

lemma applyBefore_Inr:
  "applyBefore E p logs a = Inr (a', rest) \<longleftrightarrow> applyLogs E (takeWhile p logs) a = Inr a' \<and> rest = dropWhile p logs"
  by (induction logs arbitrary: a) (auto simp: applyLogs_def bindE_Inr)

lemma applyLogs_append: "applyLogs E (xs @ ys) a = bindE (applyLogs E xs a) (applyLogs E ys)"
proof -
  have "applyLogs E ys = foldE (applyLog (bx_auth E) (c_AddressManager (bx_Config E))) ys"
    by (rule ext) (simp add: applyLogs_def)
  then show ?thesis by (simp add: applyLogs_def foldE_append)
qed

text \<open>The logs are split at a position: the ones before it are applied, the others remain.\<close>

definition split_at :: "blob_env \<Rightarrow> authorization \<Rightarrow> Log list \<Rightarrow> (Log \<Rightarrow> bool) \<Rightarrow> authorization \<Rightarrow> Log list \<Rightarrow> bool" where
  "split_at E a0 logs p a rest \<longleftrightarrow> applyLogs E (filter p logs) a0 = Inr a \<and> rest = filter (\<lambda>l. \<not> p l) logs"

lemma split_advance:
  assumes split: "split_at E a0 logs p a rest" and app: "applyBefore E r rest a = Inr (a', rest')"
    and sorted: "sorted_wrt log_le logs"
    and closed: "\<And>l k. p k \<Longrightarrow> log_le l k \<Longrightarrow> p l" and grow: "\<And>l. p l \<Longrightarrow> q l" and down: "\<And>l k. q k \<Longrightarrow> log_le l k \<Longrightarrow> q l"
    and same: "\<And>l. l \<in> set rest \<Longrightarrow> r l = q l"
  shows "split_at E a0 logs q a' rest'"
proof -
  have rest: "rest = filter (\<lambda>l. \<not> p l) logs" using split by (simp add: split_at_def)
  have "sorted_wrt log_le rest" using sorted rest by (simp add: sorted_wrt_filter)
  from sorted_prefix [OF this, of q] down have "takeWhile q rest = filter q rest \<and> dropWhile q rest = filter (\<lambda>l. \<not> q l) rest"
    by blast
  moreover have "takeWhile r rest = takeWhile q rest" "dropWhile r rest = dropWhile q rest"
    using same by (simp_all cong: takeWhile_cong dropWhile_cong)
  ultimately have app': "applyLogs E (filter q rest) a = Inr a'" "rest' = filter (\<lambda>l. \<not> q l) rest"
    using app by (simp_all add: applyBefore_Inr)
  have "filter p logs @ filter q rest = filter q logs"
    using sorted unfolding rest
  proof (induction logs)
    case (Cons x xs)
    have "filter p xs = []" if "q x" "\<not> p x"
      using Cons.prems that closed by (auto simp: filter_empty_conv)
    with Cons grow show ?case by auto
  qed simp
  moreover have "filter (\<lambda>l. \<not> q l) rest = filter (\<lambda>l. \<not> q l) logs"
    unfolding rest filter_filter using grow by (intro filter_cong) auto
  moreover have "applyLogs E (filter p logs) a0 = Inr a" using split by (simp add: split_at_def)
  then have "applyLogs E (filter p logs @ filter q rest) a0 = Inr a'" using app'(1) by (simp only: applyLogs_append bindE_simps)
  ultimately show ?thesis using app'(2) by (simp add: split_at_def)
qed

section \<open>The scan\<close>

text \<open>A channel whose commitment is a transaction of a scanned block, under the logs before it.\<close>

definition scanned :: "blob_env \<Rightarrow> u64 \<Rightarrow> authorization \<Rightarrow> Log list \<Rightarrow> u64 \<Rightarrow> BlobChannel \<Rightarrow> bool" where
  "scanned E cutoff a0 logs height ch \<longleftrightarrow> (\<exists>k block i a.
     bx_BlockByNumber E k height = Inr (Some block) \<and> lb_NumberU64 block = height \<and> i < length (lb_Transactions block) \<and>
     applyLogs E (filter (log_before height i) logs) a0 = Inr a \<and>
     admitted E cutoff a block (word_of_nat i) (lb_Transactions block ! i) ch)"

text \<open>The logs applied when the first \<open>i\<close> transactions have been looked at.\<close>

definition passed :: "u64 \<Rightarrow> nat \<Rightarrow> Log \<Rightarrow> bool" where
  "passed height i = (case i of 0 \<Rightarrow> (\<lambda>l. lg_BlockNumber l < height) | Suc j \<Rightarrow> log_before height j)"

lemma passed_bounds: "lg_BlockNumber l < height \<Longrightarrow> passed height i l" "passed height i l \<Longrightarrow> lg_BlockNumber l \<le> height"
  "passed height i k \<Longrightarrow> log_le l k \<Longrightarrow> passed height i l" "passed height i l \<Longrightarrow> log_before height i l"
  by (auto simp: passed_def log_before_def log_le_def word_less_nat_alt word_le_nat_alt split: nat.splits)

lemma scanTxs_Inr:
  assumes run: "scanTxs E cutoff block height i txs (a, rest, result) s = (Inr (a', rest', result'), s')"
    and sorted: "sorted_wrt log_le logs"
    and split: "split_at E a0 logs (passed height i) a rest"
    and ok: "cache_ok result"
  shows "cache_ok result' \<and> split_at E a0 logs (passed height (i + length txs)) a' rest' \<and>
    (\<exists>chs. sn_channels result' = sn_channels result @ chs \<and> (\<forall>ch \<in> set chs. \<exists>j a. j < length txs \<and>
       applyLogs E (filter (log_before height (i + j)) logs) a0 = Inr a \<and> admitted E cutoff a block (word_of_nat (i + j)) (txs ! j) ch))"
  using run split ok
proof (induction txs arbitrary: i a rest result s)
  case Nil
  then show ?case by auto
next
  case (Cons tx txs)
  from Cons.prems(1) obtain a1 rest1 result1 s1 where
    app: "applyBefore E (log_before height i) rest a = Inr (a1, rest1)"
    and sub: "submission E a1 tx block (word_of_nat i) cutoff result s = (Inr result1, s1)"
    and more: "scanTxs E cutoff block height (Suc i) txs (a1, rest1, result1) s1 = (Inr (a', rest', result'), s')"
    by (auto simp: bindM_Inr log_before_def [abs_def])
  have split1: "split_at E a0 logs (log_before height i) a1 rest1"
    using Cons.prems(2) app sorted
    by (rule split_advance) (auto intro: passed_bounds(3,4) log_before_down)
  from submission_Inr [OF sub Cons.prems(3)] obtain chs where ok1: "cache_ok result1"
    and chs: "sn_channels result1 = sn_channels result @ chs" "\<forall>ch \<in> set chs. admitted E cutoff a1 block (word_of_nat i) tx ch" by blast
  have "split_at E a0 logs (passed height (Suc i)) a1 rest1" using split1 by (simp add: passed_def)
  from Cons.IH [OF more this ok1] obtain chs' where
    "cache_ok result'" "split_at E a0 logs (passed height (i + length (tx # txs))) a' rest'"
    and chs': "sn_channels result' = sn_channels result1 @ chs'" "\<forall>ch \<in> set chs'. \<exists>j a. j < length txs \<and>
       applyLogs E (filter (log_before height (Suc i + j)) logs) a0 = Inr a \<and> admitted E cutoff a block (word_of_nat (Suc i + j)) (txs ! j) ch"
    by auto
  moreover have "\<forall>ch \<in> set (chs @ chs'). \<exists>j a. j < length (tx # txs) \<and>
       applyLogs E (filter (log_before height (i + j)) logs) a0 = Inr a \<and> admitted E cutoff a block (word_of_nat (i + j)) ((tx # txs) ! j) ch"
  proof
    fix ch assume "ch \<in> set (chs @ chs')"
    then consider "ch \<in> set chs" | "ch \<in> set chs'" by auto
    then show "\<exists>j a. j < length (tx # txs) \<and> applyLogs E (filter (log_before height (i + j)) logs) a0 = Inr a \<and>
       admitted E cutoff a block (word_of_nat (i + j)) ((tx # txs) ! j) ch"
    proof cases
      case 1
      with chs(2) split1 show ?thesis by (intro exI [of _ 0] exI [of _ a1]) (simp add: split_at_def)
    next
      case 2
      with chs'(2) obtain j b where "j < length txs" "applyLogs E (filter (log_before height (Suc i + j)) logs) a0 = Inr b"
        "admitted E cutoff b block (word_of_nat (Suc i + j)) (txs ! j) ch" by blast
      then show ?thesis by (intro exI [of _ "Suc j"] exI [of _ b]) simp
    qed
  qed
  ultimately show ?case using chs(1) by auto
qed

lemma scanBlock_Inr:
  assumes run: "scanBlock E cutoff height (a, rest, result) s = (Inr (a', rest', result'), s')"
    and sorted: "sorted_wrt log_le logs"
    and split: "split_at E a0 logs (\<lambda>l. lg_BlockNumber l < height) a rest"
    and ok: "cache_ok result"
  shows "cache_ok result' \<and> split_at E a0 logs (\<lambda>l. lg_BlockNumber l \<le> height) a' rest' \<and>
    (\<exists>chs. sn_channels result' = sn_channels result @ chs \<and> (\<forall>ch \<in> set chs. scanned E cutoff a0 logs height ch))"
proof -
  from run obtain block s1 s2 a1 rest1 where
    b: "call E (\<lambda>k. bx_BlockByNumber E k height) s = (Inr (Some block), s1)" and n: "lb_NumberU64 block = height"
    and txs: "scanTxs E cutoff block height 0 (lb_Transactions block) (a, rest, result) s1 = (Inr (a1, rest1, result'), s2)"
    and app: "applyBefore E (\<lambda>l. lg_BlockNumber l = height) rest1 a1 = Inr (a', rest')"
    unfolding scanBlock_def by (auto simp: bindM_Inr split: option.split_asm if_split_asm)
  have "split_at E a0 logs (passed height 0) a rest" using split by (simp add: passed_def)
  from scanTxs_Inr [OF txs sorted this ok] obtain chs where ok': "cache_ok result'"
    and split1: "split_at E a0 logs (passed height (length (lb_Transactions block))) a1 rest1"
    and chs: "sn_channels result' = sn_channels result @ chs" "\<forall>ch \<in> set chs. \<exists>j a. j < length (lb_Transactions block) \<and>
       applyLogs E (filter (log_before height j) logs) a0 = Inr a \<and> admitted E cutoff a block (word_of_nat j) (lb_Transactions block ! j) ch"
    by auto
  have "split_at E a0 logs (\<lambda>l. lg_BlockNumber l \<le> height) a' rest'"
    using split1 app sorted
  proof (rule split_advance)
    show "(lg_BlockNumber l = height) = (lg_BlockNumber l \<le> height)" if "l \<in> set rest1" for l
      using that split1 passed_bounds(1) [of l height "length (lb_Transactions block)"] by (auto simp: split_at_def le_less)
    show "lg_BlockNumber l \<le> height" if "lg_BlockNumber k \<le> height" "log_le l k" for l k
      using that by (auto simp: log_le_def)
  qed (auto intro: passed_bounds)
  with ok' chs call_Inr [OF b] n show ?thesis unfolding scanned_def by blast
qed

lemma unat_suc:
  fixes f e :: u64
  assumes "f < e"
  shows "unat (f + 1) = Suc (unat f)"
proof -
  have "unat f + unat (1 :: u64) < 2 ^ LENGTH(64)"
    using assms unsigned_less [of e, where ?'a = nat] by (simp add: word_less_nat_alt)
  then show ?thesis by (simp add: unat_add_lem [THEN iffD1])
qed

lemma heights_step:
  assumes "from \<le> end"
  shows "heights from end = from # (if from = end then [] else heights (from + 1) end)"
proof (cases "from = end")
  case False
  with assms have pos: "end - from \<noteq> 0" by simp
  have "unat (end - (from + 1)) = unat (end - from) - 1"
    using pos unat_minus_one [of "end - from"] by (simp add: diff_diff_eq)
  moreover have "0 < unat (end - from)" using pos by (simp add: unat_gt_0)
  ultimately have n: "unat (end - from) = Suc (unat (end - (from + 1)))" by simp
  have "map (\<lambda>i. from + word_of_nat i) (map Suc [0 ..< Suc (unat (end - (from + 1)))]) = heights (from + 1) end"
    by (simp add: heights_def add.assoc add.commute)
  moreover have "[0 ..< Suc (unat (end - from))] = 0 # map Suc [0 ..< Suc (unat (end - (from + 1)))]"
    unfolding n by (simp add: upt_conv_Cons map_Suc_upt del: upt_Suc)
  ultimately show ?thesis using False by (simp add: heights_def del: upt_Suc)
qed (simp add: heights_def)

lemma scanBlocks_Inr:
  assumes "scanBlocks E cutoff (heights from end) (a, rest, result) s = (Inr (a', rest', result'), s')"
    and sorted: "sorted_wrt log_le logs" and "from \<le> end"
    and "split_at E a0 logs (\<lambda>l. lg_BlockNumber l < from) a rest" and "cache_ok result"
  shows "split_at E a0 logs (\<lambda>l. lg_BlockNumber l \<le> end) a' rest' \<and>
    (\<exists>chs. sn_channels result' = sn_channels result @ chs \<and>
      (\<forall>ch \<in> set chs. \<exists>h. from \<le> h \<and> h \<le> end \<and> scanned E cutoff a0 logs h ch))"
  using assms(1,3-)
proof (induction "unat (end - from)" arbitrary: "from" a rest result s)
  case 0
  then have eq: "from = end" by (simp add: unat_eq_0)
  with 0 have "scanBlock E cutoff end (a, rest, result) s = (Inr (a', rest', result'), s')"
    by (auto simp: heights_def bindM_Inr)
  from scanBlock_Inr [OF this sorted _ \<open>cache_ok result\<close>, of a0] 0(4) eq show ?case by blast
next
  case (Suc n)
  then have lt: "from < end" by (metis unat_eq_zero diff_self le_neq_trans nat.simps(3))
  from Suc.prems(1) obtain a1 rest1 result1 s1 where
    one: "scanBlock E cutoff from (a, rest, result) s = (Inr (a1, rest1, result1), s1)"
    and more: "scanBlocks E cutoff (heights (from + 1) end) (a1, rest1, result1) s1 = (Inr (a', rest', result'), s')"
    using heights_step [OF Suc.prems(2)] lt by (auto simp: bindM_Inr less_le)
  have succ: "l \<le> from \<longleftrightarrow> l < from + 1" for l
    using unat_suc [OF lt] by (simp add: word_le_nat_alt word_less_nat_alt less_Suc_eq_le)
  have n: "n = unat (end - (from + 1))" and le: "from + 1 \<le> end"
    using Suc.hyps(2) lt unat_minus_one [of "end - from"] by (auto simp: diff_diff_eq inc_le)
  from scanBlock_Inr [OF one sorted Suc.prems(3,4)] obtain chs where ok: "cache_ok result1"
    and split: "split_at E a0 logs (\<lambda>l. lg_BlockNumber l < from + 1) a1 rest1"
    and chs: "sn_channels result1 = sn_channels result @ chs" "\<forall>ch \<in> set chs. scanned E cutoff a0 logs from ch"
    unfolding succ by blast
  from Suc.hyps(1) [OF n more le split ok] obtain chs' where
    fin: "split_at E a0 logs (\<lambda>l. lg_BlockNumber l \<le> end) a' rest'" "sn_channels result' = sn_channels result1 @ chs'"
    and each: "\<forall>ch \<in> set chs'. \<exists>h. from + 1 \<le> h \<and> h \<le> end \<and> scanned E cutoff a0 logs h ch" by blast
  have "from \<le> h" if "from + 1 \<le> h" for h using that succ [of "from"] by (meson less_imp_le order_refl order_trans)
  with each have "\<forall>ch \<in> set chs'. \<exists>h. from \<le> h \<and> h \<le> end \<and> scanned E cutoff a0 logs h ch" by blast
  moreover have "\<forall>ch \<in> set chs. \<exists>h. from \<le> h \<and> h \<le> end \<and> scanned E cutoff a0 logs h ch"
    using chs(2) Suc.prems(2) by blast
  ultimately have "\<forall>ch \<in> set (chs @ chs'). \<exists>h. from \<le> h \<and> h \<le> end \<and> scanned E cutoff a0 logs h ch" by auto
  moreover have "sn_channels result' = sn_channels result @ (chs @ chs')" using fin(2) chs(1) by simp
  ultimately show ?case using fin(1) by blast
qed

lemma scan_sound:
  assumes "scan E a logs from end cutoff s = (Inr (txs, chs, a'), s')" and sorted: "sorted_wrt log_le logs"
    and low: "\<forall>l \<in> set logs. from \<le> lg_BlockNumber l" and le: "from \<le> end"
  shows "applyLogs E logs a = Inr a' \<and> (\<forall>ch \<in> set chs. \<exists>h. from \<le> h \<and> h \<le> end \<and> scanned E cutoff a logs h ch)"
proof -
  from assms(1) obtain result where
    run: "scanBlocks E cutoff (heights from end) (a, logs, emptyResult) s = (Inr (a', [], result), s')" and chs: "chs = sn_channels result"
    by (auto simp: scan_def bindM_Inr split: if_split_asm)
  have "split_at E a logs (\<lambda>l. lg_BlockNumber l < from) a logs"
    using low by (auto simp: split_at_def applyLogs_def filter_empty_conv not_less cong: filter_cong)
  from scanBlocks_Inr [OF run sorted le this] obtain chs' where
    split: "split_at E a logs (\<lambda>l. lg_BlockNumber l \<le> end) a' []" and "chs = sn_channels emptyResult @ chs'"
    and "\<forall>ch \<in> set chs'. \<exists>h. from \<le> h \<and> h \<le> end \<and> scanned E cutoff a logs h ch"
    using chs by (auto simp: cache_ok_def emptyResult_def)
  moreover from split have "filter (\<lambda>l. \<not> lg_BlockNumber l \<le> end) logs = []" by (simp add: split_at_def)
  then have "filter (\<lambda>l. lg_BlockNumber l \<le> end) logs = logs" by (simp add: filter_empty_conv filter_id_conv)
  ultimately show ?thesis by (simp add: split_at_def emptyResult_def)
qed

section \<open>The property of a scan\<close>

text \<open>C31.
  A scan accepts only authorized submissions.  For ordered logs of the window, a successful scan
  has applied every log, and each channel it returns belongs to a transaction of a scanned block
  that succeeded, was sent to the Inbox by the batch sender in charge after exactly the logs
  before that transaction, and refers to every source of the channel; every source is a
  successful Blob transaction to the Inbox by the Blob sender in charge, at or before the
  commitment, and within the retention cutoff.\<close>

theorem scan_authorized:
  assumes "scan E a logs from end cutoff s = (Inr (txs, chs, a'), s')" and "sorted_wrt log_le logs"
    and "\<forall>l \<in> set logs. from \<le> lg_BlockNumber l" and "from \<le> end"
  shows "applyLogs E logs a = Inr a' \<and> (\<forall>ch \<in> set chs. \<exists>h. from \<le> h \<and> h \<le> end \<and> scanned E cutoff a logs h ch)"
  by (rule scan_sound [OF assms])

subsection \<open>A window with one submission\<close>

definition commit_data :: bytes where
  "commit_data = [3, 0] @ be_bytes 32 7 @ be_bytes 32 1 @ be_bytes 4 2 @ be_bytes 32 21"

definition commit_tx :: l1Tx where
  "commit_tx = \<lparr>lt_Hash = 77, lt_To = Some 5, lt_Data = commit_data, lt_Type = 2, lt_BlobHashes = [], lt_ChainId = 1, lt_Sender = (\<lambda>_. Some 3)\<rparr>"

definition carrier_tx :: l1Tx where
  "carrier_tx = \<lparr>lt_Hash = 21, lt_To = Some 5, lt_Data = [], lt_Type = 3, lt_BlobHashes = [17], lt_ChainId = 1, lt_Sender = (\<lambda>_. Some 4)\<rparr>"

definition commit_block :: l1Block where
  "commit_block = \<lparr>lb_Number = 40, lb_Hash = 41, lb_ParentHash = 0, lb_Time = 500, lb_Transactions = [commit_tx], lb_SlotNumber = None\<rparr>"

definition carrier_block :: l1Block where
  "carrier_block = \<lparr>lb_Number = 39, lb_Hash = 22, lb_ParentHash = 0, lb_Time = 480, lb_Transactions = [carrier_tx], lb_SlotNumber = None\<rparr>"

definition scan_env :: blob_env where
  "scan_env = \<lparr>bx_Config = sample_Config\<lparr>c_L1ChainID := 1, c_L2ChainID := 1088, c_Inbox := 5, c_InboxSender := 3, c_BlobSender := 4, c_InboxStart := 40\<rparr>,
     bx_auth = \<lparr>ax_AddressSet = en_AddressSet sample_env, ax_managerName = 1, ax_senderTopic = 2\<rparr>,
     bx_span = sample_codec, bx_beacon = sample_beacon, bx_sort = sort_logs,
     bx_HeaderByNumber = (\<lambda>_ n. Inr (Some \<lparr>bh_Number = Some (case n of None \<Rightarrow> 40 | Some n \<Rightarrow> uint n), bh_Hash = 41, bh_Time = 500, bh_SlotNumber = None\<rparr>)),
     bx_BlockByNumber = (\<lambda>_ _. Inr (Some commit_block)), bx_BlockByHash = (\<lambda>_ _. Inr (Some carrier_block)),
     bx_TransactionReceipt = (\<lambda>_ h. Inr (Some (if h = 77
       then \<lparr>rc_TxHash = 77, rc_BlockHash = 41, rc_BlockNumber = Some 40, rc_TransactionIndex = 0, rc_Status = 1\<rparr>
       else \<lparr>rc_TxHash = 21, rc_BlockHash = 22, rc_BlockNumber = Some 39, rc_TransactionIndex = 0, rc_Status = 1\<rparr>))),
     bx_FilterLogs = (\<lambda>_ _. Inr []), bx_others = (\<lambda>_ x. x), bx_ctxErr = (\<lambda>_. None), bx_cancelled = (\<lambda>_. False)\<rparr>"

definition scan_syncer :: BlobSyncer where
  "scan_syncer = \<lparr>by_Store = sample_store [(blobKey ''tx'' (hash_bytes 21), TxDoc (sample_tx [sample_frame 0, sample_frame 1]))],
     by_Status = zero_Status, by_Beacon = NewBeacon, by_bootstrap = None, by_backfills = [], by_calls = 0\<rparr>"

lemma commit_parse: "parseSubmission commit_tx commit_block 3 = Inr (Frames.sample_batch, [21])"
proof -
  have refs: "blobRefs (be_bytes 32 21) = [21]"
  proof -
    obtain b bs where c: "be_bytes 32 21 = b # bs" by (metis length_be_bytes list.exhaust list.size(3) zero_neq_numeral)
    have "blobRefs (be_bytes 32 21) = word_of_nat (be_nat (take 32 (be_bytes 32 21))) # blobRefs (drop 32 (be_bytes 32 21))"
      unfolding c by simp
    then show ?thesis by (simp add: be_nat_be_bytes)
  qed
  have parts: "take 32 (drop 2 commit_data) = be_bytes 32 7" "take 32 (drop 34 commit_data) = be_bytes 32 1"
    "take 4 (drop 66 commit_data) = be_bytes 4 2" "drop 70 commit_data = be_bytes 32 21" "length commit_data = 102" "commit_data ! 1 = 0"
    by (simp_all add: commit_data_def)
  have "unat (uint32_be (drop 66 commit_data)) = 2"
    using parts(3) by (simp add: uint32_be_def be_nat_be_bytes)
  then show ?thesis
    using parts refs
    by (simp add: parseSubmission_def commit_tx_def commit_block_def be_nat_be_bytes addRef_def lb_NumberU64_def Frames.sample_batch_def Let_def)
qed

lemma scan_env_sel:
  "c_L1ChainID (bx_Config scan_env) = 1" "c_L2ChainID (bx_Config scan_env) = 1088" "c_Inbox (bx_Config scan_env) = 5"
  "c_InboxSender (bx_Config scan_env) = 3" "c_BlobSender (bx_Config scan_env) = 4" "bx_span scan_env = sample_codec"
  "bx_others scan_env n x = x" "bx_BlockByNumber scan_env n i = Inr (Some commit_block)"
  "bx_BlockByHash scan_env n h = Inr (Some carrier_block)"
  "bx_TransactionReceipt scan_env n 77 = Inr (Some \<lparr>rc_TxHash = 77, rc_BlockHash = 41, rc_BlockNumber = Some 40, rc_TransactionIndex = 0, rc_Status = 1\<rparr>)"
  "bx_TransactionReceipt scan_env n 21 = Inr (Some \<lparr>rc_TxHash = 21, rc_BlockHash = 22, rc_BlockNumber = Some 39, rc_TransactionIndex = 0, rc_Status = 1\<rparr>)"
  by (simp_all add: scan_env_def)

lemma scan_call: "call scan_env ans s = (ans (by_calls s), s\<lparr>by_calls := Suc (by_calls s)\<rparr>)"
  by (simp add: call_def scan_env_sel Let_def)

lemma scan_stored: "BlobTransaction (by_Store scan_syncer) 21 = Inr (Some (sample_tx [sample_frame 0, sample_frame 1]))"
  by (simp add: BlobTransaction_def scan_syncer_def readJSON_def sample_tx_def)

lemma scan_validate:
  "fst (validateSource scan_env (sample_tx fs) commit_block 0 4 s) = Inr () \<and> by_Store (snd (validateSource scan_env (sample_tx fs) commit_block 0 4 s)) = by_Store s"
  by (simp add: validateSource_def sourceBlock_def checkSource_def transactionSender_def bindM_def scan_call scan_env_sel sample_tx_def
      carrier_block_def carrier_tx_def commit_block_def IsUint64_def BlobTxType_def ReceiptStatusSuccessful_def lb_NumberU64_def Let_def)

lemma scan_runs:
  "\<exists>ch a s'. scan scan_env newAuthorization [] 40 40 0 scan_syncer = (Inr ([], [ch], a), s')"
proof -
  let ?src = "sample_tx [sample_frame 0, sample_frame 1]"
  obtain ch where dec: "DecodeChannels sample_codec [?src] Frames.sample_batch 1088 = Inr [ch]" using sample_submission by blast
  define s1 where "s1 = scan_syncer\<lparr>by_calls := 2\<rparr>"
  have "by_Store s1 = by_Store scan_syncer" by (simp add: s1_def)
  then have st: "BlobTransaction (by_Store s1) 21 = Inr (Some ?src)" using scan_stored by simp
  obtain s2 where v: "validateSource scan_env ?src commit_block 0 4 s1 = (Inr (), s2)"
    using scan_validate [of "[sample_frame 0, sample_frame 1]" s1] by (metis prod.collapse)
  have src: "resolveSources scan_env commit_block 0 4 0 [21] emptyResult s1 = (Inr ([?src], emptyResult\<lparr>sn_cache := [21 \<mapsto> ?src]\<rparr>), s2)"
    using st v by (simp add: resolveSource_def emptyResult_def bindM_def)
  have data: "lt_Data commit_tx \<noteq> []" "hd (lt_Data commit_tx) = 3" by (simp_all add: commit_tx_def commit_data_def)
  have tx: "lt_To commit_tx = Some 5" "lt_Sender commit_tx n = Some 3" "lt_ChainId commit_tx = 1" "lt_Hash commit_tx = 77" for n
    by (simp_all add: commit_tx_def)
  have snd: "sender newAuthorization n b fb = fb" for n b fb by (simp add: sender_def newAuthorization_def)
  have rec: "getReceipt scan_env 77 commit_block 0 (scan_syncer\<lparr>by_calls := 1\<rparr>) =
      (Inr \<lparr>rc_TxHash = 77, rc_BlockHash = 41, rc_BlockNumber = Some 40, rc_TransactionIndex = 0, rc_Status = 1\<rparr>, s1)"
    by (simp add: getReceipt_def bindM_def scan_call scan_env_sel commit_block_def scan_syncer_def s1_def)
  have sub: "submission scan_env newAuthorization commit_tx commit_block 0 0 emptyResult (scan_syncer\<lparr>by_calls := 1\<rparr>) =
      (Inr (emptyResult\<lparr>sn_cache := [21 \<mapsto> ?src], sn_channels := [ch]\<rparr>), s2)"
    using dec src rec commit_parse data tx
    by (simp add: submission_def Let_def bindM_def scan_env_sel snd ReceiptStatusSuccessful_def emptyResult_def)
  have "scan scan_env newAuthorization [] 40 40 0 scan_syncer = (Inr ([], [ch], newAuthorization), s2)"
    using sub
    by (simp add: scan_def heights_def scanBlock_def bindM_def scan_call scan_env_sel commit_block_def [THEN arg_cong, of lb_Number]
        commit_block_def [THEN arg_cong, of lb_Transactions] IsUint64_def lb_NumberU64_def scan_syncer_def [THEN arg_cong, of by_calls] emptyResult_def)
  then show ?thesis by blast
qed

theorem scan_authorized_witness:
  "\<exists>ch a s'. scan scan_env newAuthorization [] 40 40 0 scan_syncer = (Inr ([], [ch], a), s') \<and> scanned scan_env 0 newAuthorization [] 40 ch"
proof -
  obtain ch a s' where run: "scan scan_env newAuthorization [] 40 40 0 scan_syncer = (Inr ([], [ch], a), s')" using scan_runs by blast
  from scan_authorized [OF run] have "\<exists>h. 40 \<le> h \<and> h \<le> 40 \<and> scanned scan_env 0 newAuthorization [] h ch" by simp
  then have "scanned scan_env 0 newAuthorization [] 40 ch" by (metis order_antisym)
  with run show ?thesis by blast
qed

end
