(* ===== verification/BlobStep.thy ===== *)
theory BlobStep
  imports ScanSafe
begin

text \<open>
  \<open>internal/blobingest/syncer.go\<close>: one step of the Blob synchronizer and its loop.  A
  step first advances the retention cutoff (\<open>prepare\<close>), then loads or discovers the
  authorization (\<open>initialize\<close>), scans one window and commits it.
\<close>

section \<open>Commit and preparation\<close>

definition setBlobReadyM :: "bool \<Rightarrow> unit bsync" where
  "setBlobReadyM flag = modifyM (\<lambda>s. s\<lparr>by_Status := SetBlobReady flag (by_Status s)\<rparr>)"

definition setBlobBootstrap :: "blobBootstrap option \<Rightarrow> unit bsync" where
  "setBlobBootstrap b = modifyM (\<lambda>s. s\<lparr>by_bootstrap := b\<rparr>)"

definition commitBlob :: "blob_env \<Rightarrow> BlobState \<Rightarrow> BlobState \<Rightarrow> BlobTransaction list \<Rightarrow> BlobChannel list \<Rightarrow> unit bsync" where
  "commitBlob E before after txs channels = (\<lambda>s.
     case CommitIfHealthy (by_Status s) (\<lambda>st.
         case bx_ctxErr E (by_calls s) of Some e \<Rightarrow> (Inl e, st)
         | None \<Rightarrow> wrapIntegrity (CommitBlob st before after txs channels)) (by_Store s) of
       (r, st) \<Rightarrow> (r, s\<lparr>by_Store := st\<rparr>))"

definition loadBlobState :: "BlobState bsync" where
  "loadBlobState = bindM getM (\<lambda>s. case BlobState (by_Store s) of
     Inl e \<Rightarrow> throw (Wrap ErrIntegrity e) | Inr st \<Rightarrow> ret st)"

definition tipTarget :: "blob_env \<Rightarrow> u64 bsync" where
  "tipTarget E = bindM (call E (\<lambda>k. bx_HeaderByNumber E k None)) (\<lambda>tip.
     case Option.bind tip bh_Number of None \<Rightarrow> throw (fatal ''invalid L1 tip'')
     | Some i \<Rightarrow>
        if \<not> IsUint64 i then throw (fatal ''invalid L1 tip'')
        else ret (if c_Confirmations (bx_Config E) \<le> word_of_int i then word_of_int i - c_Confirmations (bx_Config E) else 0))"

definition caughtUp :: "BlobState \<Rightarrow> u64 \<Rightarrow> bool" where
  "caughtUp st target = (case bst_Height st of None \<Rightarrow> False | Some h \<Rightarrow> target \<le> h)"

definition retentionCutoff :: "blobHeader \<Rightarrow> u64" where
  "retentionCutoff confirmed = (if BlobRetentionSeconds \<le> bh_Time confirmed then bh_Time confirmed - BlobRetentionSeconds else 0)"

definition retain :: "blob_env \<Rightarrow> BlobState \<Rightarrow> u64 \<Rightarrow> blobHeader \<Rightarrow> BlobState bsync" where
  "retain E st target confirmed =
     bindM (check E target (bh_Hash confirmed)) (\<lambda>_.
     bindM (checkpoint E st) (\<lambda>_.
     bindM (commitBlob E st (st\<lparr>bst_Cutoff := retentionCutoff confirmed, bst_RetentionHeight := Some target,
         bst_RetentionHash := bh_Hash confirmed\<rparr>) [] []) (\<lambda>_. loadBlobState)))"

definition prepare :: "blob_env \<Rightarrow> (BlobState \<times> u64) bsync" where
  "prepare E =
     bindM loadBlobState (\<lambda>st.
     bindM (checkpoint E st) (\<lambda>_.
     bindM (tipTarget E) (\<lambda>target.
     bindM (blobHead E target) (\<lambda>confirmed.
     bindM (setBlobReadyM (caughtUp st target)) (\<lambda>_.
     bindM (if bst_Cutoff st < retentionCutoff confirmed then retain E st target confirmed else ret st) (\<lambda>st.
       ret (st, target)))))))"

section \<open>Initialisation\<close>

text \<open>The stored authorization of a checkpoint.\<close>

definition storedAuth :: "BlobState \<Rightarrow> authorization result" where
  "storedAuth st = (if bst_Auth st = RawNil then Inl (fatal ''missing authorization checkpoint'') else decodeAuth (bst_Auth st))"

definition startBootstrap :: "blob_env \<Rightarrow> u64 \<Rightarrow> blobBootstrap bsync" where
  "startBootstrap E end = bindM getM (\<lambda>s. case by_bootstrap s of
     Some b \<Rightarrow> ret b
   | None \<Rightarrow> bindM (blobHead E end) (\<lambda>h.
       let b = \<lparr>bb_next = 0, bb_anchor = bh_Hash h, bb_auth = newAuthorization, bb_ready = False\<rparr> in
       bindM (setBlobBootstrap (Some b)) (\<lambda>_. ret b)))"

text \<open>One page of the history before the first block.\<close>

definition blobBootstrapPage :: "blob_env \<Rightarrow> u64 \<Rightarrow> blobBootstrap \<Rightarrow> blobBootstrap bsync" where
  "blobBootstrapPage E end b =
     (let size = c_BatchSize (bx_Config E);
          stop = (if size \<le> end - bb_next b then bb_next b + size - 1 else end) in
      bindM (liftE (cloneAuth (bb_auth b))) (\<lambda>a.
      bindM (authLogs E a (bb_next b) stop) (\<lambda>(logs, a).
      bindM (liftE (applyLogs E logs a)) (\<lambda>a.
      bindM (check E end (bb_anchor b)) (\<lambda>_.
        let b = b\<lparr>bb_auth := a, bb_ready := (stop = end), bb_next := stop + 1\<rparr> in
        bindM (setBackfills []) (\<lambda>_. bindM (setBlobBootstrap (Some b)) (\<lambda>_. ret b)))))))"

text \<open>\<open>None\<close> when there are more pages.\<close>

definition initialize :: "blob_env \<Rightarrow> BlobState \<Rightarrow> authorization option bsync" where
  "initialize E st =
     (if bst_Height st \<noteq> None then bindM (liftE (storedAuth st)) (\<lambda>a. ret (Some a))
      else if c_InboxStart (bx_Config E) = 0 then ret (Some newAuthorization)
      else let end = c_InboxStart (bx_Config E) - 1 in
        bindM (startBootstrap E end) (\<lambda>b.
        bindM (check E end (bb_anchor b)) (\<lambda>_.
        bindM (if bb_ready b then ret b else blobBootstrapPage E end b) (\<lambda>b.
          if bb_ready b then bindM (liftE (cloneAuth (bb_auth b))) (\<lambda>a. ret (Some a)) else ret None))))"

section \<open>Step\<close>

text \<open>\<open>s.bootstrap.anchor\<close> of a nil bootstrap panics.\<close>

definition checkBlobBootstrap :: "blob_env \<Rightarrow> BlobState \<Rightarrow> unit bsync" where
  "checkBlobBootstrap E st =
     (if bst_Height st = None \<and> 0 < c_InboxStart (bx_Config E)
      then bindM getM (\<lambda>s. case by_bootstrap s of
          None \<Rightarrow> throw (Err ErrOther ''panic: nil dereference'')
        | Some b \<Rightarrow> check E (c_InboxStart (bx_Config E) - 1) (bb_anchor b))
      else ret ())"

definition windowEnd :: "blob_env \<Rightarrow> u64 \<Rightarrow> u64 \<Rightarrow> u64" where
  "windowEnd E from target = (if c_BatchSize (bx_Config E) \<le> target - from then from + c_BatchSize (bx_Config E) - 1 else target)"

definition windowStart :: "blob_env \<Rightarrow> BlobState \<Rightarrow> u64" where
  "windowStart E st = (case bst_Height st of None \<Rightarrow> c_InboxStart (bx_Config E) | Some h \<Rightarrow> h + 1)"

text \<open>\<open>errors.Is(err, errBackfillPending)\<close> is not an error but an early return.\<close>

definition orPending :: "'a bsync \<Rightarrow> 'a option bsync" where
  "orPending m = (\<lambda>s. case m s of (r, s') \<Rightarrow>
     (case r of Inl e \<Rightarrow> if errors_is ErrBackfillPending e then Inr None else Inl e | Inr x \<Rightarrow> Inr (Some x), s'))"

text \<open>\<open>Step\<close> once the logs of the window are known.\<close>

definition scanAndCommitBlob :: "blob_env \<Rightarrow> BlobState \<Rightarrow> u64 \<Rightarrow> u64 \<Rightarrow> u64 \<Rightarrow> blobHeader \<Rightarrow> Log list \<times> authorization \<Rightarrow> bool bsync" where
  "scanAndCommitBlob E st from end target anchor = (\<lambda>(logs, a).
      bindM (scan E a logs from end (bst_Cutoff st)) (\<lambda>(txs, channels, a).
      bindM (check E end (bh_Hash anchor)) (\<lambda>_.
      bindM (checkpoint E st) (\<lambda>_.
      bindM (checkBlobBootstrap E st) (\<lambda>_.
      bindM (commitBlob E st (st\<lparr>bst_Height := Some end, bst_Hash := bh_Hash anchor, bst_Auth := marshalAuth a\<rparr>) txs channels) (\<lambda>_.
      bindM (setBlobBootstrap None) (\<lambda>_.
      bindM (setBackfills []) (\<lambda>_.
      bindM (setBlobReadyM (end = target)) (\<lambda>_. ret (end = target))))))))))"

definition scanWindowBlob :: "blob_env \<Rightarrow> BlobState \<Rightarrow> u64 \<Rightarrow> authorization \<Rightarrow> bool bsync" where
  "scanWindowBlob E st target a =
     (let from = windowStart E st; end = windowEnd E from target in
      bindM (blobHead E end) (\<lambda>anchor.
      bindM (orPending (authLogs E a from end)) (\<lambda>found. case found of
        None \<Rightarrow> ret False
      | Some found \<Rightarrow> scanAndCommitBlob E st from end target anchor found)))"

definition BlobStep :: "blob_env \<Rightarrow> bool bsync" where
  "BlobStep E = bindM getM (\<lambda>s. case snd (Snapshot (by_Status s)) of
     Some e \<Rightarrow> throw e
   | None \<Rightarrow> bindM (prepare E) (\<lambda>(st, target).
       if caughtUp st target \<or> target < c_InboxStart (bx_Config E)
       then bindM (setBlobReadyM True) (\<lambda>_. ret True)
       else bindM (orPending (initialize E st)) (\<lambda>found. case Option.bind found id of
           None \<Rightarrow> ret False
         | Some a \<Rightarrow> scanWindowBlob E st target a)))"

section \<open>Run\<close>

definition setFatalM :: "error \<Rightarrow> unit bsync" where
  "setFatalM e = (\<lambda>s. case setStatus False (Some e) (by_Status s) of
     None \<Rightarrow> (Inl (Err ErrOther ''panic: close of closed channel''), s)
   | Some st \<Rightarrow> (Inr (), s\<lparr>by_Status := st\<rparr>))"

definition blobRunOnce :: "blob_env \<Rightarrow> BlobSyncer \<Rightarrow> loop_next \<times> BlobSyncer" where
  "blobRunOnce E s = (case BlobStep E s of (r, s1) \<Rightarrow> (case r of
     Inl e \<Rightarrow>
       (let s2 = snd (setBlobReadyM False s1) in
        if errors_is ErrFatal e \<or> errors_is ErrIntegrity e \<or> errors_is ErrInvalid e
        then (Stop, snd (setFatalM e s2))
        else if bx_cancelled E (by_calls s2) then (Stop, s2) else (Sleep, s2))
   | Inr caught \<Rightarrow> (if caught then Sleep else Again, s1)))"

text \<open>The goroutine that waits for \<open>Status.Done()\<close> cancels the context.\<close>

inductive BlobRun :: "blob_env \<Rightarrow> BlobSyncer \<Rightarrow> bool \<Rightarrow> BlobSyncer \<Rightarrow> bool" for E where
  start: "BlobRun E s False s"
| go: "BlobRun E s False t \<Longrightarrow> \<not> bx_cancelled E (by_calls t) \<Longrightarrow> blobRunOnce E t = (n, u) \<Longrightarrow> BlobRun E s (n = Stop) u"
| halted: "BlobRun E s False t \<Longrightarrow> fst (Done (by_Status t)) = ChanClosed \<or> bx_cancelled E (by_calls t) \<Longrightarrow> BlobRun E s True t"

end
