(* ===== verification/BlobParts.thy ===== *)
theory BlobParts
  imports BlobStep
begin

text \<open>
  What the parts of the Blob synchronizer keep, for any relation between its states: the
  counterpart of \<open>SyncParts\<close>.  \<open>blob_kept\<close> covers everything that does not commit,
  \<open>blob_steps\<close> allows the commit and covers the whole loop.
\<close>

section \<open>Remote calls\<close>

definition blob_yielded :: "blob_env \<Rightarrow> BlobSyncer \<Rightarrow> BlobSyncer" where
  "blob_yielded E s = (case bx_others E (by_calls s) (by_Store s, by_Status s) of
     (st, status) \<Rightarrow> s\<lparr>by_Store := st, by_Status := status, by_calls := Suc (by_calls s)\<rparr>)"

lemma call_yields: "snd (call E ans s) = blob_yielded E s"
  by (simp add: call_def blob_yielded_def Let_def split: prod.split)

section \<open>What does not commit\<close>

locale blob_kept = kept R for R :: "BlobSyncer \<Rightarrow> BlobSyncer \<Rightarrow> bool" +
  fixes E :: blob_env
  assumes others: "R s (blob_yielded E s)"
    and beacon: "R s (s\<lparr>by_Beacon := b\<rparr>)"
    and memory: "preserves R (setBackfills bs)" "preserves R (setBlobBootstrap bo)"
    and status: "preserves R (setBlobReadyM flag)"
begin

lemma call_part: "preserves R (call E ans)"
  by (simp add: preserves_def call_yields others)

lemmas parts = basic bind branches call_part memory status

lemma callBeacon_part: "preserves R (callBeacon E m)"
proof -
  have "preserves R (\<lambda>s. case m (by_Beacon s) of (r, b) \<Rightarrow> (r, s\<lparr>by_Beacon := b\<rparr>))"
    by (simp add: preserves_def beacon case_prod_beta)
  then show ?thesis unfolding callBeacon_def by (intro parts)
qed

lemma orPending_part: "preserves R m \<Longrightarrow> preserves R (orPending m)"
  unfolding orPending_def by (erule outcome) simp

lemma blobHead_part: "preserves R (blobHead E n)"
  unfolding blobHead_def by (intro parts)

lemma check_part: "preserves R (check E n h)"
  unfolding check_def by (intro parts blobHead_part)

lemma checkpoint_part: "preserves R (checkpoint E st)"
  unfolding checkpoint_def by (intro parts check_part)

lemma senderLogs_part: "preserves R (senderLogs E as from end)"
  unfolding senderLogs_def by (intro parts)

lemma backfillManager_part: "preserves R (backfillManager E address before a)"
  unfolding backfillManager_def startBackfill_def newBackfill_def backfillPage_def Let_def
  by (intro parts check_part blobHead_part senderLogs_part)

lemma authChanges_part: "preserves R (authChanges E from end ls a)"
proof (induction ls arbitrary: a)
  case (Cons l ls)
  then show ?case unfolding authChange_def authChanges.simps by (intro parts backfillManager_part)
qed (simp add: basic)

lemma authLogs_part: "preserves R (authLogs E a from end)"
  unfolding authLogs_def by (intro parts authChanges_part senderLogs_part)

lemma sourceBlock_part: "preserves R (sourceBlock E h)"
  unfolding sourceBlock_def Let_def by (intro parts)

lemma validateSource_part: "preserves R (validateSource E src b i w)"
  unfolding validateSource_def by (intro parts sourceBlock_part)

lemma fetchFrames_part:
  "preserves R (\<lambda>s. case callBeacon E m s of
     (Inl e, s') \<Rightarrow> if errors_is ErrMissing e then (Inr x, s') else (Inl e, s')
   | (Inr frames, s') \<Rightarrow> (Inr (f frames), s'))"
proof -
  have "snd (case callBeacon E m s of (Inl e, s') \<Rightarrow> if errors_is ErrMissing e then (Inr x, s') else (Inl e, s')
         | (Inr frames, s') \<Rightarrow> (Inr (f frames), s')) = snd (callBeacon E m s)" for s
    by (auto split: prod.splits sum.splits)
  with callBeacon_part show ?thesis by (simp add: preserves_def)
qed

lemma fetchTransaction_part: "preserves R (fetchTransaction E h b i w c)"
  unfolding fetchTransaction_def Let_def by (intro parts sourceBlock_part fetchFrames_part)

lemma resolveSource_part: "preserves R (resolveSource E r h b i w c)"
  unfolding resolveSource_def Let_def by (intro parts validateSource_part fetchTransaction_part)

lemma resolveSources_part: "preserves R (resolveSources E b i w c hs r)"
proof (induction hs arbitrary: r)
  case (Cons h hs)
  then show ?case unfolding resolveSources.simps by (intro parts resolveSource_part)
qed (simp add: basic)

lemma submission_part: "preserves R (submission E a tx b i c r)"
  unfolding submission_def getReceipt_def Let_def by (intro parts resolveSources_part)

lemma scanTxs_part: "preserves R (scanTxs E c b h i txs st)"
proof (induction txs arbitrary: i st)
  case (Cons tx txs)
  then show ?case unfolding scanTxs.simps by (intro parts submission_part)
qed (simp add: basic)

lemma scanBlocks_part: "preserves R (scanBlocks E c hs st)"
proof (induction hs arbitrary: st)
  case (Cons h hs)
  then show ?case unfolding scanBlocks.simps scanBlock_def by (intro parts scanTxs_part)
qed (simp add: basic)

lemma scan_part: "preserves R (scan E a logs from end c)"
  unfolding scan_def by (intro parts scanBlocks_part)

lemma loadBlobState_part: "preserves R loadBlobState"
  unfolding loadBlobState_def by (intro parts)

lemma tipTarget_part: "preserves R (tipTarget E)"
  unfolding tipTarget_def by (intro parts)

lemma initialize_part: "preserves R (initialize E st)"
  unfolding initialize_def startBootstrap_def blobBootstrapPage_def Let_def
  by (intro parts blobHead_part check_part authLogs_part)

lemma checkBlobBootstrap_part: "preserves R (checkBlobBootstrap E st)"
  unfolding checkBlobBootstrap_def by (intro parts check_part)

end

section \<open>The loop\<close>

locale blob_steps = blob_kept +
  assumes commit: "preserves R (commitBlob E before after txs channels)"
    and fatal: "preserves R (setFatalM e)"
begin

lemma prepare_part: "preserves R (prepare E)"
  unfolding prepare_def retain_def
  by (intro parts loadBlobState_part checkpoint_part tipTarget_part blobHead_part check_part commit)

lemma scanWindowBlob_part: "preserves R (scanWindowBlob E st target a)"
  unfolding scanWindowBlob_def scanAndCommitBlob_def Let_def
  by (intro parts blobHead_part orPending_part authLogs_part scan_part check_part checkpoint_part
      checkBlobBootstrap_part commit)

lemma BlobStep_part: "preserves R (BlobStep E)"
  unfolding BlobStep_def
  by (intro parts prepare_part orPending_part initialize_part scanWindowBlob_part)

lemma blobRunOnce_part: "R s (snd (blobRunOnce E s))"
proof -
  obtain r s1 where step: "BlobStep E s = (r, s1)" by force
  then have s1: "R s s1" using BlobStep_part by (metis preserves_def snd_conv)
  have s2: "R s (snd (setBlobReadyM False s1))" using s1 status trans by (metis preserves_def transpD)
  then have "R s (snd (setFatalM e (snd (setBlobReadyM False s1))))" for e
    using fatal trans by (metis preserves_def transpD)
  with step s1 s2 show ?thesis
    by (auto simp: blobRunOnce_def Let_def split: sum.splits)
qed

lemma BlobRun_part: "BlobRun E s b t \<Longrightarrow> R s t"
proof (induction rule: BlobRun.induct)
  case (start s)
  then show ?case using refl by (simp add: reflp_def)
next
  case (go s t n u)
  then show ?case using blobRunOnce_part [of t] trans by (metis snd_conv transpD)
qed

end

end
