(* ===== verification/SyncParts.thy ===== *)
theory SyncParts
  imports Ingest
begin

text \<open>
  What the parts of the deposit synchronizer keep, for any relation between its states.  The
  locale \<open>sync_kept\<close> asks for a reflexive and transitive relation that allows what other
  goroutines do during a remote call and the changes to the status and to the memory of the
  synchronizer; everything before the commit then keeps it.  \<open>sync_steps\<close> allows the commit
  too, and the whole loop keeps the relation.
\<close>

section \<open>Remote calls\<close>

definition yielded :: "ingest_env \<Rightarrow> Syncer \<Rightarrow> Syncer" where
  "yielded E s = (case en_others E (sy_calls s) (sy_Store s, sy_Status s) of
     (st, status) \<Rightarrow> s\<lparr>sy_Store := st, sy_Status := status, sy_calls := Suc (sy_calls s)\<rparr>)"

lemma rpc_yields: "snd (rpc E ans s) = yielded E s"
  by (simp add: rpc_def yielded_def Let_def split: prod.split)

definition commitStore :: "ingest_env \<Rightarrow> State \<Rightarrow> State \<Rightarrow> Record list \<Rightarrow> nat \<Rightarrow> unit sync" where
  "commitStore E before after records k = storeM (\<lambda>status. commitIfHealthy status (\<lambda>st.
     case en_ctxErr E k of Some e \<Rightarrow> (Inl e, st) | None \<Rightarrow> wrapIntegrity (Commit st before after records)))"

lemma commitWindow_eq:
  "commitWindow E w ctc records =
     bindM (if st_Height (w_before w) = None then checkBootstrap E else ret ()) (\<lambda>_.
     if w_end w = w_target w \<and> ctc = 0
     then throw (fatal ''no active CanonicalTransactionChain at confirmed tip'')
     else bindM (header E (w_end w)) (\<lambda>h.
       if hd_Hash h \<noteq> w_endHash w then throw (fatal ''scan changed before commit'')
       else bindM (case st_Height (w_before w) of None \<Rightarrow> ret ()
              | Some n \<Rightarrow> bindM (header E n) (\<lambda>h.
                  if hd_Hash h \<noteq> st_Hash (w_before w) then throw (fatal ''checkpoint changed before commit'')
                  else ret ())) (\<lambda>_.
         bindM getM (\<lambda>s. commitStore E (w_before w)
           \<lparr>st_Height = Some (w_end w), st_Hash = w_endHash w, st_CTC = ctc, st_Latest = None\<rparr> records (sy_calls s)))))"
  unfolding commitWindow_def commitStore_def Let_def ..

section \<open>Before the commit\<close>

locale sync_kept = kept R for R :: "Syncer \<Rightarrow> Syncer \<Rightarrow> bool" +
  fixes E :: ingest_env
  assumes others: "R s (yielded E s)"
    and status: "preserves R (setM b e)"
    and memory: "preserves R (setBootstrap m)"
begin

lemma rpc_part: "preserves R (rpc E ans)"
  by (simp add: preserves_def rpc_yields others)

lemmas parts = basic bind branches rpc_part status memory

lemma header_part: "preserves R (header E n)"
  unfolding header_def by (intro parts)

lemma prepareWindow_part: "preserves R (prepareWindow E)"
  unfolding prepareWindow_def tipWindow_def by (intro parts header_part)

lemma checkBootstrap_part: "preserves R (checkBootstrap E)"
  unfolding checkBootstrap_def by (intro parts header_part)

lemma maperr_part:
  assumes "preserves R m"
  shows "preserves R (\<lambda>s. case m s of (Inl e, s') \<Rightarrow> (Inl (f e), s') | (Inr x, s') \<Rightarrow> (Inr x, s'))"
proof -
  have "snd (case m s of (Inl e, s') \<Rightarrow> (Inl (f e), s') | (Inr x, s') \<Rightarrow> (Inr x, s')) = snd (m s)" for s
    by (cases "m s"; cases "fst (m s)") simp_all
  with assms show ?thesis by (simp add: preserves_def)
qed

lemma loadBootstrapPage_part: "preserves R (loadBootstrapPage E n)"
  unfolding loadBootstrapPage_def Let_def by (intro parts maperr_part)

lemma bootstrapStep_part: "preserves R (bootstrapStep E b w)"
  unfolding bootstrapStep_def by (intro parts loadBootstrapPage_part checkBootstrap_part)

lemma initializeCTC_part: "preserves R (initializeCTC E w)"
  unfolding initializeCTC_def by (intro parts header_part checkBootstrap_part bootstrapStep_part)

lemma anchorWindow_part: "preserves R (anchorWindow E w)"
  unfolding anchorWindow_def by (intro parts header_part)

lemma loadLogs_part: "preserves R (loadLogs E w)"
  unfolding loadLogs_def Let_def by (intro parts)

end

section \<open>The loop\<close>

locale sync_steps = sync_kept +
  assumes commit: "preserves R (commitStore E before after records k)"
begin

lemma commitWindow_part: "preserves R (commitWindow E w ctc records)"
  unfolding commitWindow_eq by (intro parts header_part checkBootstrap_part commit)

lemma Step_part: "preserves R (Step E)"
  unfolding Step_def scanAndCommit_def Let_def
  by (intro parts prepareWindow_part initializeCTC_part anchorWindow_part loadLogs_part commitWindow_part)

lemma runOnce_part: "R s (snd (runOnce E s))"
proof -
  obtain r s1 where step: "Step E s = (r, s1)" by force
  then have s1: "R s s1" using Step_part by (metis preserves_def snd_conv)
  have set: "R t (snd (setM b e t))" for b e t using status by (simp add: preserves_def)
  have s2: "R s (snd (setM False None s1))" using s1 set trans by (blast dest: transpD)
  then have "R s (snd (setM False (Some e) (snd (setM False None s1))))" for e
    using set trans by (blast dest: transpD)
  with step s1 s2 show ?thesis
    by (auto simp: runOnce_def Let_def split: option.splits sum.splits)
qed

lemma Run_part: "Run E s b t \<Longrightarrow> R s t"
proof (induction rule: Run.induct)
  case (start s)
  then show ?case using refl by (simp add: reflp_def)
next
  case (go s t n u)
  then show ?case using runOnce_part [of t] trans by (metis snd_conv transpD)
qed

end

end
