(* ===== verification/IngestStep.thy ===== *)
theory IngestStep
  imports IngestDecode SyncParts
begin

text \<open>
  The properties of a step of the deposit synchronizer: the window it chooses, that the
  queue changes only by one atomic commit of what the window's logs mean, that the
  checkpoint moves forward, that a reorganisation halts it, and that the discovery of the
  initial contract terminates.  All of it holds while other goroutines change the Blob
  records and the status during every remote call.
\<close>

section \<open>What every part keeps\<close>

text \<open>Other goroutines only touch Blob keys of the store and call the methods of the status.\<close>

definition others_ok :: "ingest_env \<Rightarrow> bool" where
  "others_ok E \<longleftrightarrow> (\<forall>n st ss. keeps_rest (s_db st) (s_db (fst (en_others E n (st, ss)))) \<and>
     status_run ss (snd (en_others E n (st, ss))))"

definition sync_inv :: "State \<Rightarrow> Record list \<Rightarrow> Syncer \<Rightarrow> bool" where
  "sync_inv st q s \<longleftrightarrow> queue_rep (s_db (sy_Store s)) st q \<and> status_inv (sy_Status s)"

definition keepR :: "Syncer \<Rightarrow> Syncer \<Rightarrow> bool" where
  "keepR s t \<longleftrightarrow> sy_calls s \<le> sy_calls t \<and> (\<forall>st q. sync_inv st q s \<longrightarrow> sync_inv st q t)"

definition keeps :: "'a sync \<Rightarrow> bool" where
  "keeps m \<longleftrightarrow> preserves keepR m"

named_theorems keeps_intros \<open>parts of a step that keep the queue\<close>

lemma keepR_refl: "reflp keepR"
  by (auto simp: keepR_def reflp_def)

lemma keepR_trans: "transp keepR"
  by (auto simp: keepR_def transp_def intro: order_trans)

text \<open>Without the promise about the other goroutines nothing is claimed.\<close>

definition keepE :: "ingest_env \<Rightarrow> Syncer \<Rightarrow> Syncer \<Rightarrow> bool" where
  "keepE E s t \<longleftrightarrow> (others_ok E \<longrightarrow> keepR s t)"

lemma keepR_yielded: "others_ok E \<Longrightarrow> keepR s (yielded E s)"
proof -
  assume ok: "others_ok E"
  obtain st' ss' where o: "en_others E (sy_calls s) (sy_Store s, sy_Status s) = (st', ss')" by force
  with ok have "keeps_rest (s_db (sy_Store s)) (s_db st')" "status_run (sy_Status s) ss'"
    unfolding others_ok_def by (metis fst_conv, metis snd_conv)
  with o show ?thesis
    by (auto simp: keepR_def yielded_def sync_inv_def intro: keeps_rest_queue status_run_inv)
qed

lemma setM_keeps [keeps_intros]: "keeps (setM b e)"
  unfolding keeps_def preserves_def keepR_def sync_inv_def setM_def
  using status_inv_set by (auto split: option.splits) (metis option.inject)

lemma setBootstrap_keeps [keeps_intros]: "keeps (setBootstrap b)"
  unfolding keeps_def setBootstrap_def by (rule preserves_modifyM) (simp add: keepR_def sync_inv_def)

interpretation dk: sync_kept "keepE E" E for E
  using keepR_refl keepR_trans keepR_yielded setM_keeps setBootstrap_keeps
  by unfold_locales (auto simp: keepE_def keeps_def preserves_def reflp_def transp_def)

lemma keeps_part: "others_ok E \<Longrightarrow> preserves (keepE E) m \<Longrightarrow> keeps m"
  by (simp add: keepE_def keeps_def preserves_def)

lemmas header_keeps = keeps_part [OF _ dk.header_part]
  and prepareWindow_keeps = keeps_part [OF _ dk.prepareWindow_part]
  and checkBootstrap_keeps = keeps_part [OF _ dk.checkBootstrap_part]
  and initializeCTC_keeps = keeps_part [OF _ dk.initializeCTC_part]
  and anchorWindow_keeps = keeps_part [OF _ dk.anchorWindow_part]
  and loadLogs_keeps = keeps_part [OF _ dk.loadLogs_part]

interpretation dq: kept keepR
  by (rule kept.intro [OF keepR_refl keepR_trans])

lemmas keeps_basic [keeps_intros] = dq.basic [folded keeps_def]

lemmas keeps_bind [keeps_intros] = dq.bind [folded keeps_def]

lemmas keeps_branches [keeps_intros] = dq.branches [folded keeps_def]

lemma keepsD: "keeps m \<Longrightarrow> sync_inv st q s \<Longrightarrow> m s = (r, t) \<Longrightarrow> sync_inv st q t"
  unfolding keeps_def preserves_def keepR_def by (metis snd_conv)

lemma keeps_calls: "keeps m \<Longrightarrow> m s = (r, t) \<Longrightarrow> sy_calls s \<le> sy_calls t"
  unfolding keeps_def preserves_def keepR_def by (metis snd_conv)

section \<open>The window\<close>

text \<open>The window starts right after the checkpoint, fits in a batch and ends at or before the confirmed target.\<close>

definition window_ok :: "Config \<Rightarrow> State \<Rightarrow> u64 \<Rightarrow> scanWindow \<Rightarrow> bool" where
  "window_ok c before tip w \<longleftrightarrow> w_before w = before \<and>
     unat (w_from w) = (case st_Height before of None \<Rightarrow> unat (c_Start c) | Some h \<Rightarrow> Suc (unat h)) \<and>
     w_from w \<le> w_end w \<and> w_end w \<le> w_target w \<and>
     unat (w_target w) = unat tip - unat (c_Confirmations c) \<and>
     unat (w_end w) - unat (w_from w) < unat (c_BatchSize c) \<and>
     (w_end w \<noteq> w_target w \<longrightarrow> unat (w_end w) + 1 - unat (w_from w) = unat (c_BatchSize c))"

lemma batch_end:
  fixes f n t :: u64
  assumes "f \<le> t" "n \<noteq> 0"
  defines "e \<equiv> (if n \<le> t - f then f + n - 1 else t)"
  shows "f \<le> e" "e \<le> t" "unat e - unat f < unat n" "e \<noteq> t \<Longrightarrow> unat e + 1 - unat f = unat n"
proof -
  have sub: "unat (t - f) = unat t - unat f" using assms(1) by (simp add: unat_sub)
  have n: "0 < unat n" using assms(2) by (simp add: unat_gt_0)
  have "unat e = (if n \<le> t - f then unat f + unat n - 1 else unat t)"
  proof (cases "n \<le> t - f")
    case True
    then have le: "unat n \<le> unat t - unat f" using sub by (simp add: word_le_nat_alt)
    moreover have "unat t < 2 ^ 64" using unsigned_less [of t, where ?'a = nat] by simp
    ultimately have add: "unat (f + n) = unat f + unat n"
      using n by (intro unat_add_lem [THEN iffD1]) simp
    then have "1 \<le> f + n" using n by (simp add: word_le_nat_alt)
    with add have "unat (f + n - 1) = unat f + unat n - 1" by (simp add: unat_sub)
    with True show ?thesis by (simp add: e_def)
  qed (simp add: e_def)
  moreover have "unat f \<le> unat t" using assms(1) by (simp add: word_le_nat_alt)
  moreover have "n \<le> t - f \<longleftrightarrow> unat n \<le> unat t - unat f" using sub by (simp add: word_le_nat_alt)
  ultimately show "f \<le> e" "e \<le> t" "unat e - unat f < unat n" "e \<noteq> t \<Longrightarrow> unat e + 1 - unat f = unat n"
    using n by (auto simp: word_le_nat_alt word_unat_eq_iff split: if_splits)
qed

lemma chooseWindow_ok:
  assumes "chooseWindow c before tip = (False, Some w)" and "c_BatchSize c \<noteq> 0"
  shows "window_ok c before tip w"
proof -
  define target where "target = (if c_Confirmations c \<le> tip then tip - c_Confirmations c else 0)"
  have target: "unat target = unat tip - unat (c_Confirmations c)"
    by (auto simp: target_def unat_sub word_le_nat_alt)
  obtain f where f: "f \<le> target" "unat f = (case st_Height before of None \<Rightarrow> unat (c_Start c) | Some h \<Rightarrow> Suc (unat h))"
    and w: "w = \<lparr>w_before = before, w_from = f,
      w_end = (if c_BatchSize c \<le> target - f then f + c_BatchSize c - 1 else target), w_target = target,
      w_endHash = 0, w_ctc = st_CTC before\<rparr>"
  proof (cases "st_Height before")
    case None
    with assms(1) that [of "c_Start c"] show ?thesis
      by (simp add: chooseWindow_def target_def [symmetric] Let_def not_less split: if_splits)
  next
    case (Some h)
    with assms(1) have lt: "h < target" "h + 1 \<le> target"
      by (auto simp: chooseWindow_def target_def [symmetric] Let_def not_less not_le split: if_splits)
    then have "unat h + unat (1 :: u64) < 2 ^ LENGTH(64)"
      using unsigned_less [of target, where ?'a = nat] by (simp add: word_less_nat_alt)
    then have "unat (h + 1) = Suc (unat h)" by (simp add: unat_add_lem [THEN iffD1])
    with Some lt assms(1) that [of "h + 1"] show ?thesis
      by (simp add: chooseWindow_def target_def [symmetric] Let_def not_less not_le split: if_splits)
  qed
  from batch_end [OF f(1) assms(2)] f target w show ?thesis by (simp add: window_ok_def)
qed

section \<open>The parts of a step\<close>

text \<open>
  What a step that starts at call \<open>c\<close> has learnt when it comes to call \<open>n\<close>: the
  header that the RPC gave for a height, the number of its tip and its answer to a log query.
\<close>

definition headed :: "ingest_env \<Rightarrow> nat \<Rightarrow> u64 \<Rightarrow> header \<Rightarrow> nat \<Rightarrow> bool" where
  "headed E c height h n \<longleftrightarrow> (\<exists>k. c \<le> k \<and> k < n \<and> en_HeaderByNumber E k (Some height) = Inr (Some h))"

definition tip_is :: "ingest_env \<Rightarrow> nat \<Rightarrow> u64 \<Rightarrow> nat \<Rightarrow> bool" where
  "tip_is E c tip n \<longleftrightarrow> (\<exists>k h i. c \<le> k \<and> k < n \<and> en_HeaderByNumber E k None = Inr (Some h) \<and>
     hd_Number h = Some i \<and> 0 \<le> i \<and> i < 2 ^ 64 \<and> unat tip = nat i)"

definition filtered :: "ingest_env \<Rightarrow> nat \<Rightarrow> FilterQuery \<Rightarrow> Log list \<Rightarrow> nat \<Rightarrow> bool" where
  "filtered E c query logs n \<longleftrightarrow> (\<exists>k. c \<le> k \<and> k < n \<and> en_FilterLogs E k query = Inr logs)"

lemma rising_answers [rising_intros]:
  "rising (headed E c height h)" "rising (tip_is E c tip)" "rising (filtered E c query logs)"
  unfolding rising_def headed_def tip_is_def filtered_def by (meson less_le_trans)+

lemma rpc_Inr: "rpc E ans s = (Inr x, s') \<Longrightarrow> ans (sy_calls s) = Inr x \<and> sy_calls s' = Suc (sy_calls s)"
  by (auto simp: rpc_def Let_def split: prod.splits)

lemma header_Inr:
  assumes "header E n s = (Inr h, s')" "c \<le> sy_calls s"
  shows "headed E c n h (sy_calls s')"
proof -
  from assms obtain r s1 where ans: "rpc E (\<lambda>k. en_HeaderByNumber E k (Some n)) s = (Inr r, s1)"
    and rest: "(case r of None \<Rightarrow> throw (fatal ''invalid header'')
     | Some h \<Rightarrow> (case hd_Number h of None \<Rightarrow> throw (fatal ''invalid header'')
         | Some i \<Rightarrow> if \<not> IsUint64 i \<or> word_of_int i \<noteq> n then throw (fatal ''invalid header'') else ret h)) s1 = (Inr h, s')"
    unfolding header_def bindM_Inr by blast
  from rest have "r = Some h" "s' = s1" by (auto split: option.splits if_splits)
  with rpc_Inr [OF ans] assms(2) show ?thesis by (auto simp: headed_def)
qed

text \<open>The window that \<open>prepareWindow\<close> chooses, under the tip that the RPC gave.\<close>

definition nothing_to_scan :: "Config \<Rightarrow> State \<Rightarrow> u64 \<Rightarrow> bool" where
  "nothing_to_scan c st tip \<longleftrightarrow> (case st_Height st of
     None \<Rightarrow> unat tip - unat (c_Confirmations c) < unat (c_Start c)
   | Some h \<Rightarrow> unat tip - unat (c_Confirmations c) \<le> unat h)"

lemma chooseWindow_none:
  assumes "chooseWindow c st tip = (b, w)" "b \<or> w = None"
  shows "nothing_to_scan c st tip"
proof -
  define target where "target = (if c_Confirmations c \<le> tip then tip - c_Confirmations c else 0)"
  have target: "unat target = unat tip - unat (c_Confirmations c)"
    by (auto simp: target_def unat_sub word_le_nat_alt)
  show ?thesis
  proof (cases "st_Height st")
    case None
    with assms have "target < c_Start c"
      by (auto simp: chooseWindow_def target_def [symmetric] Let_def split: if_splits)
    with None target show ?thesis by (simp add: nothing_to_scan_def word_less_nat_alt)
  next
    case (Some h)
    have "target \<le> h"
    proof (rule ccontr)
      assume lt: "\<not> target \<le> h"
      then have "\<not> target < h + 1" by (metis inc_le not_le)
      with lt Some assms show False
        by (auto simp: chooseWindow_def target_def [symmetric] Let_def split: if_splits)
    qed
    with Some target show ?thesis by (simp add: nothing_to_scan_def word_le_nat_alt)
  qed
qed

lemma prepareWindow_Inr:
  assumes run: "prepareWindow E s = (Inr x, s')" and inv: "sync_inv st q s" and "c_BatchSize (en_Config E) \<noteq> 0"
    and ok: "others_ok E" and c: "c \<le> sy_calls s"
  shows "\<exists>tip. tip_is E c tip (sy_calls s') \<and> (case x of None \<Rightarrow> nothing_to_scan (en_Config E) st tip
    | Some w \<Rightarrow> window_ok (en_Config E) st tip w \<and> w_ctc w = st_CTC st)"
proof -
  from run obtain before where st: "State (sy_Store s) = Inr before"
    by (auto simp: prepareWindow_def bindM_Inr split: sum.splits)
  let ?check = "case st_Height before of None \<Rightarrow> ret () | Some h \<Rightarrow> bindM (header E h) (\<lambda>hd.
      if hd_Hash hd \<noteq> st_Hash before then throw (fatal ''committed block changed'') else ret ())"
  from run st obtain s1 tip s2 where check: "?check s = (Inr (), s1)"
    and ans: "rpc E (\<lambda>k. en_HeaderByNumber E k None) s1 = (Inr tip, s2)"
    and fin: "tipWindow E before tip s2 = (Inr x, s')"
    unfolding prepareWindow_def by (simp add: bindM_Inr) blast
  have "keeps ?check" by (intro keeps_intros header_keeps ok)
  from keeps_calls [OF this check] c have c1: "c \<le> sy_calls s1" by simp
  from fin obtain h i b w where h: "tip = Some h" "hd_Number h = Some i" "IsUint64 i"
    and w: "chooseWindow (en_Config E) before (word_of_int i) = (b, w)"
    and x: "x = (if b then None else w)" and s': "sy_calls s' = sy_calls s2"
    by (auto simp: tipWindow_def bindM_Inr bind_eq_Some_conv setM_def split: option.splits if_splits bool.splits prod.splits)
  have i: "unat (word_of_int i :: u64) = nat i"
    using h(3) by (simp add: IsUint64_def unsigned_of_int take_bit_int_eq_self)
  have "tip_is E c (word_of_int i) (sy_calls s')"
    using rpc_Inr [OF ans] c1 h i s' unfolding tip_is_def IsUint64_def
    by (intro exI [of _ "sy_calls s1"] exI [of _ h] exI [of _ i]) auto
  moreover from st have "state_of (s_db (sy_Store s)) = Some before"
    by (auto simp: State_def dest: readState_Inr split: if_splits)
  with inv have "before = st" by (simp add: sync_inv_def queue_rep_def)
  moreover have "w_ctc v = st_CTC before" if "w = Some v" for v
    using w that by (auto simp: chooseWindow_def Let_def split: option.splits if_splits)
  ultimately show ?thesis
    using chooseWindow_none [OF w] chooseWindow_ok [OF _ assms(3), of before "word_of_int i"] w x
    by (intro exI [of _ "word_of_int i"]) (cases b; auto split: option.splits)
qed

lemma initializeCTC_Some:
  assumes "initializeCTC E w s = (Inr (Some w'), s')"
  shows "w' = w\<lparr>w_ctc := w_ctc w'\<rparr> \<and> (st_Height (w_before w) \<noteq> None \<longrightarrow> w' = w)"
  using assms
  by (auto simp: initializeCTC_def bootstrapStep_def res_simps split: if_splits option.splits)

lemma anchorWindow_Inr:
  "anchorWindow E w s = (Inr w', s') \<Longrightarrow> \<exists>h :: header. w' = w\<lparr>w_endHash := hd_Hash h\<rparr>"
  by (auto simp: anchorWindow_def bindM_Inr)

text \<open>The logs of a window: the address changes, and the deposits of every contract of the window.\<close>

definition window_logs :: "ingest_env \<Rightarrow> nat \<Rightarrow> scanWindow \<Rightarrow> Log list \<Rightarrow> nat \<Rightarrow> bool" where
  "window_logs E c w logs n \<longleftrightarrow> (\<exists>changes news. filtered E c (addressQuery E (w_from w) (w_end w)) changes n \<and>
     mapE (checkAddressLog E ''unexpected address log'' (w_from w) (w_end w)) changes = Inr news \<and>
     (let contracts = (set news \<union> {w_ctc w}) - {0} in
      if contracts = {} then logs = changes
      else \<exists>enqueues. filtered E c \<lparr>fq_From = w_from w, fq_To = w_end w, fq_Addresses = contracts,
             fq_Topics = [[ev_ID (en_Enqueued E)]]\<rparr> enqueues n \<and> logs = changes @ enqueues))"

lemma rising_logs [rising_intros]: "rising (\<lambda>n. window_logs E c w logs n)"
  unfolding window_logs_def Let_def by (intro rising_intros)

lemma loadLogs_Inr:
  assumes "loadLogs E w s = (Inr logs, s')" "c \<le> sy_calls s"
  shows "window_logs E c w logs (sy_calls s')"
proof -
  from assms(1) obtain changes s1 news where
    a: "rpc E (\<lambda>k. en_FilterLogs E k (addressQuery E (w_from w) (w_end w))) s = (Inr changes, s1)"
    and news: "mapE (checkAddressLog E ''unexpected address log'' (w_from w) (w_end w)) changes = Inr news"
    and rest: "(let addresses = (set news - {0}) \<union> ({w_ctc w} - {0}) in
       if addresses = {} then ret changes
       else bindM (rpc E (\<lambda>k. en_FilterLogs E k \<lparr>fq_From = w_from w, fq_To = w_end w, fq_Addresses = addresses,
              fq_Topics = [[ev_ID (en_Enqueued E)]]\<rparr>)) (\<lambda>enqueues. ret (changes @ enqueues))) s1 = (Inr logs, s')"
    unfolding loadLogs_def by (auto simp: bindM_Inr)
  have eq: "(set news - {0}) \<union> ({w_ctc w} - {0}) = (set news \<union> {w_ctc w}) - {0}" by blast
  note a = rpc_Inr [OF a]
  show ?thesis
  proof (cases "(set news \<union> {w_ctc w}) - {0} = {}")
    case True
    then have "logs = changes" "s' = s1" using rest unfolding eq Let_def by simp_all
    then show ?thesis unfolding window_logs_def filtered_def Let_def
      using True a news assms(2) by (intro exI [of _ changes] exI [of _ news]) auto
  next
    case False
    then have "bindM (rpc E (\<lambda>k. en_FilterLogs E k \<lparr>fq_From = w_from w, fq_To = w_end w,
        fq_Addresses = (set news \<union> {w_ctc w}) - {0}, fq_Topics = [[ev_ID (en_Enqueued E)]]\<rparr>))
        (\<lambda>enqueues. ret (changes @ enqueues)) s1 = (Inr logs, s')"
      using rest unfolding eq Let_def by (simp only: if_False)
    then obtain enqueues s2 where "rpc E (\<lambda>k. en_FilterLogs E k \<lparr>fq_From = w_from w, fq_To = w_end w,
        fq_Addresses = (set news \<union> {w_ctc w}) - {0}, fq_Topics = [[ev_ID (en_Enqueued E)]]\<rparr>) s1 = (Inr enqueues, s2)"
      and "logs = changes @ enqueues" "s' = s2"
      unfolding bindM_Inr by auto
    note b = rpc_Inr [OF this(1)] this(2,3)
    have "filtered E c (addressQuery E (w_from w) (w_end w)) changes (sy_calls s')"
      using a b assms(2) unfolding filtered_def by (intro exI [of _ "sy_calls s"]) simp
    moreover have "filtered E c \<lparr>fq_From = w_from w, fq_To = w_end w, fq_Addresses = (set news \<union> {w_ctc w}) - {0},
        fq_Topics = [[ev_ID (en_Enqueued E)]]\<rparr> enqueues (sy_calls s')"
      using a b assms(2) unfolding filtered_def by (intro exI [of _ "sy_calls s1"]) simp
    ultimately show ?thesis unfolding window_logs_def Let_def
      using news b(2) False by (intro exI [of _ changes] exI [of _ news]) (simp only: if_False, blast)
  qed
qed

text \<open>A program whose errors leave the queue as it was.\<close>

definition quiet :: "'a sync \<Rightarrow> bool" where
  "quiet m \<longleftrightarrow> (\<forall>st q s e s'. sync_inv st q s \<and> m s = (Inl e, s') \<longrightarrow> sync_inv st q s')"

lemma quietD: "quiet m \<Longrightarrow> sync_inv st q s \<Longrightarrow> m s = (Inl e, s') \<Longrightarrow> sync_inv st q s'"
  unfolding quiet_def by blast

lemma keeps_quiet: "keeps m \<Longrightarrow> quiet m"
  unfolding quiet_def using keepsD by blast

lemma quiet_bind: "keeps m \<Longrightarrow> (\<And>x. quiet (f x)) \<Longrightarrow> quiet (bindM m f)"
  unfolding quiet_def bindM_Inl using keepsD by blast

lemma quiet_if: "quiet m \<Longrightarrow> quiet n \<Longrightarrow> quiet (if b then m else n)"
  by simp

lemma commitStore_quiet: "quiet (commitStore E before after records k)"
proof -
  have "sy_Store s' = sy_Store s \<and> sy_Status s' = sy_Status s" if "commitStore E before after records k s = (Inl e, s')" for s s' e
    using that
    by (auto simp: commitStore_def storeM_def commitIfHealthy_def wrapIntegrity_def
        split: option.splits prod.splits sum.splits dest: Commit_Inl)
  then show ?thesis unfolding quiet_def sync_inv_def by metis
qed

lemma commitStore_Inr:
  assumes "commitStore E before after records k s = (Inr (), s')" and "sync_inv st q s"
  shows "before = st \<and> ss_fatal (sy_Status s) = None \<and> (\<exists>q'. queue_append q records = Some q' \<and>
    sync_inv (after\<lparr>st_Latest := latest_of q'\<rparr>) q' s')"
proof -
  from assms(1) obtain store' where run: "Commit (sy_Store s) before after records = (Inr (), store')"
    and s': "s' = s\<lparr>sy_Store := store'\<rparr>" and h: "ss_fatal (sy_Status s) = None"
    by (auto simp: commitStore_def storeM_def commitIfHealthy_def wrapIntegrity_def
        split: option.splits prod.splits sum.splits)
  from assms(2) have "queue_rep (s_db (sy_Store s)) st q" by (simp add: sync_inv_def)
  from Commit_sound [OF this run] s' h assms(2) show ?thesis by (auto simp: sync_inv_def)
qed

lemma commitStore_calls: "commitStore E before after records k s = (r, s') \<Longrightarrow> sy_calls s' = sy_calls s"
  by (auto simp: commitStore_def storeM_def split: prod.splits)

lemma commitWindow_quiet: "others_ok E \<Longrightarrow> quiet (commitWindow E w ctc records)"
  unfolding commitWindow_eq
  by (intro quiet_bind quiet_if keeps_intros commitStore_quiet checkBootstrap_keeps header_keeps
      keeps_quiet [OF keeps_basic(2)])

lemma commitWindow_Inr:
  assumes run: "commitWindow E w ctc records s = (Inr (), s')" and inv: "sync_inv st q s" and ok: "others_ok E"
  shows "w_before w = st \<and> \<not> (w_end w = w_target w \<and> ctc = 0) \<and> sy_calls s \<le> sy_calls s' \<and>
    (\<exists>h. headed E (sy_calls s) (w_end w) h (sy_calls s') \<and> hd_Hash h = w_endHash w) \<and>
    (\<exists>q'. queue_append q records = Some q' \<and> sync_inv \<lparr>st_Height = Some (w_end w), st_Hash = w_endHash w,
       st_CTC = ctc, st_Latest = latest_of q'\<rparr> q' s')"
proof -
  from run obtain s1 s2 s3 h where
    a: "(if st_Height (w_before w) = None then checkBootstrap E else ret ()) s = (Inr (), s1)"
    and b: "header E (w_end w) s1 = (Inr h, s2)" and hash: "hd_Hash h = w_endHash w"
    and zero: "\<not> (w_end w = w_target w \<and> ctc = 0)"
    and c: "(case st_Height (w_before w) of None \<Rightarrow> ret () | Some n \<Rightarrow> bindM (header E n) (\<lambda>h.
        if hd_Hash h \<noteq> st_Hash (w_before w) then throw (fatal ''checkpoint changed before commit'') else ret ())) s2 = (Inr (), s3)"
    and d: "commitStore E (w_before w) \<lparr>st_Height = Some (w_end w), st_Hash = w_endHash w, st_CTC = ctc, st_Latest = None\<rparr>
        records (sy_calls s3) s3 = (Inr (), s')"
    unfolding commitWindow_eq by (auto simp: bindM_Inr split: if_splits)
  let ?again = "case st_Height (w_before w) of None \<Rightarrow> ret () | Some n \<Rightarrow> bindM (header E n) (\<lambda>h.
        if hd_Hash h \<noteq> st_Hash (w_before w) then throw (fatal ''checkpoint changed before commit'') else ret ())"
  have k1: "keeps (if st_Height (w_before w) = None then checkBootstrap E else ret ())"
    by (intro keeps_intros checkBootstrap_keeps ok)
  have k2: "keeps ?again" by (intro keeps_intros header_keeps ok)
  have calls: "sy_calls s \<le> sy_calls s1" "sy_calls s2 \<le> sy_calls s3" "sy_calls s' = sy_calls s3"
    using keeps_calls [OF k1 a] keeps_calls [OF k2 c] commitStore_calls [OF d] by simp_all
  from keepsD [OF k1 inv a] have "sync_inv st q s1" .
  from keepsD [OF header_keeps [OF ok] this b] have "sync_inv st q s2" .
  from keepsD [OF k2 this c] have "sync_inv st q s3" .
  note commit = commitStore_Inr [OF d this]
  have "headed E (sy_calls s) (w_end w) h (sy_calls s')"
    using risingD [OF rising_answers(1) header_Inr [OF b calls(1)]] calls by simp
  moreover have "sy_calls s \<le> sy_calls s'"
    using calls keeps_calls [OF header_keeps [OF ok] b] by simp
  ultimately show ?thesis using commit hash zero by auto
qed

section \<open>The step\<close>

text \<open>
  The contract at the start of the window: the one of the checkpoint, or without a checkpoint the
  one that \<open>initializeCTC\<close> returned in this step.
\<close>

definition starts_from :: "ingest_env \<Rightarrow> nat \<Rightarrow> State \<Rightarrow> Record list \<Rightarrow> scanWindow \<Rightarrow> nat \<Rightarrow> bool" where
  "starts_from E c st q w n \<longleftrightarrow> (st_Height st \<noteq> None \<longrightarrow> w_ctc w = st_CTC st) \<and>
     (\<exists>w0 w1 t t'. c \<le> sy_calls t \<and> sy_calls t' \<le> n \<and> sync_inv st q t \<and> w_from w0 = w_from w \<and> w_end w0 = w_end w \<and>
        w_before w0 = st \<and> initializeCTC E w0 t = (Inr (Some w1), t') \<and> w_ctc w1 = w_ctc w)"

text \<open>What a committed window means for checkpoint \<open>st\<close> and queue \<open>q\<close>.\<close>

definition window_committed ::
  "ingest_env \<Rightarrow> nat \<Rightarrow> State \<Rightarrow> Record list \<Rightarrow> scanWindow \<Rightarrow> State \<Rightarrow> Record list \<Rightarrow> nat \<Rightarrow> bool" where
  "window_committed E c st q w st' q' n \<longleftrightarrow>
     (\<exists>tip. tip_is E c tip n \<and> window_ok (en_Config E) st tip w) \<and> starts_from E c st q w n \<and>
     (\<exists>logs records. window_logs E c w logs n \<and>
        decodeLogs E logs (w_ctc w) (w_from w) (w_end w) = Inr (records, st_CTC st') \<and> queue_append q records = Some q') \<and>
     (\<exists>h. headed E c (w_end w) h n \<and> hd_Hash h = st_Hash st') \<and>
     (w_end w = w_target w \<longrightarrow> st_CTC st' \<noteq> 0) \<and>
     st_Height st' = Some (w_end w) \<and> st_Latest st' = latest_of q'"

lemma rising_starts [rising_intros]: "rising (\<lambda>n. starts_from E c st q w n)"
  unfolding starts_from_def by (intro rising_intros)

text \<open>The queue as it was, and what has been learnt.\<close>

definition sync_at :: "State \<Rightarrow> Record list \<Rightarrow> (nat \<Rightarrow> bool) \<Rightarrow> Syncer \<Rightarrow> bool" where
  "sync_at st q F s \<longleftrightarrow> sync_inv st q s \<and> F (sy_calls s)"

lemma triple_keeps:
  assumes "keeps m" "rising F"
    and "\<And>s x s'. sync_inv st q s \<Longrightarrow> F (sy_calls s) \<Longrightarrow> m s = (Inr x, s') \<Longrightarrow> A x (sy_calls s')"
  shows "triple (sync_inv st q) (sync_at st q F) m (\<lambda>x. sync_at st q (\<lambda>n. F n \<and> A x n))"
  unfolding triple_def sync_at_def
  using keepsD [OF assms(1)] keeps_calls [OF assms(1)] risingD [OF assms(2)] assms(3) by blast

definition committed_outcome :: "ingest_env \<Rightarrow> nat \<Rightarrow> State \<Rightarrow> Record list \<Rightarrow> bool \<Rightarrow> Syncer \<Rightarrow> bool" where
  "committed_outcome E c st q caught s \<longleftrightarrow> (\<exists>w st' q'. caught = (w_end w = w_target w) \<and>
     window_committed E c st q w st' q' (sy_calls s) \<and> sync_inv st' q' s)"

text \<open>Everything about a window before its commit.\<close>

definition window_of_logs :: "ingest_env \<Rightarrow> nat \<Rightarrow> State \<Rightarrow> Record list \<Rightarrow> scanWindow \<Rightarrow> Log list \<Rightarrow> nat \<Rightarrow> bool" where
  "window_of_logs E c st q w logs n \<longleftrightarrow> (c \<le> n \<and> (\<exists>tip. tip_is E c tip n \<and> window_ok (en_Config E) st tip w) \<and>
     starts_from E c st q w n) \<and> window_logs E c w logs n"

lemma setM_ok: "sync_inv st q s \<Longrightarrow> \<exists>s'. setM b None s = (Inr (), s') \<and> sync_inv st q s' \<and> sy_calls s' = sy_calls s"
  using status_inv_set [of "sy_Status s" b None] by (auto simp: setM_def sync_inv_def)

lemma finish_commit:
  assumes ok: "others_ok E"
    and facts: "\<And>n. F n \<Longrightarrow> window_of_logs E c st q w logs n \<and> decodeLogs E logs (w_ctc w) (w_from w) (w_end w) = Inr (records, ctc)"
    and up: "rising F"
  shows "triple (sync_inv st q) (sync_at st q F) (bindM (commitWindow E w ctc records) (\<lambda>_.
      bindM (setM (w_end w = w_target w) None) (\<lambda>_. ret (w_end w = w_target w)))) (committed_outcome E c st q)"
proof (rule triple_bind)
  let ?st' = "\<lambda>q'. \<lparr>st_Height = Some (w_end w), st_Hash = w_endHash w, st_CTC = ctc, st_Latest = latest_of q'\<rparr>"
  let ?done = "\<lambda>s. \<exists>q'. window_committed E c st q w (?st' q') q' (sy_calls s) \<and> sync_inv (?st' q') q' s"
  show "triple (sync_inv st q) (sync_at st q F) (commitWindow E w ctc records) (\<lambda>_. ?done)"
    unfolding triple_def sync_at_def
  proof (intro conjI allI impI; elim conjE)
    fix s e s'
    assume "sync_inv st q s" "commitWindow E w ctc records s = (Inl e, s')"
    then show "sync_inv st q s'" using quietD [OF commitWindow_quiet [OF ok]] by blast
  next
    fix s u s'
    assume inv: "sync_inv st q s" and F: "F (sy_calls s)" and run: "commitWindow E w ctc records s = (Inr u, s')"
    from run have "commitWindow E w ctc records s = (Inr (), s')" by simp
    from commitWindow_Inr [OF this inv ok] obtain h q' where le: "sy_calls s \<le> sy_calls s'"
      and h: "headed E (sy_calls s) (w_end w) h (sy_calls s')" "hd_Hash h = w_endHash w"
      and q': "queue_append q records = Some q'" "sync_inv (?st' q') q' s'" and zero: "\<not> (w_end w = w_target w \<and> ctc = 0)" by blast
    note f = facts [OF F] facts [OF risingD [OF up F le]]
    have "headed E c (w_end w) h (sy_calls s')"
      using h(1) f(1) unfolding headed_def window_of_logs_def by (meson order_trans)
    with f(2) h(2) q' zero have "window_committed E c st q w (?st' q') q' (sy_calls s')"
      unfolding window_committed_def window_of_logs_def by auto
    with q'(2) show "?done s'" by blast
  qed
next
  fix u
  let ?st' = "\<lambda>q'. \<lparr>st_Height = Some (w_end w), st_Hash = w_endHash w, st_CTC = ctc, st_Latest = latest_of q'\<rparr>"
  show "triple (sync_inv st q) (\<lambda>s. \<exists>q'. window_committed E c st q w (?st' q') q' (sy_calls s) \<and> sync_inv (?st' q') q' s)
      (bindM (setM (w_end w = w_target w) None) (\<lambda>_. ret (w_end w = w_target w))) (committed_outcome E c st q)"
  proof (rule triple_ex)
    fix q'
    let ?P = "\<lambda>s. window_committed E c st q w (?st' q') q' (sy_calls s) \<and> sync_inv (?st' q') q' s"
    have "triple (sync_inv st q) ?P (setM (w_end w = w_target w) None) (\<lambda>_. ?P)"
      unfolding triple_def using setM_ok by (metis Inl_Inr_False prod.inject)
    then show "triple (sync_inv st q) ?P (bindM (setM (w_end w = w_target w) None) (\<lambda>_. ret (w_end w = w_target w)))
        (committed_outcome E c st q)"
      by (rule triple_bind) (rule triple_ret, auto simp: committed_outcome_def)
  qed
qed

lemma window_ok_anchor: "window_ok c st tip (w\<lparr>w_endHash := h\<rparr>) = window_ok c st tip w"
  "window_ok c st tip (w\<lparr>w_ctc := a\<rparr>) = window_ok c st tip w"
  by (simp_all add: window_ok_def)

text \<open>A window with its tip and its contract.\<close>

definition window_at :: "ingest_env \<Rightarrow> nat \<Rightarrow> State \<Rightarrow> Record list \<Rightarrow> scanWindow \<Rightarrow> nat \<Rightarrow> bool" where
  "window_at E c st q w n \<longleftrightarrow> c \<le> n \<and> (\<exists>tip. tip_is E c tip n \<and> window_ok (en_Config E) st tip w) \<and> starts_from E c st q w n"

lemma rising_window [rising_intros]: "rising (\<lambda>n. window_at E c st q w n)"
  unfolding window_at_def by (intro rising_intros)

lemma window_at_anchor: "window_at E c st q (w\<lparr>w_endHash := h\<rparr>) n = window_at E c st q w n"
  by (simp add: window_at_def starts_from_def window_ok_anchor)

lemma triple_scanAndCommit:
  assumes ok: "others_ok E"
  shows "triple (sync_inv st q) (sync_at st q (window_at E c st q w)) (scanAndCommit E w) (committed_outcome E c st q)"
  unfolding scanAndCommit_def Let_def
proof (rule triple_bind)
  have "window_at E c st q w' (sy_calls s')" if "window_at E c st q w (sy_calls s)" "anchorWindow E w s = (Inr w', s')" for s w' s'
  proof -
    from anchorWindow_Inr [OF that(2)] obtain h :: header where "w' = w\<lparr>w_endHash := hd_Hash h\<rparr>" by blast
    with risingD [OF rising_window that(1) keeps_calls [OF anchorWindow_keeps [OF ok] that(2)]]
    show ?thesis by (simp add: window_at_anchor)
  qed
  then show "triple (sync_inv st q) (sync_at st q (window_at E c st q w)) (anchorWindow E w)
      (\<lambda>w'. sync_at st q (\<lambda>n. window_at E c st q w n \<and> window_at E c st q w' n))"
    by (intro triple_keeps [OF anchorWindow_keeps [OF ok] rising_window])
next
  fix w'
  let ?F = "\<lambda>n. window_at E c st q w n \<and> window_at E c st q w' n"
  have up: "rising ?F" by (intro rising_intros)
  let ?G = "\<lambda>logs n. ?F n \<and> window_logs E c w' logs n"
  have load: "triple (sync_inv st q) (sync_at st q ?F) (loadLogs E w') (\<lambda>logs. sync_at st q (?G logs))"
    by (rule triple_keeps [OF loadLogs_keeps [OF ok] up]) (rule loadLogs_Inr, auto simp: window_at_def)
  show "triple (sync_inv st q) (sync_at st q ?F) (bindM (loadLogs E w') (\<lambda>logs.
      bindM (liftE (decodeLogs E logs (w_ctc w') (w_from w') (w_end w'))) (\<lambda>(records, ctc).
      bindM (commitWindow E w' ctc records) (\<lambda>_. bindM (setM (w_end w' = w_target w') None)
        (\<lambda>_. ret (w_end w' = w_target w')))))) (committed_outcome E c st q)"
  proof (rule triple_bind [OF load])
    fix logs
    let ?dec = "decodeLogs E logs (w_ctc w') (w_from w') (w_end w')"
    have up2: "rising (?G logs)" by (intro rising_intros)
    have dec: "triple (sync_inv st q) (sync_at st q (?G logs)) (liftE ?dec) (\<lambda>x. sync_at st q (\<lambda>n. ?G logs n \<and> ?dec = Inr x))"
      by (rule triple_keeps [OF keeps_basic(3) up2]) simp
    show "triple (sync_inv st q) (sync_at st q (?G logs)) (bindM (liftE ?dec) (\<lambda>(records, ctc).
        bindM (commitWindow E w' ctc records) (\<lambda>_. bindM (setM (w_end w' = w_target w') None)
          (\<lambda>_. ret (w_end w' = w_target w'))))) (committed_outcome E c st q)"
    proof (rule triple_bind [OF dec], clarify)
      fix records ctc
      have up3: "rising (\<lambda>n. ?G logs n \<and> ?dec = Inr (records, ctc))" by (intro rising_intros)
      show "triple (sync_inv st q) (sync_at st q (\<lambda>n. ?G logs n \<and> ?dec = Inr (records, ctc)))
          (bindM (commitWindow E w' ctc records) (\<lambda>_. bindM (setM (w_end w' = w_target w') None)
          (\<lambda>_. ret (w_end w' = w_target w')))) (committed_outcome E c st q)"
        by (rule finish_commit [where logs = logs, OF ok _ up3]) (simp add: window_of_logs_def window_at_def)
    qed
  qed
qed

lemma triple_getM: "triple F P getM (\<lambda>_. P)"
  by (simp add: triple_def)

text \<open>A step that commits nothing reports that it has caught up only if there is nothing to scan.\<close>

definition no_window_at :: "ingest_env \<Rightarrow> nat \<Rightarrow> State \<Rightarrow> bool \<Rightarrow> nat \<Rightarrow> bool" where
  "no_window_at E c st caught n \<longleftrightarrow> (caught \<longrightarrow> (\<exists>tip. tip_is E c tip n \<and> nothing_to_scan (en_Config E) st tip))"

definition step_post :: "ingest_env \<Rightarrow> nat \<Rightarrow> State \<Rightarrow> Record list \<Rightarrow> bool \<Rightarrow> Syncer \<Rightarrow> bool" where
  "step_post E c st q caught s \<longleftrightarrow> sync_inv st q s \<and> no_window_at E c st caught (sy_calls s) \<or> committed_outcome E c st q caught s"

definition chosen :: "ingest_env \<Rightarrow> nat \<Rightarrow> State \<Rightarrow> scanWindow \<Rightarrow> nat \<Rightarrow> bool" where
  "chosen E c st w n \<longleftrightarrow> c \<le> n \<and> (\<exists>tip. tip_is E c tip n \<and> window_ok (en_Config E) st tip w \<and> w_ctc w = st_CTC st)"

lemma rising_chosen [rising_intros]: "rising (\<lambda>n. chosen E c st w n)"
  unfolding chosen_def by (intro rising_intros)

lemma initializeCTC_window:
  assumes ok: "others_ok E" and inv: "sync_inv st q s" and win: "chosen E c st w (sy_calls s)"
    and run: "initializeCTC E w s = (Inr (Some w'), s')"
  shows "window_at E c st q w' (sy_calls s')"
proof -
  note some = initializeCTC_Some [OF run]
  obtain a where w': "w' = w\<lparr>w_ctc := a\<rparr>" using some by blast
  have le: "sy_calls s \<le> sy_calls s'" using keeps_calls [OF initializeCTC_keeps [OF ok] run] .
  with risingD [OF rising_chosen win] have win': "chosen E c st w (sy_calls s')" .
  then obtain tip where tip: "tip_is E c tip (sy_calls s')" "window_ok (en_Config E) st tip w" "w_ctc w = st_CTC st"
    by (auto simp: chosen_def)
  have "w_before w = st" using tip(2) by (simp add: window_ok_def)
  moreover have "c \<le> sy_calls s" using win by (simp add: chosen_def)
  ultimately have "starts_from E c st q w' (sy_calls s')"
    unfolding starts_from_def using inv run some tip(3) w'
    by (intro conjI exI [of _ w] exI [of _ w'] exI [of _ s] exI [of _ s']) auto
  with tip le \<open>c \<le> sy_calls s\<close> show ?thesis unfolding window_at_def by (auto simp: w' window_ok_anchor)
qed

lemma triple_window:
  assumes ok: "others_ok E"
  shows "triple (sync_inv st q) (sync_at st q (chosen E c st w)) (bindM (initializeCTC E w) (\<lambda>w. case w of
      None \<Rightarrow> ret False | Some w \<Rightarrow> scanAndCommit E w)) (step_post E c st q)"
proof (rule triple_bind)
  show "triple (sync_inv st q) (sync_at st q (chosen E c st w)) (initializeCTC E w)
      (\<lambda>x. sync_at st q (\<lambda>n. chosen E c st w n \<and> (\<forall>w'. x = Some w' \<longrightarrow> window_at E c st q w' n)))"
    by (rule triple_keeps [OF initializeCTC_keeps [OF ok] rising_chosen]) (use initializeCTC_window [OF ok] in blast)
next
  fix x
  show "triple (sync_inv st q) (sync_at st q (\<lambda>n. chosen E c st w n \<and> (\<forall>w'. x = Some w' \<longrightarrow> window_at E c st q w' n)))
      (case x of None \<Rightarrow> ret False | Some w \<Rightarrow> scanAndCommit E w) (step_post E c st q)"
  proof (cases x)
    case None
    then show ?thesis by (auto simp: step_post_def no_window_at_def sync_at_def intro: triple_ret)
  next
    case (Some w')
    have "triple (sync_inv st q) (sync_at st q (\<lambda>n. chosen E c st w n \<and> window_at E c st q w' n)) (scanAndCommit E w') (step_post E c st q)"
      by (rule triple_conseq [OF triple_scanAndCommit [OF ok, of st q c w']]) (simp_all add: sync_at_def step_post_def)
    then show ?thesis by (simp add: Some)
  qed
qed

lemma triple_Step:
  assumes ok: "others_ok E" and size: "c_BatchSize (en_Config E) \<noteq> 0"
  shows "triple (sync_inv st q) (sync_at st q (\<lambda>n. c \<le> n)) (Step E) (step_post E c st q)"
  unfolding Step_def
proof (rule triple_bind [OF triple_getM], split option.split, intro conjI impI allI triple_throw)
  let ?A = "\<lambda>x n. \<exists>tip. tip_is E c tip n \<and> (case x of None \<Rightarrow> nothing_to_scan (en_Config E) st tip
    | Some w \<Rightarrow> window_ok (en_Config E) st tip w \<and> w_ctc w = st_CTC st)"
  have prep: "triple (sync_inv st q) (sync_at st q (\<lambda>n. c \<le> n)) (prepareWindow E) (\<lambda>x. sync_at st q (\<lambda>n. c \<le> n \<and> ?A x n))"
    by (rule triple_keeps [OF prepareWindow_keeps [OF ok] rising_basic(1)]) (rule prepareWindow_Inr [OF _ _ size ok])
  show "triple (sync_inv st q) (sync_at st q (\<lambda>n. c \<le> n)) (bindM (prepareWindow E) (\<lambda>w. case w of None \<Rightarrow> ret True
      | Some w \<Rightarrow> bindM (initializeCTC E w) (\<lambda>w. case w of None \<Rightarrow> ret False | Some w \<Rightarrow> scanAndCommit E w)))
      (step_post E c st q)"
  proof (rule triple_bind [OF prep])
    fix x
    show "triple (sync_inv st q) (sync_at st q (\<lambda>n. c \<le> n \<and> ?A x n)) (case x of None \<Rightarrow> ret True
          | Some w \<Rightarrow> bindM (initializeCTC E w) (\<lambda>w. case w of None \<Rightarrow> ret False | Some w \<Rightarrow> scanAndCommit E w))
        (step_post E c st q)"
    proof (cases x)
      case None
      then show ?thesis by (auto simp: step_post_def no_window_at_def sync_at_def intro: triple_ret)
    next
      case (Some w)
      have "triple (sync_inv st q) (sync_at st q (\<lambda>n. c \<le> n \<and> ?A (Some w) n)) (bindM (initializeCTC E w) (\<lambda>w. case w of
          None \<Rightarrow> ret False | Some w \<Rightarrow> scanAndCommit E w)) (step_post E c st q)"
        by (rule triple_conseq [OF triple_window [OF ok, of st q c w]]) (auto simp: sync_at_def chosen_def)
      then show ?thesis by (simp add: Some)
    qed
  qed
qed (simp add: sync_at_def)

section \<open>Runs\<close>

lemma Step_sound:
  assumes "others_ok E" and "c_BatchSize (en_Config E) \<noteq> 0" and "sync_inv st q s" and "Step E s = (r, s')"
  shows "(sync_inv st q s' \<and> (\<forall>caught. r = Inr caught \<longrightarrow> no_window_at E (sy_calls s) st caught (sy_calls s'))) \<or>
    (\<exists>caught. r = Inr caught \<and> committed_outcome E (sy_calls s) st q caught s')"
proof -
  have at: "sync_at st q (\<lambda>n. sy_calls s \<le> n) s" using assms(3) by (simp add: sync_at_def)
  note step = tripleD [OF triple_Step [OF assms(1,2)] at]
  show ?thesis
  proof (cases r)
    case (Inl e)
    from step(1) [OF assms(4) [unfolded Inl]] Inl show ?thesis by simp
  next
    case (Inr caught)
    from step(2) [OF assms(4) [unfolded Inr]] Inr show ?thesis unfolding step_post_def by blast
  qed
qed

definition height_le :: "u64 option \<Rightarrow> u64 option \<Rightarrow> bool" where
  "height_le a b \<longleftrightarrow> (\<forall>h. a = Some h \<longrightarrow> (\<exists>k. b = Some k \<and> h \<le> k))"

definition advanced :: "State \<Rightarrow> Record list \<Rightarrow> Syncer \<Rightarrow> bool" where
  "advanced st q s \<longleftrightarrow> (\<exists>st' q'. sync_inv st' q' s \<and> height_le (st_Height st) (st_Height st') \<and>
     (\<exists>ys. q' = q @ ys) \<and> (st_Height st' = st_Height st \<longrightarrow> st' = st \<and> q' = q))"

lemma committed_advances:
  assumes "committed_outcome E c st q caught s"
  shows "advanced st q s"
proof -
  from assms obtain w st' q' where w: "window_committed E c st q w st' q' (sy_calls s)" "sync_inv st' q' s"
    by (auto simp: committed_outcome_def)
  then obtain tip where win: "window_ok (en_Config E) st tip w" and h: "st_Height st' = Some (w_end w)"
    and app: "\<exists>rs. queue_append q rs = Some q'" by (auto simp: window_committed_def)
  have gt: "h < w_end w" if "st_Height st = Some h" for h
    using win that by (auto simp: window_ok_def word_less_nat_alt word_le_nat_alt)
  then have "height_le (st_Height st) (st_Height st')"
    using h by (auto simp: height_le_def less_imp_le)
  moreover from gt [of "w_end w"] h have "st_Height st' \<noteq> st_Height st" by auto
  ultimately have "height_le (st_Height st) (st_Height st')" "st_Height st' \<noteq> st_Height st" .
  with app w(2) queue_append_extends show ?thesis unfolding advanced_def by blast
qed

lemma advanced_refl: "sync_inv st q s \<Longrightarrow> advanced st q s"
  unfolding advanced_def height_le_def by (intro exI [of _ st] exI [of _ q]) simp

lemma advanced_step:
  assumes "advanced st q s" and "\<And>st' q'. sync_inv st' q' s \<Longrightarrow> advanced st' q' t"
  shows "advanced st q t"
proof -
  from assms(1) obtain st' q' where a: "sync_inv st' q' s" "height_le (st_Height st) (st_Height st')"
    "\<exists>ys. q' = q @ ys" "st_Height st' = st_Height st \<longrightarrow> st' = st \<and> q' = q" by (auto simp: advanced_def)
  from assms(2) [OF a(1)] obtain st'' q'' where b: "sync_inv st'' q'' t" "height_le (st_Height st') (st_Height st'')"
    "\<exists>ys. q'' = q' @ ys" "st_Height st'' = st_Height st' \<longrightarrow> st'' = st' \<and> q'' = q'" by (auto simp: advanced_def)
  have "height_le (st_Height st) (st_Height st'')"
    using a(2) b(2) by (cases "st_Height st") (auto simp: height_le_def intro: order_trans)
  moreover have "st_Height st'' = st_Height st \<longrightarrow> st'' = st \<and> q'' = q"
  proof
    assume eq: "st_Height st'' = st_Height st"
    with a(2) b(2) have "st_Height st' = st_Height st"
      by (cases "st_Height st"; cases "st_Height st'") (auto simp: height_le_def)
    with a(4) b(4) eq show "st'' = st \<and> q'' = q" by simp
  qed
  ultimately show ?thesis using a(3) b(1,3) unfolding advanced_def by (metis append.assoc)
qed

lemma runOnce_advances:
  assumes ok: "others_ok E" "c_BatchSize (en_Config E) \<noteq> 0" and inv: "sync_inv st q s" and run: "runOnce E s = (n, t)"
  shows "advanced st q t"
proof -
  obtain r s1 where step: "Step E s = (r, s1)" by force
  have adv: "advanced st q s1"
    using Step_sound [OF ok inv step] advanced_refl committed_advances by blast
  have keep: "advanced st q (snd (setM b e u))" if "advanced st q u" for b e u
    using that
  proof (rule advanced_step)
    show "advanced st' q' (snd (setM b e u))" if "sync_inv st' q' u" for st' q'
      using advanced_refl [OF keepsD [OF setM_keeps that, of b e]] by (metis prod.collapse)
  qed
  show ?thesis
    using run step adv keep [OF adv] keep [OF keep [OF adv]]
    by (auto simp: runOnce_def Let_def split: option.splits sum.splits if_splits)
qed

lemma Run_advances:
  assumes "Run E s b t" "others_ok E" "c_BatchSize (en_Config E) \<noteq> 0" "sync_inv st q s"
  shows "advanced st q t"
  using assms
proof (induction rule: Run.induct)
  case (start s)
  then show ?case by (simp add: advanced_refl)
next
  case (go s t n u)
  then show ?case using advanced_step runOnce_advances by blast
qed

section \<open>Properties\<close>

text \<open>C8.  A step of the deposit synchronizer is atomic and exact, whatever the RPC answers
  and the other goroutines do meanwhile.  On an error checkpoint and queue are unchanged.
  Otherwise exactly one window was committed, or none; without a window the step reports that it
  has caught up only if the tip that the RPC gave leaves nothing to scan.  A committed window starts
  right after the checkpoint, fits in a batch and ends at or below the tip less the confirmations;
  its logs are the RPC's answer to the address query followed by the RPC's answer to the deposit
  query for the addresses of those logs and the current contract; the queue grew by the records
  these logs decode to, from the contract of the checkpoint or, without a checkpoint, from the one
  that the bootstrap found; and the new checkpoint is the end of the window with the hash the RPC
  gave for it.  All answers are those to the calls of this step.\<close>

theorem Step_commits_window:
  assumes "others_ok E" and "c_BatchSize (en_Config E) \<noteq> 0" and "sync_inv st q s" and "Step E s = (r, s')"
  shows "(sync_inv st q s' \<and> (r = Inr True \<longrightarrow>
      (\<exists>tip. tip_is E (sy_calls s) tip (sy_calls s') \<and> nothing_to_scan (en_Config E) st tip))) \<or>
    (\<exists>w st' q'. r = Inr (w_end w = w_target w) \<and> window_committed E (sy_calls s) st q w st' q' (sy_calls s') \<and> sync_inv st' q' s')"
  using Step_sound [OF assms] by (auto simp: committed_outcome_def no_window_at_def)

text \<open>C15.  Over any run of the synchronizer the queue only grows at its end, the checkpoint
  never moves back, and it is unchanged as long as its height is.\<close>

theorem Run_never_moves_back:
  assumes "Run E s stopped t" and "others_ok E" and "c_BatchSize (en_Config E) \<noteq> 0" and "sync_inv st q s"
  shows "\<exists>st' ys. sync_inv st' (q @ ys) t \<and> height_le (st_Height st) (st_Height st') \<and>
    (st_Height st' = st_Height st \<longrightarrow> st' = st \<and> ys = [])"
  using Run_advances [OF assms] unfolding advanced_def by blast

end
