(* ===== verification/BlobRuns.thy ===== *)
theory BlobRuns
  imports BlobParts IngestStep
begin

text \<open>
  The properties of a step of the Blob synchronizer: the Blob namespace changes only by an
  atomic advance of the retention cutoff and by the atomic commit of one scanned window, and over
  a run neither the checkpoint nor the cutoff moves back.  All of it holds while other goroutines
  change the deposit records and the status during every remote call.
\<close>

section \<open>What every part keeps\<close>

text \<open>Other goroutines do not touch Blob keys of the store and call the methods of the status.\<close>

definition keeps_blob :: "pebble \<Rightarrow> pebble \<Rightarrow> bool" where
  "keeps_blob b b' \<longleftrightarrow> (dict_ok (pb_data b) \<longrightarrow> dict_ok (pb_data b') \<and>
     (\<forall>k. blob_prefixed k \<longrightarrow> dget (pb_data b') k = dget (pb_data b) k))"

definition blob_others_ok :: "blob_env \<Rightarrow> bool" where
  "blob_others_ok E \<longleftrightarrow> (\<forall>n st ss. keeps_blob (s_db st) (s_db (fst (bx_others E n (st, ss)))) \<and>
     status_run ss (snd (bx_others E n (st, ss))))"

text \<open>
  The database holds the checkpoint \<open>st\<close>, and represents the view if one is given.  What
  concerns the checkpoint alone needs no view.
\<close>

definition rep_at :: "BlobState \<Rightarrow> blob_view option \<Rightarrow> BlobSyncer \<Rightarrow> bool" where
  "rep_at st Vo s \<longleftrightarrow> (let db = s_db (by_Store s) in dict_ok (pb_data db) \<and>
     dget (pb_data db) blobStateKey = Some (BlobStateDoc st) \<and> (\<forall>V. Vo = Some V \<longrightarrow> blob_inv db st V)) \<and>
     status_inv (by_Status s)"

definition keepB :: "BlobSyncer \<Rightarrow> BlobSyncer \<Rightarrow> bool" where
  "keepB s t \<longleftrightarrow> by_calls s \<le> by_calls t \<and> (\<forall>st Vo. rep_at st Vo s \<longrightarrow> rep_at st Vo t)"

lemma keepBD: "preserves keepB m \<Longrightarrow> rep_at st Vo s \<Longrightarrow> m s = (r, t) \<Longrightarrow> rep_at st Vo t"
  unfolding preserves_def keepB_def by (metis snd_conv)

lemma keepB_calls: "preserves keepB m \<Longrightarrow> m s = (r, t) \<Longrightarrow> by_calls s \<le> by_calls t"
  unfolding preserves_def keepB_def by (metis snd_conv)

lemma keeps_blob_inv:
  assumes "keeps_blob b b'" "dict_ok (pb_data b)" "blob_inv b st V"
  shows "blob_inv b' st V"
  using assms by (auto simp: keeps_blob_def blob_inv_def intro: blob_rep_cong)

lemma rep_at_others:
  assumes "rep_at st Vo s" "keeps_blob (s_db (by_Store s)) (s_db st')" "status_run (by_Status s) ss'"
  shows "rep_at st Vo (s\<lparr>by_Store := st', by_Status := ss', by_calls := n\<rparr>)"
proof -
  have "dict_ok (pb_data (s_db (by_Store s)))" using assms(1) by (simp add: rep_at_def Let_def)
  note inv = keeps_blob_inv [OF assms(2) this]
  have "status_inv ss'" using status_run_inv [OF assms(3)] assms(1) by (simp add: rep_at_def)
  with inv assms(1,2) show ?thesis by (simp add: rep_at_def keeps_blob_def Let_def)
qed

text \<open>Without the promise about the other goroutines nothing is claimed.\<close>

definition keepBE :: "blob_env \<Rightarrow> BlobSyncer \<Rightarrow> BlobSyncer \<Rightarrow> bool" where
  "keepBE E s t \<longleftrightarrow> (blob_others_ok E \<longrightarrow> keepB s t)"

lemma keepB_yielded: "blob_others_ok E \<Longrightarrow> keepB s (blob_yielded E s)"
proof -
  assume ok: "blob_others_ok E"
  obtain st' ss' where o: "bx_others E (by_calls s) (by_Store s, by_Status s) = (st', ss')" by force
  with ok have "keeps_blob (s_db (by_Store s)) (s_db st')" "status_run (by_Status s) ss'"
    unfolding blob_others_ok_def by (metis fst_conv, metis snd_conv)
  with rep_at_others o show ?thesis by (simp add: keepB_def blob_yielded_def)
qed

lemma memory_keeps:
  "preserves keepB (setBackfills b)" "preserves keepB (setBlobBootstrap c)" "preserves keepB (setBlobReadyM flag)"
  unfolding setBackfills_def setBlobBootstrap_def setBlobReadyM_def
  by (auto intro!: preserves_modifyM simp: keepB_def rep_at_def SetBlobReady_def status_inv_def)

lemma beacon_keeps: "keepB s (s\<lparr>by_Beacon := b\<rparr>)"
  by (simp add: keepB_def rep_at_def)

interpretation bk: blob_kept "keepBE E" E for E
  using keepB_yielded memory_keeps beacon_keeps
  by unfold_locales (auto simp: keepBE_def keepB_def preserves_def reflp_def transp_def intro: order_trans)

interpretation bc: blob_steps "\<lambda>s t. by_calls s \<le> by_calls t" E for E
  by unfold_locales
    (auto simp: preserves_def reflp_def transp_def blob_yielded_def setBackfills_def setBlobBootstrap_def setBlobReadyM_def
      commitBlob_def setFatalM_def split: prod.split option.split)

lemma keepB_part: "blob_others_ok E \<Longrightarrow> preserves (keepBE E) m \<Longrightarrow> preserves keepB m"
  by (simp add: keepBE_def preserves_def)

lemmas blobHead_keeps = keepB_part [OF _ bk.blobHead_part]
  and check_keeps = keepB_part [OF _ bk.check_part]
  and checkpoint_keeps = keepB_part [OF _ bk.checkpoint_part]
  and authLogs_keeps = keepB_part [OF _ bk.authLogs_part]
  and scan_keeps = keepB_part [OF _ bk.scan_part]
  and tipTarget_keeps = keepB_part [OF _ bk.tipTarget_part]
  and initialize_keeps = keepB_part [OF _ bk.initialize_part]
  and checkBlobBootstrap_keeps = keepB_part [OF _ bk.checkBlobBootstrap_part]

lemma orPending_keeps: "preserves keepB m \<Longrightarrow> preserves keepB (orPending m)"
  by (simp add: orPending_def preserves_def case_prod_beta)

lemma loadBlobState_keeps: "preserves keepB loadBlobState"
  by (auto simp: loadBlobState_def bindM_def getM_def throw_def ret_def preserves_def keepB_def split: sum.splits)

section \<open>Commits\<close>

text \<open>The view after a commit is known if it was.\<close>

definition view_after :: "u64 \<Rightarrow> BlobTransaction list \<Rightarrow> BlobChannel list \<Rightarrow> blob_view option \<Rightarrow> blob_view option \<Rightarrow> bool" where
  "view_after cutoff txs chs Vo Vo' \<longleftrightarrow> (\<forall>V. Vo = Some V \<longrightarrow> Vo' = view_commit cutoff txs chs V \<and> Vo' \<noteq> None)"

lemma commitBlob_Inl:
  assumes "commitBlob E before after txs chs s = (Inl e, s')"
  shows "s' = s"
  using assms CommitBlob_Inl
  by (auto simp: commitBlob_def CommitIfHealthy_def commitIfHealthy_def wrapIntegrity_def
      split: option.split_asm prod.split_asm sum.split_asm)

text \<open>The part of \<open>rep_at\<close> that is about the database.\<close>

definition db_at :: "BlobState \<Rightarrow> blob_view option \<Rightarrow> pebble \<Rightarrow> bool" where
  "db_at st Vo db \<longleftrightarrow> dict_ok (pb_data db) \<and> dget (pb_data db) blobStateKey = Some (BlobStateDoc st) \<and>
     (\<forall>V. Vo = Some V \<longrightarrow> blob_inv db st V)"

lemma rep_at_db: "rep_at st Vo s \<longleftrightarrow> db_at st Vo (s_db (by_Store s)) \<and> status_inv (by_Status s)"
  by (simp add: rep_at_def db_at_def Let_def)

lemma keeps_blob_db_at: "keeps_blob db db' \<Longrightarrow> db_at st Vo db \<Longrightarrow> db_at st Vo db'"
  using keeps_blob_inv [of db db'] by (simp add: db_at_def) (simp add: keeps_blob_def)

lemma CommitBlob_at:
  assumes c: "CommitBlob store before after txs chs = (Inr (), store')" and d: "db_at st Vo (s_db store)"
  shows "before = st \<and> bst_Cutoff st \<le> bst_Cutoff after \<and> (\<exists>l Vo'. view_after (bst_Cutoff after) txs chs Vo Vo' \<and>
    db_at (stored_state (after\<lparr>bst_Latest := l, bst_Revision := bst_Revision st + 1\<rparr>)) Vo' (s_db store'))"
proof -
  from d have ok: "dict_ok (pb_data (s_db store))" by (simp add: db_at_def)
  have st: "before = st" using readBlobState_Inr [OF CommitBlob_Inr(2) [OF c]] d by (simp add: db_at_def)
  from CommitBlob_state [OF ok c] obtain l where
    l: "dict_ok (pb_data (s_db store'))" "dget (pb_data (s_db store')) blobStateKey =
      Some (BlobStateDoc (stored_state (after\<lparr>bst_Latest := l, bst_Revision := bst_Revision st + 1\<rparr>)))" using st by blast
  let ?st' = "stored_state (after\<lparr>bst_Latest := l, bst_Revision := bst_Revision st + 1\<rparr>)"
  have "\<exists>Vo'. view_after (bst_Cutoff after) txs chs Vo Vo' \<and> db_at ?st' Vo' (s_db store')"
  proof (cases Vo)
    case (Some V)
    with d have "blob_inv (s_db store) before V" by (simp add: db_at_def st)
    from CommitBlob_sound [OF this c] st obtain V' m where
      "view_commit (bst_Cutoff after) txs chs V = Some V'"
      and inv': "blob_inv (s_db store') (stored_state (after\<lparr>bst_Latest := m, bst_Revision := bst_Revision st + 1\<rparr>)) V'" by blast
    moreover from inv' l(2) have "stored_state (after\<lparr>bst_Latest := m, bst_Revision := bst_Revision st + 1\<rparr>) = ?st'"
      by (simp add: blob_inv_def)
    ultimately show ?thesis using Some l
      by (intro exI [of _ "Some V'"]) (simp add: view_after_def db_at_def)
  next
    case None
    then show ?thesis using l by (intro exI [of _ None]) (auto simp: view_after_def db_at_def)
  qed
  with st CommitBlob_Inr(4) [OF c] show ?thesis by blast
qed

lemma commitBlob_Inr:
  assumes run: "commitBlob E before after txs chs s = (Inr (), s')" and inv: "rep_at st Vo s"
  shows "before = st \<and> bst_Cutoff st \<le> bst_Cutoff after \<and> ss_fatal (by_Status s) = None \<and> by_calls s' = by_calls s \<and>
    (\<exists>l Vo'. view_after (bst_Cutoff after) txs chs Vo Vo' \<and>
    rep_at (stored_state (after\<lparr>bst_Latest := l, bst_Revision := bst_Revision st + 1\<rparr>)) Vo' s')"
proof -
  from run obtain store' where c: "CommitBlob (by_Store s) before after txs chs = (Inr (), store')"
    and s': "s' = s\<lparr>by_Store := store'\<rparr>" and h: "ss_fatal (by_Status s) = None"
    by (auto simp: commitBlob_def CommitIfHealthy_def commitIfHealthy_def wrapIntegrity_def
        split: option.split_asm prod.split_asm sum.split_asm)
  from CommitBlob_at [OF c] inv h show ?thesis unfolding rep_at_db s' by fastforce
qed

section \<open>What a step has learnt\<close>

text \<open>
  A step starts at call \<open>c\<close> and has come to call \<open>n\<close>: the header that the RPC gave for
  a height, the confirmed target under the tip that it gave, and the results of the parts that ran
  on a database with the checkpoint \<open>st\<close>.
\<close>

definition answered :: "blob_env \<Rightarrow> nat \<Rightarrow> u64 \<Rightarrow> blobHeader \<Rightarrow> nat \<Rightarrow> bool" where
  "answered E c height h n \<longleftrightarrow> (\<exists>k. c \<le> k \<and> k < n \<and> bx_HeaderByNumber E k (Some height) = Inr (Some h))"

definition confirmed_target :: "blob_env \<Rightarrow> nat \<Rightarrow> u64 \<Rightarrow> nat \<Rightarrow> bool" where
  "confirmed_target E c target n \<longleftrightarrow> (\<exists>k h i. c \<le> k \<and> k < n \<and> bx_HeaderByNumber E k None = Inr (Some h) \<and>
     bh_Number h = Some i \<and> 0 \<le> i \<and> i < 2 ^ 64 \<and> unat target = nat i - unat (c_Confirmations (bx_Config E)))"

definition ran_at :: "nat \<Rightarrow> BlobState \<Rightarrow> blob_view option \<Rightarrow> 'a bsync \<Rightarrow> 'a \<Rightarrow> nat \<Rightarrow> bool" where
  "ran_at c st Vo m x n \<longleftrightarrow> (\<exists>t t'. c \<le> by_calls t \<and> by_calls t' \<le> n \<and> rep_at st Vo t \<and> m t = (Inr x, t'))"

text \<open>Such facts stay true as the step goes on.\<close>

lemma rising_facts [rising_intros]:
  "rising (answered E c height h)" "rising (confirmed_target E c target)" "rising (ran_at d st Vo m x)"
  unfolding rising_def answered_def confirmed_target_def ran_at_def by (meson order_trans less_le_trans)+

section \<open>The parts of a step\<close>

text \<open>The database as it was, and what has been learnt.\<close>

definition at_call :: "BlobState \<Rightarrow> blob_view option \<Rightarrow> (nat \<Rightarrow> bool) \<Rightarrow> BlobSyncer \<Rightarrow> bool" where
  "at_call st Vo F s \<longleftrightarrow> rep_at st Vo s \<and> F (by_calls s)"

lemma triple_learns:
  assumes "preserves keepB m" "rising F"
    and "\<And>s x s'. rep_at st Vo s \<Longrightarrow> F (by_calls s) \<Longrightarrow> m s = (Inr x, s') \<Longrightarrow> A x (by_calls s')"
  shows "triple (at_call st Vo F) (at_call st Vo F) m (\<lambda>x. at_call st Vo (\<lambda>n. F n \<and> A x n))"
  unfolding triple_def at_call_def
  using keepBD [OF assms(1)] keepB_calls [OF assms(1)] risingD [OF assms(2)] assms(3) by blast

lemma triple_keepB_only:
  assumes "preserves keepB m" "rising F"
  shows "triple (at_call st Vo F) (at_call st Vo F) m (\<lambda>_. at_call st Vo F)"
  using triple_learns [OF assms, of st Vo "\<lambda>_ _. True"] by simp

lemma triple_ran:
  assumes "preserves keepB m" "rising F" "\<And>n. F n \<Longrightarrow> c \<le> n"
  shows "triple (at_call st Vo F) (at_call st Vo F) m (\<lambda>x. at_call st Vo (\<lambda>n. F n \<and> ran_at c st Vo m x n))"
  by (rule triple_learns [OF assms(1,2)]) (use assms(3) in \<open>auto simp: ran_at_def\<close>)

lemma at_call_pure: "at_call st Vo (\<lambda>n. F n \<and> A) = (\<lambda>s. at_call st Vo F s \<and> A)"
  by (auto simp: at_call_def)

lemma triple_commitBlob:
  "triple (at_call st Vo F) (at_call st Vo F) (commitBlob E before after txs chs) (\<lambda>_ s. \<exists>l Vo'.
     at_call (stored_state (after\<lparr>bst_Latest := l, bst_Revision := bst_Revision st + 1\<rparr>)) Vo' F s \<and>
     before = st \<and> bst_Cutoff st \<le> bst_Cutoff after \<and> view_after (bst_Cutoff after) txs chs Vo Vo')"
  unfolding triple_def at_call_def
  using commitBlob_Inl [of E before after txs chs] commitBlob_Inr [of E before after txs chs] by (metis old.unit.exhaust)

lemma loadBlobState_Inr: "rep_at st Vo s \<Longrightarrow> loadBlobState s = (Inr x, s') \<Longrightarrow> x = st"
  by (auto simp: loadBlobState_def bindM_Inr BlobState_def rep_at_def Let_def dest: readBlobState_Inr split: sum.splits if_splits)

lemma triple_load:
  assumes "rising F"
  shows "triple (at_call st Vo F) (at_call st Vo F) loadBlobState (\<lambda>x s. at_call st Vo F s \<and> x = st)"
  unfolding at_call_pure [symmetric]
  by (rule triple_learns [OF loadBlobState_keeps assms]) (rule loadBlobState_Inr)

lemma call_Inr_calls: "call E ans s = (Inr r, s') \<Longrightarrow> ans (by_calls s) = Inr r \<and> by_calls s' = Suc (by_calls s)"
  by (auto simp: call_def Let_def split: prod.splits)

lemma blobHead_Inr:
  assumes "blobHead E n s = (Inr h, s')" "c \<le> by_calls s"
  shows "answered E c n h (by_calls s')"
proof -
  from assms(1) obtain r s1 where ans: "call E (\<lambda>k. bx_HeaderByNumber E k (Some n)) s = (Inr r, s1)"
    and rest: "(case r of None \<Rightarrow> throw (fatal ''invalid Blob scan header'')
     | Some h \<Rightarrow> (case bh_Number h of None \<Rightarrow> throw (fatal ''invalid Blob scan header'')
         | Some i \<Rightarrow> if \<not> IsUint64 i \<or> word_of_int i \<noteq> n then throw (fatal ''invalid Blob scan header'') else ret h)) s1 = (Inr h, s')"
    unfolding blobHead_def bindM_Inr by blast
  from rest have "r = Some h" "s' = s1" by (auto split: option.splits if_splits)
  with call_Inr_calls [OF ans] assms(2) show ?thesis by (auto simp: answered_def)
qed

lemma tipTarget_Inr:
  assumes "tipTarget E s = (Inr target, s')" "c \<le> by_calls s"
  shows "confirmed_target E c target (by_calls s')"
proof -
  let ?conf = "c_Confirmations (bx_Config E)"
  from assms(1) obtain tip s1 where ans: "call E (\<lambda>k. bx_HeaderByNumber E k None) s = (Inr tip, s1)"
    and rest: "(case Option.bind tip bh_Number of None \<Rightarrow> throw (fatal ''invalid L1 tip'')
     | Some i \<Rightarrow> if \<not> IsUint64 i then throw (fatal ''invalid L1 tip'')
        else ret (if ?conf \<le> word_of_int i then word_of_int i - ?conf else 0)) s1 = (Inr target, s')"
    unfolding tipTarget_def bindM_Inr by blast
  from rest obtain h i where h: "tip = Some h" "bh_Number h = Some i" "IsUint64 i" "s' = s1"
    "target = (if ?conf \<le> word_of_int i then word_of_int i - ?conf else 0)"
    by (auto split: option.splits if_splits simp: bind_eq_Some_conv)
  have i: "unat (word_of_int i :: u64) = nat i"
    using h(3) by (simp add: IsUint64_def unsigned_of_int take_bit_int_eq_self)
  have "unat target = nat i - unat ?conf"
    using h(5) i by (auto simp: unat_sub word_le_nat_alt)
  with h call_Inr_calls [OF ans] assms(2) show ?thesis
    unfolding confirmed_target_def IsUint64_def by (intro exI [of _ "by_calls s"] exI [of _ h] exI [of _ i]) auto
qed

lemmas answered_rise = risingD [OF rising_facts(1)]
  and target_rise = risingD [OF rising_facts(2)]

text \<open>
  Where the preparation can lead: nowhere, or to a retention cutoff advanced to the retention
  bound of the header at the confirmed target.
\<close>

definition retained :: "blob_env \<Rightarrow> nat \<Rightarrow> BlobState \<Rightarrow> blob_view option \<Rightarrow> u64 \<Rightarrow> BlobState \<Rightarrow> blob_view option \<Rightarrow> nat \<Rightarrow> bool" where
  "retained E c st Vo target st1 Vo1 n \<longleftrightarrow> (\<exists>h l. confirmed_target E c target n \<and> answered E c target h n \<and>
     bst_Cutoff st < retentionCutoff h \<and> view_after (retentionCutoff h) [] [] Vo Vo1 \<and>
     st1 = stored_state (st\<lparr>bst_Cutoff := retentionCutoff h, bst_RetentionHeight := Some target, bst_RetentionHash := bh_Hash h,
       bst_Latest := l, bst_Revision := bst_Revision st + 1\<rparr>))"

definition prepared :: "blob_env \<Rightarrow> nat \<Rightarrow> BlobState \<Rightarrow> blob_view option \<Rightarrow> u64 \<Rightarrow> BlobState \<Rightarrow> blob_view option \<Rightarrow> nat \<Rightarrow> bool" where
  "prepared E c st Vo target st1 Vo1 n \<longleftrightarrow> st1 = st \<and> Vo1 = Vo \<or> retained E c st Vo target st1 Vo1 n"

text \<open>A preparation that succeeds knows the target, and the cutoff has reached its bound.\<close>

definition at_tip :: "blob_env \<Rightarrow> nat \<Rightarrow> BlobState \<Rightarrow> u64 \<Rightarrow> nat \<Rightarrow> bool" where
  "at_tip E c st1 target n \<longleftrightarrow> confirmed_target E c target n \<and> (\<exists>h. answered E c target h n \<and> retentionCutoff h \<le> bst_Cutoff st1)"

definition prepared_at :: "blob_env \<Rightarrow> nat \<Rightarrow> BlobState \<Rightarrow> blob_view option \<Rightarrow> BlobSyncer \<Rightarrow> bool" where
  "prepared_at E c st Vo s \<longleftrightarrow> (\<exists>target st1 Vo1. prepared E c st Vo target st1 Vo1 (by_calls s) \<and> rep_at st1 Vo1 s)"

definition prepared_to :: "blob_env \<Rightarrow> nat \<Rightarrow> BlobState \<Rightarrow> blob_view option \<Rightarrow> u64 \<Rightarrow> BlobState \<Rightarrow> BlobSyncer \<Rightarrow> bool" where
  "prepared_to E c st Vo target st1 s \<longleftrightarrow> c \<le> by_calls s \<and> at_tip E c st1 target (by_calls s) \<and>
     (\<exists>Vo1. prepared E c st Vo target st1 Vo1 (by_calls s) \<and> rep_at st1 Vo1 s)"

lemma prepared_refl: "prepared E c st Vo target st Vo n"
  by (simp add: prepared_def)

lemma rising_prepared [rising_intros]:
  "rising (prepared E c st Vo target st1 Vo1)" "rising (at_tip E c st1 target)"
  unfolding rising_def prepared_def retained_def at_tip_def using answered_rise target_rise by blast+

lemma prepared_rise: "prepared E c st Vo target st1 Vo1 m \<Longrightarrow> m \<le> n \<Longrightarrow> prepared E c st Vo target st1 Vo1 n"
  using rising_prepared(1) risingD by blast

lemma triple_prepared:
  assumes "triple (at_call st Vo F) (at_call st Vo F) m Q"
  shows "triple (prepared_at E c st Vo) (at_call st Vo F) m Q"
proof (rule triple_conseq [OF assms])
  fix s assume "at_call st Vo F s"
  then show "prepared_at E c st Vo s" unfolding at_call_def prepared_at_def using prepared_refl by blast
qed

lemma triple_retain:
  assumes ok: "blob_others_ok E" and lt: "bst_Cutoff st < retentionCutoff h"
    and F: "rising F" "\<And>n. F n \<Longrightarrow> c \<le> n \<and> confirmed_target E c target n \<and> answered E c target h n"
  shows "triple (prepared_at E c st Vo) (at_call st Vo F) (retain E st target h) (prepared_to E c st Vo target)"
proof -
  let ?after = "st\<lparr>bst_Cutoff := retentionCutoff h, bst_RetentionHeight := Some target, bst_RetentionHash := bh_Hash h\<rparr>"
  have load: "triple (prepared_at E c st Vo) (\<lambda>s. \<exists>l Vo'. at_call (stored_state (?after\<lparr>bst_Latest := l, bst_Revision := bst_Revision st + 1\<rparr>)) Vo' F s \<and>
     st = st \<and> bst_Cutoff st \<le> bst_Cutoff ?after \<and> view_after (bst_Cutoff ?after) [] [] Vo Vo') loadBlobState
     (prepared_to E c st Vo target)"
  proof (rule triple_ex, rule triple_ex, rule triple_pure)
    fix l Vo'
    let ?st1 = "stored_state (?after\<lparr>bst_Latest := l, bst_Revision := bst_Revision st + 1\<rparr>)"
    assume a: "st = st \<and> bst_Cutoff st \<le> bst_Cutoff ?after \<and> view_after (bst_Cutoff ?after) [] [] Vo Vo'"
    have r: "retained E c st Vo target ?st1 Vo' n" if "F n" for n
      using lt a F(2) [OF that] unfolding retained_def by auto
    have t: "at_tip E c ?st1 target n" if "F n" for n
      using F(2) [OF that] unfolding at_tip_def by auto
    show "triple (prepared_at E c st Vo) (at_call ?st1 Vo' F) loadBlobState (prepared_to E c st Vo target)"
      by (rule triple_conseq [OF triple_load [OF F(1)]])
        (use r t F(2) in \<open>auto simp: prepared_at_def prepared_def at_call_def prepared_to_def\<close>)
  qed
  show ?thesis
    unfolding retain_def
    by (rule triple_bind [OF triple_prepared [OF triple_keepB_only [OF check_keeps [OF ok] F(1)]]],
        rule triple_bind [OF triple_prepared [OF triple_keepB_only [OF checkpoint_keeps [OF ok] F(1)]]],
        rule triple_bind [OF triple_prepared [OF triple_commitBlob] load])
qed

lemma triple_prepare:
  assumes ok: "blob_others_ok E"
  shows "triple (prepared_at E c st Vo) (at_call st Vo (\<lambda>n. c \<le> n)) (prepare E) (\<lambda>(st1, target). prepared_to E c st Vo target st1)"
  unfolding prepare_def
proof (rule triple_bind [OF triple_prepared [OF triple_load [OF rising_basic(1)]]], rule triple_pure)
  fix x assume "x = st"
  let ?F = "\<lambda>n. c \<le> n" let ?G = "\<lambda>target n. c \<le> n \<and> confirmed_target E c target n"
  let ?H = "\<lambda>target h n. (c \<le> n \<and> confirmed_target E c target n) \<and> answered E c target h n"
  have up: "rising (?G target)" "rising (?H target h)" for target h by (intro rising_intros)+
  have retain: "triple (prepared_at E c st Vo) (at_call st Vo (?H target h))
      (if bst_Cutoff st < retentionCutoff h then retain E st target h else ret st) (prepared_to E c st Vo target)" for target h
  proof (rule triple_if)
    assume "bst_Cutoff st < retentionCutoff h"
    from triple_retain [OF ok this up(2)]
    show "triple (prepared_at E c st Vo) (at_call st Vo (?H target h)) (retain E st target h) (prepared_to E c st Vo target)" by blast
  next
    assume "\<not> bst_Cutoff st < retentionCutoff h"
    then have "at_tip E c st target n" if "?H target h n" for n using that by (auto simp: at_tip_def not_less)
    then have "prepared_to E c st Vo target st s" if "at_call st Vo (?H target h) s" for s
      using that prepared_refl [of E c st Vo target] unfolding prepared_to_def at_call_def by blast
    then show "triple (prepared_at E c st Vo) (at_call st Vo (?H target h)) (ret st) (prepared_to E c st Vo target)"
      by (rule triple_ret)
  qed
  have tip: "triple (at_call st Vo ?F) (at_call st Vo ?F) (tipTarget E) (\<lambda>target. at_call st Vo (?G target))"
    by (rule triple_learns [OF tipTarget_keeps [OF ok] rising_basic(1)]) (rule tipTarget_Inr)
  have head: "triple (at_call st Vo (?G target)) (at_call st Vo (?G target)) (blobHead E target) (\<lambda>h. at_call st Vo (?H target h))" for target
    by (rule triple_learns [OF blobHead_keeps [OF ok] up(1)]) (rule blobHead_Inr, assumption, blast)
  show "triple (prepared_at E c st Vo) (at_call st Vo ?F) (bindM (checkpoint E x) (\<lambda>_.
     bindM (tipTarget E) (\<lambda>target.
     bindM (blobHead E target) (\<lambda>confirmed.
     bindM (setBlobReadyM (caughtUp x target)) (\<lambda>_.
     bindM (if bst_Cutoff x < retentionCutoff confirmed then retain E x target confirmed else ret x) (\<lambda>st.
       ret (st, target))))))) (\<lambda>(st1, target). prepared_to E c st Vo target st1)"
    unfolding \<open>x = st\<close>
    by (rule triple_bind [OF triple_prepared [OF triple_keepB_only [OF checkpoint_keeps [OF ok] rising_basic(1)]]],
        rule triple_bind [OF triple_prepared [OF tip]], rule triple_bind [OF triple_prepared [OF head]],
        rule triple_bind [OF triple_prepared [OF triple_keepB_only [OF memory_keeps(3) up(2)]]],
        rule triple_bind [OF retain], rule triple_ret, simp)
qed

section \<open>The window\<close>

lemma orderLog_fold:
  assumes "foldE orderLog xs (seen, out) = Inr (seen', out')"
  shows "\<exists>ys. out' = out @ ys \<and> set ys \<subseteq> set xs \<and> (sorted_wrt log_le xs \<longrightarrow> sorted_wrt log_le ys)"
  using assms
proof (induction xs arbitrary: seen out)
  case (Cons x xs)
  then obtain seen1 out1 where one: "orderLog x (seen, out) = Inr (seen1, out1)"
    and "foldE orderLog xs (seen1, out1) = Inr (seen', out')" by (auto simp: bindE_Inr)
  with Cons.IH obtain ys where ys: "out' = out1 @ ys" "set ys \<subseteq> set xs" "sorted_wrt log_le xs \<longrightarrow> sorted_wrt log_le ys" by blast
  from one consider "out1 = out" | "out1 = out @ [x]" by (auto simp: orderLog_def split: option.splits if_splits)
  then show ?case
  proof cases
    case 2
    with ys show ?thesis by (intro exI [of _ "x # ys"]) auto
  qed (use ys in auto)
qed simp

lemma orderedLogs_Inr:
  assumes "slice_sort srt" "orderedLogs srt logs = Inr out"
  shows "sorted_wrt log_le out \<and> set out \<subseteq> set logs"
proof -
  from assms(2) obtain seen where "foldE orderLog (srt logs) (Map.empty, []) = Inr (seen, out)"
    by (auto simp: orderedLogs_def bindE_Inr)
  from orderLog_fold [OF this] slice_sort.ordered [OF assms(1)] slice_sort.set_srt [OF assms(1)] show ?thesis by auto
qed

lemma mapE_all: "mapE f xs = Inr ys \<Longrightarrow> x \<in> set xs \<Longrightarrow> \<exists>y. f x = Inr y"
  by (induction xs arbitrary: ys) (auto simp: bindE_Inr)

definition in_range :: "u64 \<Rightarrow> u64 \<Rightarrow> Log \<Rightarrow> bool" where
  "in_range from end l \<longleftrightarrow> from \<le> lg_BlockNumber l \<and> lg_BlockNumber l \<le> end"

lemma validateAuthLog_Inr: "validateAuthLog l from end = Inr u \<Longrightarrow> in_range from end l \<and> lg_Topics l \<noteq> []"
  by (auto simp: validateAuthLog_def in_range_def split: if_splits)

lemma senderLogs_Inr:
  assumes "senderLogs E as from end s = (Inr logs, s')" "l \<in> set logs"
  shows "in_range from end l \<and> lg_Address l \<in> set as \<and> lg_Topics l \<noteq> [] \<and> hd (lg_Topics l) = ax_senderTopic (bx_auth E)"
proof -
  from assms(1) obtain us where "mapE (checkSenderLog E (set as) from end) logs = Inr us"
    by (auto simp: senderLogs_def bindM_Inr)
  from mapE_all [OF this assms(2)] show ?thesis
    by (auto simp: checkSenderLog_def bindE_Inr split: if_split_asm dest: validateAuthLog_Inr)
qed

lemma authChanges_Inr:
  assumes "authChanges E from end ls a s = (Inr a', s')" "l \<in> set ls"
  shows "in_range from end l \<and> lg_Topics l \<noteq> [] \<and> lg_Address l = c_AddressManager (bx_Config E)"
  using assms
proof (induction ls arbitrary: a s)
  case (Cons k ls)
  from Cons.prems(1) obtain a1 s1 where "authChange E from end k a s = (Inr a1, s1)"
    and "authChanges E from end ls a1 s1 = (Inr a', s')" by (auto simp: bindM_Inr)
  moreover from this(1) have "in_range from end k \<and> lg_Topics k \<noteq> [] \<and> lg_Address k = c_AddressManager (bx_Config E)"
    by (auto simp: authChange_def bindM_Inr split: if_split_asm dest: validateAuthLog_Inr)
  ultimately show ?case using Cons.IH Cons.prems(2) by auto
qed simp

lemma authLogs_Inr:
  assumes "slice_sort (bx_sort E)" "authLogs E a from end s = (Inr (logs, a'), s')"
  shows "sorted_wrt log_le logs \<and> (\<forall>l \<in> set logs. in_range from end l)"
proof -
  from assms(2) obtain changes s1 s2 all where ch: "authChanges E from end changes a s1 = (Inr a', s2)"
    and more: "(if au_Known a' = [] then ret changes
            else bindM (senderLogs E (map fst (au_Known a')) from end) (\<lambda>logs. ret (changes @ logs))) s2 = (Inr all, s')"
    and ord: "orderedLogs (bx_sort E) all = Inr logs"
    by (auto simp: authLogs_def bindM_Inr)
  have "\<forall>l \<in> set all. in_range from end l"
    using more authChanges_Inr [OF ch] by (auto simp: bindM_Inr split: if_split_asm dest: senderLogs_Inr)
  with orderedLogs_Inr [OF assms(1) ord] show ?thesis by auto
qed

text \<open>The range of a window.\<close>

lemma window_range:
  assumes "\<not> caughtUp st target" "\<not> target < c_InboxStart (bx_Config E)" "c_BatchSize (bx_Config E) \<noteq> 0"
  defines "from \<equiv> windowStart E st"
  shows "unat from = (case bst_Height st of None \<Rightarrow> unat (c_InboxStart (bx_Config E)) | Some h \<Rightarrow> Suc (unat h)) \<and>
    from \<le> windowEnd E from target \<and> windowEnd E from target \<le> target \<and>
    unat (windowEnd E from target) - unat from < unat (c_BatchSize (bx_Config E))"
proof -
  have f: "from \<le> target \<and> unat from = (case bst_Height st of None \<Rightarrow> unat (c_InboxStart (bx_Config E)) | Some h \<Rightarrow> Suc (unat h))"
  proof (cases "bst_Height st")
    case (Some h)
    then have lt: "h < target" using assms(1) by (simp add: caughtUp_def)
    then show ?thesis using Some unat_suc [OF lt]
      by (simp add: from_def windowStart_def word_le_nat_alt word_less_nat_alt)
  qed (use assms(2) in \<open>simp add: from_def windowStart_def\<close>)
  then show ?thesis using batch_end [OF _ assms(3), of "from" target] unfolding windowEnd_def by blast
qed

text \<open>
  What the commit of a window means for the checkpoint \<open>st\<close>: its bounds, the header at its
  end, the authorization of the checkpoint, the logs of the window, and the records that the scan
  of the window returned, all of them learnt in this step.
\<close>

definition window_to :: "blob_env \<Rightarrow> nat \<Rightarrow> BlobState \<Rightarrow> blob_view option \<Rightarrow> u64 \<Rightarrow> bool \<Rightarrow> BlobState \<Rightarrow> blob_view option \<Rightarrow> nat \<Rightarrow> bool" where
  "window_to E c st Vo target caught st' Vo' n \<longleftrightarrow> (\<exists>from end h a1 logs a0 txs chs a l.
     unat from = (case bst_Height st of None \<Rightarrow> unat (c_InboxStart (bx_Config E)) | Some h \<Rightarrow> Suc (unat h)) \<and>
     from \<le> end \<and> end \<le> target \<and> unat end - unat from < unat (c_BatchSize (bx_Config E)) \<and> caught = (end = target) \<and>
     answered E c end h n \<and> ran_at c st Vo (initialize E st) (Some a1) n \<and>
     ran_at c st Vo (authLogs E a1 from end) (logs, a0) n \<and>
     ran_at c st Vo (scan E a0 logs from end (bst_Cutoff st)) (txs, chs, a) n \<and>
     applyLogs E logs a0 = Inr a \<and> (\<forall>ch \<in> set chs. \<exists>h. from \<le> h \<and> h \<le> end \<and> scanned E (bst_Cutoff st) a0 logs h ch) \<and>
     view_after (bst_Cutoff st) txs chs Vo Vo' \<and>
     st' = st\<lparr>bst_Height := Some end, bst_Hash := bh_Hash h, bst_Auth := marshalAuth a, bst_Latest := l, bst_Revision := bst_Revision st + 1\<rparr>)"

definition window_done :: "blob_env \<Rightarrow> nat \<Rightarrow> BlobState \<Rightarrow> blob_view option \<Rightarrow> u64 \<Rightarrow> bool \<Rightarrow> BlobSyncer \<Rightarrow> bool" where
  "window_done E c st Vo target caught s \<longleftrightarrow> (\<exists>st' Vo'. window_to E c st Vo target caught st' Vo' (by_calls s) \<and> rep_at st' Vo' s)"

lemma ran_rise: "ran_at c st Vo m x i \<Longrightarrow> i \<le> n \<Longrightarrow> ran_at c st Vo m x n"
  by (rule risingD [OF rising_facts(3)])

lemma rising_window_to [rising_intros]: "rising (\<lambda>n. window_to E c st Vo target caught st' Vo' n)"
  unfolding window_to_def by (intro rising_intros)

lemma window_done_modify:
  assumes "preserves keepB (modifyM f)"
  shows "triple F (window_done E c st Vo target caught) (modifyM f) (\<lambda>_. window_done E c st Vo target caught)"
proof -
  have "window_done E c st Vo target caught (f s)" if "window_done E c st Vo target caught s" for s
    using that keepBD [OF assms] keepB_calls [OF assms] risingD [OF rising_window_to] unfolding window_done_def
    by (metis modifyM_apply)
  then show ?thesis by (simp add: triple_def)
qed

lemma stored_marshal:
  "stored_state (st\<lparr>bst_Height := h, bst_Hash := x, bst_Auth := marshalAuth a, bst_Latest := l, bst_Revision := n\<rparr>) =
    st\<lparr>bst_Height := h, bst_Hash := x, bst_Auth := marshalAuth a, bst_Latest := l, bst_Revision := n\<rparr>"
  by (simp add: stored_state_def marshalAuth_def)

text \<open>A window between the checkpoint and the target, with its anchor and its logs.\<close>

definition window_of :: "blob_env \<Rightarrow> nat \<Rightarrow> BlobState \<Rightarrow> blob_view option \<Rightarrow> u64 \<Rightarrow> u64 \<Rightarrow> u64 \<Rightarrow> blobHeader \<Rightarrow> Log list \<times> authorization \<Rightarrow> nat \<Rightarrow> bool" where
  "window_of E c st Vo from end target anchor found n \<longleftrightarrow> c \<le> n \<and>
     unat from = (case bst_Height st of None \<Rightarrow> unat (c_InboxStart (bx_Config E)) | Some h \<Rightarrow> Suc (unat h)) \<and>
     from \<le> end \<and> end \<le> target \<and> unat end - unat from < unat (c_BatchSize (bx_Config E)) \<and>
     answered E c end anchor n \<and>
     (\<exists>a1. ran_at c st Vo (initialize E st) (Some a1) n \<and> ran_at c st Vo (authLogs E a1 from end) found n)"

lemma rising_window_of [rising_intros]: "rising (\<lambda>n. window_of E c st Vo from end target anchor found n)"
  unfolding window_of_def by (intro rising_intros)

text \<open>What the scan of the window returned.\<close>

definition scan_facts :: "blob_env \<Rightarrow> nat \<Rightarrow> BlobState \<Rightarrow> blob_view option \<Rightarrow> u64 \<Rightarrow> u64 \<Rightarrow> Log list \<times> authorization \<Rightarrow>
    BlobTransaction list \<times> BlobChannel list \<times> authorization \<Rightarrow> nat \<Rightarrow> bool" where
  "scan_facts E c st Vo from end found x n \<longleftrightarrow> (case found of (logs, a0) \<Rightarrow> (case x of (txs, chs, a) \<Rightarrow> applyLogs E logs a0 = Inr a \<and>
     ran_at c st Vo (scan E a0 logs from end (bst_Cutoff st)) x n \<and>
     (\<forall>ch \<in> set chs. \<exists>h. from \<le> h \<and> h \<le> end \<and> scanned E (bst_Cutoff st) a0 logs h ch)))"

lemma rising_scan_facts [rising_intros]: "rising (scan_facts E c st Vo from end found x)"
  unfolding rising_def scan_facts_def using ran_rise by (auto split: prod.splits)

lemma triple_commit_window:
  assumes "\<And>n. F n \<Longrightarrow> window_of E c st Vo from end target anchor found n \<and> scan_facts E c st Vo from end found (txs, chs, a) n"
  shows "triple (at_call st Vo F) (at_call st Vo F)
    (commitBlob E st (st\<lparr>bst_Height := Some end, bst_Hash := bh_Hash anchor, bst_Auth := marshalAuth a\<rparr>) txs chs)
    (\<lambda>_. window_done E c st Vo target (end = target))"
  using triple_commitBlob
proof (rule triple_weaken)
  let ?after = "st\<lparr>bst_Height := Some end, bst_Hash := bh_Hash anchor, bst_Auth := marshalAuth a\<rparr>"
  fix u s
  assume "\<exists>l Vo'. at_call (stored_state (?after\<lparr>bst_Latest := l, bst_Revision := bst_Revision st + 1\<rparr>)) Vo' F s \<and> st = st \<and>
    bst_Cutoff st \<le> bst_Cutoff ?after \<and> view_after (bst_Cutoff ?after) txs chs Vo Vo'"
  then obtain l Vo' where rep: "rep_at (?after\<lparr>bst_Latest := l, bst_Revision := bst_Revision st + 1\<rparr>) Vo' s"
    and F: "F (by_calls s)" and view: "view_after (bst_Cutoff st) txs chs Vo Vo'"
    by (auto simp: stored_marshal at_call_def)
  obtain logs a0 where f: "found = (logs, a0)" by (cases found)
  have "window_to E c st Vo target (end = target) (?after\<lparr>bst_Latest := l, bst_Revision := bst_Revision st + 1\<rparr>) Vo' (by_calls s)"
    using assms [OF F] view f unfolding window_to_def window_of_def scan_facts_def by (simp add: Let_def) blast
  with rep show "window_done E c st Vo target (end = target) s" unfolding window_done_def by blast
qed

lemma triple_scan:
  assumes ok: "blob_others_ok E" "slice_sort (bx_sort E)"
  shows "triple (at_call st Vo (window_of E c st Vo from end target anchor (logs, a0)))
    (at_call st Vo (window_of E c st Vo from end target anchor (logs, a0))) (scan E a0 logs from end (bst_Cutoff st))
    (\<lambda>x. at_call st Vo (\<lambda>n. window_of E c st Vo from end target anchor (logs, a0) n \<and> scan_facts E c st Vo from end (logs, a0) x n))"
proof (rule triple_learns [OF scan_keeps [OF ok(1)] rising_window_of])
  fix s x s' assume rep: "rep_at st Vo s" and win: "window_of E c st Vo from end target anchor (logs, a0) (by_calls s)"
    and run: "scan E a0 logs from end (bst_Cutoff st) s = (Inr x, s')"
  obtain txs chs a where x: "x = (txs, chs, a)" by (cases x)
  from win obtain a1 s1 s2 where "authLogs E a1 from end s1 = (Inr (logs, a0), s2)" "from \<le> end" "c \<le> by_calls s"
    by (auto simp: window_of_def ran_at_def)
  moreover from rep run \<open>c \<le> by_calls s\<close> have "ran_at c st Vo (scan E a0 logs from end (bst_Cutoff st)) x (by_calls s')"
    unfolding ran_at_def by blast
  ultimately show "scan_facts E c st Vo from end (logs, a0) x (by_calls s')"
    using authLogs_Inr [OF ok(2)] scan_sound [of E a0 logs "from" "end" "bst_Cutoff st" s txs chs a s'] run x
    by (auto simp: scan_facts_def in_range_def)
qed

lemma triple_at_call:
  "triple (at_call st Vo F) P m Q \<Longrightarrow> triple (rep_at st Vo) P m Q"
  by (rule triple_conseq [where F = "at_call st Vo F" and P = P and Q = Q]) (auto simp: at_call_def)

lemma triple_scanAndCommitBlob:
  assumes ok: "blob_others_ok E" "slice_sort (bx_sort E)"
  shows "triple (rep_at st Vo) (at_call st Vo (window_of E c st Vo from end target anchor found))
    (scanAndCommitBlob E st from end target anchor found) (window_done E c st Vo target)"
proof -
  obtain logs a0 where f: "found = (logs, a0)" by (cases found)
  let ?G = "\<lambda>x n. window_of E c st Vo from end target anchor (logs, a0) n \<and> scan_facts E c st Vo from end (logs, a0) x n"
  have up: "rising (?G x)" for x by (intro rising_intros)
  note keep = triple_bind [OF triple_at_call [OF triple_keepB_only [OF _ up]]]
  note mem = memory_keeps [unfolded setBackfills_def setBlobBootstrap_def setBlobReadyM_def]
  have tail: "triple (rep_at st Vo) (at_call st Vo (?G (txs, chs, a))) (bindM (check E end (bh_Hash anchor)) (\<lambda>_. bindM (checkpoint E st) (\<lambda>_.
      bindM (checkBlobBootstrap E st) (\<lambda>_.
      bindM (commitBlob E st (st\<lparr>bst_Height := Some end, bst_Hash := bh_Hash anchor, bst_Auth := marshalAuth a\<rparr>) txs chs) (\<lambda>_.
      bindM (setBlobBootstrap None) (\<lambda>_. bindM (setBackfills []) (\<lambda>_. bindM (setBlobReadyM (end = target)) (\<lambda>_. ret (end = target)))))))))
    (window_done E c st Vo target)" for txs chs a
    unfolding setBackfills_def setBlobBootstrap_def setBlobReadyM_def
    by (rule keep [OF check_keeps [OF ok(1)]], rule keep [OF checkpoint_keeps [OF ok(1)]], rule keep [OF checkBlobBootstrap_keeps [OF ok(1)]],
        rule triple_bind [OF triple_at_call [OF triple_commit_window]], assumption,
        rule triple_bind [OF window_done_modify [OF mem(2)]],
        rule triple_bind [OF window_done_modify [OF mem(1)]], rule triple_bind [OF window_done_modify [OF mem(3)]], rule triple_ret)
  show ?thesis
    unfolding scanAndCommitBlob_def f prod.case
  proof (rule triple_bind [OF triple_at_call [OF triple_scan [OF ok]]])
    fix x
    show "triple (rep_at st Vo) (at_call st Vo (?G x)) (case x of (txs, channels, a) \<Rightarrow> bindM (check E end (bh_Hash anchor)) (\<lambda>_. bindM (checkpoint E st) (\<lambda>_.
      bindM (checkBlobBootstrap E st) (\<lambda>_.
      bindM (commitBlob E st (st\<lparr>bst_Height := Some end, bst_Hash := bh_Hash anchor, bst_Auth := marshalAuth a\<rparr>) txs channels) (\<lambda>_.
      bindM (setBlobBootstrap None) (\<lambda>_. bindM (setBackfills []) (\<lambda>_. bindM (setBlobReadyM (end = target)) (\<lambda>_. ret (end = target))))))))) (window_done E c st Vo target)"
      using tail by (cases x) simp
  qed
qed

text \<open>What \<open>orPending\<close> returns is a result of its argument.\<close>

lemma orPending_Inr: "orPending m s = (Inr (Some x), s') \<Longrightarrow> m s = (Inr x, s')"
  by (auto simp: orPending_def split: prod.split_asm sum.split_asm if_split_asm)

lemma ran_orPending: "ran_at c st Vo (orPending m) (Some x) n \<Longrightarrow> ran_at c st Vo m x n"
proof -
  assume "ran_at c st Vo (orPending m) (Some x) n"
  then obtain t t' where t: "c \<le> by_calls t" "by_calls t' \<le> n" "rep_at st Vo t" and run: "orPending m t = (Inr (Some x), t')"
    unfolding ran_at_def by blast
  from t orPending_Inr [OF run] show ?thesis unfolding ran_at_def by (intro exI [of _ t] exI [of _ t'] conjI)
qed

text \<open>A return without a commit: only at the target, or to come back for another page.\<close>

definition no_window :: "blob_env \<Rightarrow> BlobState \<Rightarrow> u64 \<Rightarrow> bool \<Rightarrow> bool" where
  "no_window E st target caught \<longleftrightarrow> (caught \<longrightarrow> caughtUp st target \<or> target < c_InboxStart (bx_Config E))"

definition window_maybe :: "blob_env \<Rightarrow> nat \<Rightarrow> BlobState \<Rightarrow> blob_view option \<Rightarrow> u64 \<Rightarrow> bool \<Rightarrow> BlobSyncer \<Rightarrow> bool" where
  "window_maybe E c st Vo target caught s \<longleftrightarrow> rep_at st Vo s \<and> no_window E st target caught \<or> window_done E c st Vo target caught s"

lemma triple_scanWindowBlob:
  assumes ok: "blob_others_ok E" "slice_sort (bx_sort E)" "c_BatchSize (bx_Config E) \<noteq> 0"
    and range: "\<not> caughtUp st target" "\<not> target < c_InboxStart (bx_Config E)"
  shows "triple (rep_at st Vo) (at_call st Vo (\<lambda>n. c \<le> n \<and> ran_at c st Vo (initialize E st) (Some a) n))
    (scanWindowBlob E st target a) (window_maybe E c st Vo target)"
proof -
  let ?from = "windowStart E st" let ?upto = "windowEnd E ?from target"
  let ?F = "\<lambda>n. c \<le> n \<and> ran_at c st Vo (initialize E st) (Some a) n"
  let ?G = "\<lambda>anchor n. ?F n \<and> answered E c ?upto anchor n"
  have up: "rising ?F" "rising (?G anchor)" for anchor by (intro rising_intros)+
  have head: "triple (at_call st Vo ?F) (at_call st Vo ?F) (blobHead E ?upto) (\<lambda>anchor. at_call st Vo (?G anchor))"
    by (rule triple_learns [OF blobHead_keeps [OF ok(1)] up(1)]) (rule blobHead_Inr, assumption, blast)
  have logs: "triple (at_call st Vo (?G anchor)) (at_call st Vo (?G anchor)) (orPending (authLogs E a ?from ?upto))
      (\<lambda>found. at_call st Vo (\<lambda>n. ?G anchor n \<and> ran_at c st Vo (orPending (authLogs E a ?from ?upto)) found n))" for anchor
    by (rule triple_ran [OF orPending_keeps [OF authLogs_keeps [OF ok(1)]] up(2)]) blast
  have rest: "triple (rep_at st Vo) (at_call st Vo (\<lambda>n. ?G anchor n \<and> ran_at c st Vo (orPending (authLogs E a ?from ?upto)) found n))
      (case found of None \<Rightarrow> ret False
        | Some found \<Rightarrow> scanAndCommitBlob E st ?from ?upto target anchor found) (window_maybe E c st Vo target)" for anchor found
  proof (cases found)
    case None
    then show ?thesis by (auto simp: window_maybe_def no_window_def at_call_def intro: triple_ret)
  next
    case (Some x)
    have "window_of E c st Vo ?from ?upto target anchor x n" if "?G anchor n" "ran_at c st Vo (orPending (authLogs E a ?from ?upto)) (Some x) n" for n
      using window_range [OF range ok(3)] that(1) ran_orPending [OF that(2)] unfolding window_of_def by blast
    then have "triple (rep_at st Vo) (at_call st Vo (\<lambda>n. ?G anchor n \<and> ran_at c st Vo (orPending (authLogs E a ?from ?upto)) (Some x) n))
        (scanAndCommitBlob E st ?from ?upto target anchor x) (window_maybe E c st Vo target)"
      by (intro triple_conseq [OF triple_scanAndCommitBlob [OF ok(1,2), of st Vo c ?from ?upto target anchor x]])
        (simp_all add: at_call_def window_maybe_def)
    then show ?thesis by (simp add: Some)
  qed
  show ?thesis
    unfolding scanWindowBlob_def Let_def
    by (rule triple_bind [OF triple_at_call [OF head]], rule triple_bind [OF triple_at_call [OF logs] rest])
qed

section \<open>The step\<close>

text \<open>
  What a step can do: prepare, and then nothing more or commit one window.  \<open>c\<close> and
  \<open>n\<close> are the numbers of the first call of the step and of the first call after it.
\<close>

definition blob_outcome :: "blob_env \<Rightarrow> nat \<Rightarrow> BlobState \<Rightarrow> blob_view option \<Rightarrow> bool result \<Rightarrow> BlobState \<Rightarrow> blob_view option \<Rightarrow> nat \<Rightarrow> bool" where
  "blob_outcome E c st Vo r st' Vo' n \<longleftrightarrow> (\<exists>target st1 Vo1. prepared E c st Vo target st1 Vo1 n \<and>
     (case r of Inl e \<Rightarrow> st' = st1 \<and> Vo' = Vo1
      | Inr caught \<Rightarrow> at_tip E c st1 target n \<and>
          (st' = st1 \<and> Vo' = Vo1 \<and> no_window E st1 target caught \<or> window_to E c st1 Vo1 target caught st' Vo' n)))"

lemma triple_rest:
  assumes ok: "blob_others_ok E" "slice_sort (bx_sort E)" "c_BatchSize (bx_Config E) \<noteq> 0"
  shows "triple (rep_at st Vo) (at_call st Vo (\<lambda>n. c \<le> n)) (if caughtUp st target \<or> target < c_InboxStart (bx_Config E)
       then bindM (setBlobReadyM True) (\<lambda>_. ret True)
       else bindM (orPending (initialize E st)) (\<lambda>found. case Option.bind found id of
           None \<Rightarrow> ret False
         | Some a \<Rightarrow> scanWindowBlob E st target a)) (window_maybe E c st Vo target)"
proof (rule triple_if)
  let ?F = "\<lambda>n. c \<le> n"
  assume "caughtUp st target \<or> target < c_InboxStart (bx_Config E)"
  then show "triple (rep_at st Vo) (at_call st Vo ?F) (bindM (setBlobReadyM True) (\<lambda>_. ret True)) (window_maybe E c st Vo target)"
    by (intro triple_bind [OF triple_at_call [OF triple_keepB_only [OF memory_keeps(3) rising_basic(1)]]] triple_ret)
      (simp add: window_maybe_def no_window_def at_call_def)
next
  let ?F = "\<lambda>n. c \<le> n"
  assume range: "\<not> (caughtUp st target \<or> target < c_InboxStart (bx_Config E))"
  have init: "triple (at_call st Vo ?F) (at_call st Vo ?F) (orPending (initialize E st))
      (\<lambda>found. at_call st Vo (\<lambda>n. ?F n \<and> ran_at c st Vo (orPending (initialize E st)) found n))"
    by (rule triple_ran [OF orPending_keeps [OF initialize_keeps [OF ok(1)]] rising_basic(1)])
  show "triple (rep_at st Vo) (at_call st Vo ?F) (bindM (orPending (initialize E st)) (\<lambda>found. case Option.bind found id of
           None \<Rightarrow> ret False
         | Some a \<Rightarrow> scanWindowBlob E st target a)) (window_maybe E c st Vo target)"
  proof (rule triple_bind [OF triple_at_call [OF init]])
    fix found
    show "triple (rep_at st Vo) (at_call st Vo (\<lambda>n. ?F n \<and> ran_at c st Vo (orPending (initialize E st)) found n))
      (case Option.bind found id of None \<Rightarrow> ret False | Some a \<Rightarrow> scanWindowBlob E st target a) (window_maybe E c st Vo target)"
    proof (cases "Option.bind found id")
      case None
      then show ?thesis by (auto simp: window_maybe_def no_window_def at_call_def intro: triple_ret)
    next
      case (Some a)
      then have f: "found = Some (Some a)" by (auto simp: bind_eq_Some_conv)
      have "triple (rep_at st Vo) (at_call st Vo (\<lambda>n. ?F n \<and> ran_at c st Vo (orPending (initialize E st)) (Some (Some a)) n))
          (scanWindowBlob E st target a) (window_maybe E c st Vo target)"
        by (rule triple_conseq [OF triple_scanWindowBlob [OF ok, of st target Vo c a]])
          (use range ran_orPending in \<open>auto simp: at_call_def\<close>)
      then show ?thesis by (simp add: f)
    qed
  qed
qed

lemma BlobStep_sound:
  assumes ok: "blob_others_ok E" "slice_sort (bx_sort E)" "c_BatchSize (bx_Config E) \<noteq> 0"
    and inv: "rep_at st Vo s" and run: "BlobStep E s = (r, s')"
  shows "\<exists>st' Vo'. blob_outcome E (by_calls s) st Vo r st' Vo' (by_calls s') \<and> rep_at st' Vo' s'"
proof (cases "snd (Snapshot (by_Status s))")
  case (Some e)
  with run inv have "r = Inl e" "s' = s" by (simp_all add: BlobStep_def bindM_def)
  with inv show ?thesis
    unfolding blob_outcome_def by (intro exI [of _ st] exI [of _ Vo]) (auto intro: prepared_refl)
next
  case None
  let ?c = "by_calls s"
  have at: "at_call st Vo (\<lambda>n. ?c \<le> n) s" using inv by (simp add: at_call_def)
  obtain p s1 where prep: "prepare E s = (p, s1)" by force
  show ?thesis
  proof (cases p)
    case (Inl e)
    with prep tripleD(1) [OF triple_prepare [OF ok(1)] at] have "prepared_at E ?c st Vo s1" by blast
    moreover from None run prep Inl have "s' = s1" "r = Inl e" by (simp_all add: BlobStep_def bindM_def)
    ultimately show ?thesis by (auto simp: prepared_at_def blob_outcome_def)
  next
    case (Inr x)
    obtain st1 target where x: "x = (st1, target)" by (cases x)
    with prep Inr tripleD(2) [OF triple_prepare [OF ok(1)] at, of x s1] obtain Vo1 where
      p1: "prepared E ?c st Vo target st1 Vo1 (by_calls s1)" and rep: "at_call st1 Vo1 (\<lambda>n. ?c \<le> n) s1"
      and tip: "at_tip E ?c st1 target (by_calls s1)" by (auto simp: prepared_to_def at_call_def)
    from None run prep Inr x have rest: "(if caughtUp st1 target \<or> target < c_InboxStart (bx_Config E)
       then bindM (setBlobReadyM True) (\<lambda>_. ret True)
       else bindM (orPending (initialize E st1)) (\<lambda>found. case Option.bind found id of
           None \<Rightarrow> ret False
         | Some a \<Rightarrow> scanWindowBlob E st1 target a)) s1 = (r, s')"
      by (simp add: BlobStep_def bindM_def)
    have "preserves (\<lambda>s t. by_calls s \<le> by_calls t) (if caughtUp st1 target \<or> target < c_InboxStart (bx_Config E)
       then bindM (setBlobReadyM True) (\<lambda>_. ret True)
       else bindM (orPending (initialize E st1)) (\<lambda>found. case Option.bind found id of
           None \<Rightarrow> ret False
         | Some a \<Rightarrow> scanWindowBlob E st1 target a))"
      by (intro bc.parts bc.orPending_part bc.initialize_part bc.scanWindowBlob_part)
    with rest have le: "by_calls s1 \<le> by_calls s'" unfolding preserves_def by (metis snd_conv)
    note p2 = prepared_rise [OF p1 le] and tip2 = risingD [OF rising_prepared(2) tip le]
    note step = tripleD [OF triple_rest [OF ok] rep]
    show ?thesis
    proof (cases r)
      case (Inl e)
      from step(1) [OF rest [unfolded Inl]] p2 Inl show ?thesis unfolding blob_outcome_def by auto
    next
      case (Inr caught)
      from step(2) [OF rest [unfolded Inr]] obtain st' Vo' where "rep_at st' Vo' s'"
        "st' = st1 \<and> Vo' = Vo1 \<and> no_window E st1 target caught \<or> window_to E ?c st1 Vo1 target caught st' Vo' (by_calls s')"
        unfolding window_maybe_def window_done_def by blast
      moreover from this(2) p2 tip2 Inr have "blob_outcome E ?c st Vo r st' Vo' (by_calls s')"
        unfolding blob_outcome_def by (intro exI [of _ target] exI [of _ st1] exI [of _ Vo1]) simp
      ultimately show ?thesis by blast
    qed
  qed
qed

section \<open>Runs\<close>

text \<open>Neither the checkpoint nor the cutoff moves back.\<close>

definition forward :: "BlobState \<Rightarrow> BlobState \<Rightarrow> bool" where
  "forward st st' \<longleftrightarrow> height_le (bst_Height st) (bst_Height st') \<and> bst_Cutoff st \<le> bst_Cutoff st' \<and>
     (bst_Height st' = bst_Height st \<longrightarrow> bst_Hash st' = bst_Hash st)"

lemma stored_state_height [simp]: "bst_Height (stored_state st) = bst_Height st" "bst_Hash (stored_state st) = bst_Hash st"
  by (simp_all add: stored_state_def)

lemma height_le_refl [simp]: "height_le h h"
  by (simp add: height_le_def)

lemma forward_refl: "forward st st"
  by (simp add: forward_def)

lemma forward_trans:
  assumes "forward a b" "forward b c"
  shows "forward a c"
proof -
  have "height_le (bst_Height a) (bst_Height c)"
    using assms by (cases "bst_Height a") (auto simp: forward_def height_le_def intro: order_trans)
  moreover have "bst_Hash c = bst_Hash a" if eq: "bst_Height c = bst_Height a"
  proof -
    have "bst_Height b = bst_Height a"
      using assms eq by (cases "bst_Height a"; cases "bst_Height b") (auto simp: forward_def height_le_def)
    with assms eq show ?thesis by (simp add: forward_def)
  qed
  ultimately show ?thesis using assms by (auto simp: forward_def intro: order_trans)
qed

lemma prepared_forward: "prepared E c st Vo target st1 Vo1 n \<Longrightarrow> forward st st1"
  by (auto simp: prepared_def retained_def forward_def)

lemma window_forward:
  assumes "window_to E c st Vo target caught st' Vo' n"
  shows "forward st st'"
proof -
  from assms obtain f e hash a l where
    f: "unat f = (case bst_Height st of None \<Rightarrow> unat (c_InboxStart (bx_Config E)) | Some h \<Rightarrow> Suc (unat h))" "f \<le> e"
    and st': "st' = st\<lparr>bst_Height := Some e, bst_Hash := hash, bst_Auth := marshalAuth a, bst_Latest := l, bst_Revision := bst_Revision st + 1\<rparr>"
    unfolding window_to_def by blast
  have "h < e" if "bst_Height st = Some h" for h
    using f that by (simp add: word_less_nat_alt word_le_nat_alt)
  note gt = this
  from gt [of e] have "bst_Height st \<noteq> Some e" by auto
  with gt st' show ?thesis by (auto simp: forward_def height_le_def less_imp_le)
qed

text \<open>A step moves its checkpoint by a preparation and then possibly by a window.\<close>

lemma outcome_cases:
  assumes "blob_outcome E c st Vo r st' Vo' n"
  obtains target st1 Vo1 where "prepared E c st Vo target st1 Vo1 n"
    "st' = st1 \<or> (\<exists>caught. window_to E c st1 Vo1 target caught st' Vo' n)"
  using assms unfolding blob_outcome_def by (cases r) auto

lemma outcome_forward:
  assumes "blob_outcome E c st Vo r st' Vo' n"
  shows "forward st st'"
proof (rule outcome_cases [OF assms])
  fix target st1 Vo1
  assume "prepared E c st Vo target st1 Vo1 n" and w: "st' = st1 \<or> (\<exists>caught. window_to E c st1 Vo1 target caught st' Vo' n)"
  then have "forward st st1" by (simp add: prepared_forward)
  moreover from w have "forward st1 st'" using window_forward forward_refl by blast
  ultimately show ?thesis by (rule forward_trans)
qed

lemma setFatalM_keeps: "preserves keepB (setFatalM e)"
  unfolding preserves_def keepB_def
proof (intro allI conjI impI)
  fix s show "by_calls s \<le> by_calls (snd (setFatalM e s))"
    by (simp add: setFatalM_def split: option.split)
next
  fix s st Vo assume "rep_at st Vo s"
  with status_inv_set [of "by_Status s" False "Some e"] show "rep_at st Vo (snd (setFatalM e s))"
    by (auto simp: setFatalM_def rep_at_def)
qed

text \<open>What every outcome of a step keeps of the checkpoint holds over every run.\<close>

lemma blobRunOnce_keeps:
  assumes ok: "blob_others_ok E" "slice_sort (bx_sort E)" "c_BatchSize (bx_Config E) \<noteq> 0"
    and step: "\<forall>c st Vo r st' Vo' n. P st \<and> blob_outcome E c st Vo r st' Vo' n \<longrightarrow> P st'"
    and inv: "rep_at st Vo s" "P st" and run: "blobRunOnce E s = (n, t)"
  shows "\<exists>st' Vo'. rep_at st' Vo' t \<and> P st'"
proof -
  obtain r s1 where one: "BlobStep E s = (r, s1)" by force
  from BlobStep_sound [OF ok inv(1) one] step inv(2) obtain st' Vo' where rep: "rep_at st' Vo' s1" and "P st'" by blast
  moreover have "rep_at st' Vo' (snd (setBlobReadyM False s1))"
    using keepBD [OF memory_keeps(3) rep] by (metis prod.collapse)
  moreover from this have "rep_at st' Vo' (snd (setFatalM e (snd (setBlobReadyM False s1))))" for e
    using keepBD [OF setFatalM_keeps] by (metis prod.collapse)
  ultimately show ?thesis
    using run one by (auto simp: blobRunOnce_def Let_def split: sum.splits if_splits)
qed

lemma BlobRun_keeps:
  assumes "BlobRun E s b t" and ok: "blob_others_ok E" "slice_sort (bx_sort E)" "c_BatchSize (bx_Config E) \<noteq> 0"
    and step: "\<forall>c st Vo r st' Vo' n. P st \<and> blob_outcome E c st Vo r st' Vo' n \<longrightarrow> P st'" and "rep_at st Vo s" "P st"
  shows "\<exists>st' Vo'. rep_at st' Vo' t \<and> P st'"
  using assms(1,6,7)
proof (induction rule: BlobRun.induct)
  case (start s)
  then show ?case by blast
next
  case (go s t n u)
  then obtain st1 Vo1 where "rep_at st1 Vo1 t" "P st1" by blast
  from blobRunOnce_keeps [where P = P, OF ok step this go.hyps(3)] show ?case by blast
qed

section \<open>The stored authorization\<close>

lemma initialize_valid:
  assumes "initialize E st s = (Inr (Some a), s')"
  shows "auth_valid a"
proof -
  from assms consider "storedAuth st = Inr a" | "a = newAuthorization" | b where "cloneAuth b = Inr a"
    by (auto simp: initialize_def Let_def bindM_Inr split: if_split_asm)
  then show ?thesis
  proof cases
    case 1
    then show ?thesis by (auto simp: storedAuth_def split: if_split_asm intro: decodeAuth_valid)
  next
    case 2
    then show ?thesis by (simp add: auth_valid_new)
  next
    case 3
    then show ?thesis by (simp add: cloneAuth_Inr)
  qed
qed

lemma managers_iff: "k \<in> managers a \<longleftrightarrow> dget (au_Known a) k \<noteq> None"
  using dget_in_keys [of "au_Known a" k] by (simp add: managers_def)

lemma backfillManager_valid:
  assumes "backfillManager E address before a s = (Inr a', s')" "auth_valid a" "address \<noteq> 0"
  shows "auth_valid a' \<and> managers a' = insert address (managers a)"
proof (cases "before = 0")
  case True
  with assms have "a' = ensure address a" by (simp add: backfillManager_def)
  moreover have "managers (ensure address a) = insert address (managers a)"
    by (auto simp: ensure_def managers_put managers_iff)
  ultimately show ?thesis using auth_valid_ensure [OF assms(2,3)] by simp
next
  case False
  with assms(1) obtain b copy t where c: "cloneAuth b = Inr copy" "dget (au_Known copy) address = Some t"
    and a': "a' = a\<lparr>au_Known := dput address t (au_Known a)\<rparr>"
    unfolding backfillManager_def by (auto simp: bindM_Inr split: if_split_asm option.split_asm)
  from c have "\<not> zeroSender t" using map_of_SomeD [OF c(2)] by (force simp: cloneAuth_Inr auth_valid_def)
  with a' assms show ?thesis by (simp add: auth_valid_put managers_put)
qed

lemma authChange_valid:
  assumes "authChange E from end l a s = (Inr a', s')" "auth_valid a"
  shows "auth_valid a' \<and> managers a \<subseteq> managers a' \<and> known_change (bx_auth E) m (managers a') l"
proof -
  from assms(1) have ok: "validateAuthLog l from end = Inr ()" "lg_Address l = c_AddressManager (bx_Config E)"
    by (auto simp: authChange_def bindM_Inr split: if_split_asm)
  obtain new old where ch: "addressChange (bx_auth E) l = Inr (new, old)"
    using assms(1) ok by (cases "addressChange (bx_auth E) l") (auto simp: authChange_def bindM_def)
  have rest: "(if new = 0 \<or> dget (au_Known a) new \<noteq> None then ret a else backfillManager E new from a) s = (Inr a', s')"
    using assms(1) ok ch by (simp add: authChange_def bindM_def)
  show ?thesis
  proof (cases "new = 0 \<or> dget (au_Known a) new \<noteq> None")
    case True
    then have "new = 0 \<or> new \<in> managers a" by (simp add: managers_iff)
    with True rest ch assms(2) show ?thesis by (auto simp: known_change_def)
  next
    case False
    with rest backfillManager_valid [of E new "from" a s a' s'] assms(2) ch show ?thesis by (auto simp: known_change_def)
  qed
qed

lemma known_change_mono: "known_change X m K l \<Longrightarrow> K \<subseteq> K' \<Longrightarrow> known_change X m K' l"
  by (auto simp: known_change_def)

lemma authChanges_valid:
  assumes "authChanges E from end ls a s = (Inr a', s')" "auth_valid a"
  shows "auth_valid a' \<and> managers a \<subseteq> managers a' \<and> (\<forall>l \<in> set ls. known_change (bx_auth E) m (managers a') l)"
  using assms
proof (induction ls arbitrary: a s)
  case (Cons l ls)
  then obtain a1 s1 where one: "authChange E from end l a s = (Inr a1, s1)"
    and more: "authChanges E from end ls a1 s1 = (Inr a', s')" by (auto simp: bindM_Inr)
  from authChange_valid [OF one Cons.prems(2)] Cons.IH [OF more] show ?case by (auto intro: known_change_mono)
qed simp

lemma authLogs_valid:
  assumes "slice_sort (bx_sort E)" "ax_senderTopic (bx_auth E) \<noteq> ev_ID (ax_AddressSet (bx_auth E))"
    and run: "authLogs E a from end s = (Inr (logs, a0), s')" and "auth_valid a"
  shows "auth_valid a0 \<and> (\<forall>l \<in> set logs. known_change (bx_auth E) m (managers a0) l)"
proof -
  from run obtain changes s1 s2 all where ch: "authChanges E from end changes a s1 = (Inr a0, s2)"
    and more: "(if au_Known a0 = [] then ret changes
            else bindM (senderLogs E (map fst (au_Known a0)) from end) (\<lambda>logs. ret (changes @ logs))) s2 = (Inr all, s')"
    and ord: "orderedLogs (bx_sort E) all = Inr logs"
    by (auto simp: authLogs_def bindM_Inr)
  note v = authChanges_valid [OF ch assms(4), of m]
  have sender: "known_change (bx_auth E) m (managers a0) l" if "hd (lg_Topics l) = ax_senderTopic (bx_auth E)" for l
    using that assms(2) by (simp add: known_change_def isAddressChange_def)
  have "\<forall>l \<in> set all. known_change (bx_auth E) m (managers a0) l"
    using more v by (auto simp: bindM_Inr split: if_split_asm dest!: senderLogs_Inr intro: sender)
  with orderedLogs_Inr [OF assms(1) ord] v show ?thesis by auto
qed

lemma applyLogs_valid:
  assumes "applyLogs E logs a = Inr b" "auth_valid a"
    and "\<forall>l \<in> set logs. known_change (bx_auth E) (c_AddressManager (bx_Config E)) (managers a) l"
  shows "auth_valid b"
proof -
  have "auth_valid b \<and> managers b = managers a"
    using assms(1) unfolding applyLogs_def
  proof (rule foldE_invariant)
    fix l t t'
    assume "l \<in> set logs" "auth_valid t \<and> managers t = managers a" "applyLog (bx_auth E) (c_AddressManager (bx_Config E)) l t = Inr t'"
    with applyLog_valid [OF this(3)] assms(3) show "auth_valid t' \<and> managers t' = managers a" by simp
  qed (simp add: assms(2))
  then show ?thesis ..
qed

lemma window_auth:
  assumes "slice_sort (bx_sort E)" "ax_senderTopic (bx_auth E) \<noteq> ev_ID (ax_AddressSet (bx_auth E))"
    and "window_to E c st Vo target caught st' Vo' n"
  shows "\<exists>a. bst_Auth st' = marshalAuth a \<and> storedAuth st' = Inr a"
proof -
  from assms(3) obtain f e a1 t1 t2 s1 s2 logs a0 a where init: "initialize E st t1 = (Inr (Some a1), t2)"
    and logs: "authLogs E a1 f e s1 = (Inr (logs, a0), s2)" and app: "applyLogs E logs a0 = Inr a"
    and st': "bst_Auth st' = marshalAuth a"
    unfolding window_to_def ran_at_def by (elim exE conjE) simp
  from authLogs_valid [OF assms(1,2) logs initialize_valid [OF init]] applyLogs_valid [OF app] have "auth_valid a" by blast
  then have "cloneAuth a = Inr a" by (simp add: cloneAuth_Inr)
  with st' show ?thesis by (simp add: storedAuth_def cloneAuth_def marshalAuth_def)
qed

text \<open>The checkpoint can be loaded again.\<close>

definition reloads :: "BlobState \<Rightarrow> bool" where
  "reloads st \<longleftrightarrow> (bst_Height st \<noteq> None \<longrightarrow> (\<exists>a. storedAuth st = Inr a))"

lemma prepared_reloads: "prepared E c st Vo target st1 Vo1 n \<Longrightarrow> reloads st \<Longrightarrow> reloads st1"
  by (auto simp: prepared_def retained_def reloads_def storedAuth_def stored_state_def split: if_splits)

lemma outcome_reloads:
  assumes "slice_sort (bx_sort E)" "ax_senderTopic (bx_auth E) \<noteq> ev_ID (ax_AddressSet (bx_auth E))"
    and "reloads st" "blob_outcome E c st Vo r st' Vo' n"
  shows "reloads st'"
proof (rule outcome_cases [OF assms(4)])
  fix target st1 Vo1
  assume p: "prepared E c st Vo target st1 Vo1 n" and w: "st' = st1 \<or> (\<exists>caught. window_to E c st1 Vo1 target caught st' Vo' n)"
  from w show ?thesis
  proof
    assume "\<exists>caught. window_to E c st1 Vo1 target caught st' Vo' n"
    with window_auth [OF assms(1,2)] show ?thesis unfolding reloads_def by blast
  qed (use prepared_reloads [OF p assms(3)] in simp)
qed

section \<open>Properties\<close>

text \<open>C30.
  A step of the Blob synchronizer is atomic, whatever the RPC answers and the other goroutines do
  meanwhile.  The Blob namespace is unchanged, or the retention cutoff has advanced to the bound
  of the header that the RPC gave at the confirmed target, and the expired records are pruned.  If
  the step returned without an error, the target is the height of the tip that the RPC gave less
  the confirmations, the cutoff has reached the bound of the header at the target, and at most one
  window has been committed.  The window starts right after the checkpoint, fits in a batch and
  ends at or below the target.  Its transactions and channels are what the scan of the window
  returned, all the channels are authorized, and the new checkpoint is its end, with the hash that
  the RPC gave for it and the authorization after its logs.  Without a window the step reports
  that it has caught up only if there is nothing up to the target to scan.  All answers are
  those to the calls of this step.\<close>

theorem BlobStep_commits_window:
  assumes "blob_others_ok E" and "slice_sort (bx_sort E)" and "c_BatchSize (bx_Config E) \<noteq> 0"
    and "rep_at st Vo s" and "BlobStep E s = (r, s')"
  shows "\<exists>st' Vo'. blob_outcome E (by_calls s) st Vo r st' Vo' (by_calls s') \<and> rep_at st' Vo' s'"
  by (rule BlobStep_sound [OF assms])

text \<open>C33.
  Over any run of the Blob synchronizer neither the scan checkpoint nor the retention cutoff
  moves back, and the hash of the checkpoint changes only with its height.\<close>

theorem BlobRun_never_moves_back:
  assumes "BlobRun E s stopped t" and "blob_others_ok E" and "slice_sort (bx_sort E)" and "c_BatchSize (bx_Config E) \<noteq> 0"
    and "rep_at st Vo s"
  shows "\<exists>st' Vo'. rep_at st' Vo' t \<and> height_le (bst_Height st) (bst_Height st') \<and> bst_Cutoff st \<le> bst_Cutoff st' \<and>
    (bst_Height st' = bst_Height st \<longrightarrow> bst_Hash st' = bst_Hash st)"
proof -
  have step: "\<forall>c st1 Vo1 r st2 Vo2 n. forward st st1 \<and> blob_outcome E c st1 Vo1 r st2 Vo2 n \<longrightarrow> forward st st2"
    using outcome_forward forward_trans by blast
  from BlobRun_keeps [where P = "forward st", OF assms(1-4) step assms(5) forward_refl] show ?thesis unfolding forward_def by blast
qed

text \<open>C35.
  A restart never gets stuck on its own checkpoint: if the stored authorization can be loaded at
  the start of a run, then it can at its end, whatever managers and senders were set meanwhile.\<close>

theorem BlobRun_reloads:
  assumes "BlobRun E s stopped t" and "blob_others_ok E" and "slice_sort (bx_sort E)" and "c_BatchSize (bx_Config E) \<noteq> 0"
    and "ax_senderTopic (bx_auth E) \<noteq> ev_ID (ax_AddressSet (bx_auth E))"
    and "rep_at st Vo s" and "bst_Height st \<noteq> None \<longrightarrow> (\<exists>a. storedAuth st = Inr a)"
  shows "\<exists>st' Vo'. rep_at st' Vo' t \<and> (bst_Height st' \<noteq> None \<longrightarrow> (\<exists>a. storedAuth st' = Inr a))"
proof -
  have step: "\<forall>c st1 Vo1 r st2 Vo2 n. reloads st1 \<and> blob_outcome E c st1 Vo1 r st2 Vo2 n \<longrightarrow> reloads st2"
    using outcome_reloads [OF assms(3,5)] by blast
  from BlobRun_keeps [where P = reloads, OF assms(1-4) step assms(6)] assms(7) show ?thesis unfolding reloads_def by blast
qed

section \<open>A run with one step\<close>

definition run_state :: BlobState where
  "run_state = \<lparr>bst_Revision = 1, bst_Height = Some 39, bst_Hash = 41, bst_Cutoff = 0, bst_RetentionHeight = None, bst_RetentionHash = 0,
     bst_Latest = None, bst_Auth = marshalAuth sample_auth\<rparr>"

definition run_syncer :: BlobSyncer where
  "run_syncer = scan_syncer\<lparr>by_Store := sample_store [(blobStateKey, BlobStateDoc run_state),
     (blobKey ''tx'' (hash_bytes 21), TxDoc (sample_tx [sample_frame 0, sample_frame 1]))]\<rparr>"

lemma run_env_ok: "blob_others_ok scan_env" "slice_sort (bx_sort scan_env)" "c_BatchSize (bx_Config scan_env) \<noteq> 0"
  "ax_senderTopic (bx_auth scan_env) \<noteq> ev_ID (ax_AddressSet (bx_auth scan_env))"
  by (simp_all add: blob_others_ok_def keeps_blob_def scan_env_def sl.slice_sort_axioms sample_Config_def sample_env_def status_run.same)

lemma run_rep: "rep_at run_state None run_syncer"
  by (simp add: rep_at_def run_syncer_def scan_syncer_def dict_ok_def status_inv_def zero_Status_def)
    (simp add: blobStateKey_def blobKey_def ascii_def sample_pebble_def)

lemma run_stored: "storedAuth run_state = Inr sample_auth"
proof -
  have "cloneAuth sample_auth = Inr sample_auth"
    by (simp add: cloneAuth_Inr auth_valid_def managers_def sample_auth_def zeroSender_def)
  then show ?thesis by (simp add: storedAuth_def run_state_def cloneAuth_def marshalAuth_def)
qed

theorem BlobRun_never_moves_back_witness:
  "\<exists>n t st' Vo'. blobRunOnce scan_env run_syncer = (n, t) \<and> BlobRun scan_env run_syncer (n = Stop) t \<and> rep_at st' Vo' t \<and>
     height_le (Some 39) (bst_Height st')"
proof -
  obtain n t where once: "blobRunOnce scan_env run_syncer = (n, t)" by force
  have run: "BlobRun scan_env run_syncer (n = Stop) t" by (rule BlobRun.go [OF BlobRun.start _ once]) (simp add: scan_env_def)
  from BlobRun_never_moves_back [OF run run_env_ok(1-3) run_rep] once run show ?thesis by (auto simp: run_state_def)
qed

theorem BlobRun_reloads_witness:
  "\<exists>n t st' Vo'. blobRunOnce scan_env run_syncer = (n, t) \<and> BlobRun scan_env run_syncer (n = Stop) t \<and> rep_at st' Vo' t \<and>
     (bst_Height st' \<noteq> None \<longrightarrow> (\<exists>a. storedAuth st' = Inr a))"
proof -
  obtain n t where once: "blobRunOnce scan_env run_syncer = (n, t)" by force
  have run: "BlobRun scan_env run_syncer (n = Stop) t" by (rule BlobRun.go [OF BlobRun.start _ once]) (simp add: scan_env_def)
  from BlobRun_reloads [OF run run_env_ok run_rep] run_stored once run show ?thesis by blast
qed

end
