(* ===== verification/IngestLive.thy ===== *)
theory IngestLive
  imports IngestStep
begin

text \<open>
  Progress and failure of the deposit synchronizer: a consistent RPC makes a step commit
  its window, a changed checkpoint block halts the service, and the search for the initial
  contract advances by a full page until it ends.  Witnesses for the properties of
  \<open>IngestStep\<close> are here as well.
\<close>

section \<open>A consistent RPC\<close>

text \<open>The chain and the logs do not change while the step runs, and nothing interferes.\<close>

definition honest :: "ingest_env \<Rightarrow> (u64 \<Rightarrow> hash) \<Rightarrow> u64 \<Rightarrow> (FilterQuery \<Rightarrow> Log list) \<Rightarrow> bool" where
  "honest E chain tip logs_of \<longleftrightarrow>
     (\<forall>k n. en_HeaderByNumber E k (Some n) = Inr (Some \<lparr>hd_Number = Some (uint n), hd_Hash = chain n\<rparr>)) \<and>
     (\<forall>k. en_HeaderByNumber E k None = Inr (Some \<lparr>hd_Number = Some (uint tip), hd_Hash = chain tip\<rparr>)) \<and>
     (\<forall>k fq. en_FilterLogs E k fq = Inr (logs_of fq)) \<and> (\<forall>k. en_ctxErr E k = None) \<and> (\<forall>k x. en_others E k x = x)"

definition windowLogs :: "ingest_env \<Rightarrow> (FilterQuery \<Rightarrow> Log list) \<Rightarrow> address \<Rightarrow> u64 \<Rightarrow> u64 \<Rightarrow> Log list result" where
  "windowLogs E logs_of ctc from end =
     (let changes = logs_of (addressQuery E from end) in
      bindE (mapE (checkAddressLog E ''unexpected address log'' from end) changes) (\<lambda>news.
        let addresses = (set news - {0}) \<union> ({ctc} - {0}) in
        Inr (if addresses = {} then changes else changes @ logs_of \<lparr>fq_From = from, fq_To = end,
          fq_Addresses = addresses, fq_Topics = [[ev_ID (en_Enqueued E)]]\<rparr>)))"

lemma rpc_honest: "honest E chain tip logs_of \<Longrightarrow> rpc E ans s = (ans (sy_calls s), s\<lparr>sy_calls := Suc (sy_calls s)\<rparr>)"
  by (simp add: rpc_def honest_def Let_def)

lemma header_honest:
  "honest E chain tip logs_of \<Longrightarrow> header E n s =
     (Inr \<lparr>hd_Number = Some (uint n), hd_Hash = chain n\<rparr>, s\<lparr>sy_calls := Suc (sy_calls s)\<rparr>)"
  by (simp add: header_def bindM_def rpc_honest) (simp add: honest_def)

lemma loadLogs_honest:
  assumes "honest E chain tip logs_of" and "windowLogs E logs_of (w_ctc w) (w_from w) (w_end w) = Inr logs"
  shows "\<exists>k. loadLogs E w s = (Inr logs, s\<lparr>sy_calls := k\<rparr>)"
proof -
  have ans: "en_FilterLogs E k fq = Inr (logs_of fq)" for k fq using assms(1) by (simp add: honest_def)
  show ?thesis
    using assms(2)
    by (auto simp: loadLogs_def windowLogs_def bindM_def rpc_honest [OF assms(1)] ans Let_def bindE_Inr)
qed

lemma setM_healthy:
  "ss_fatal (sy_Status s) = None \<Longrightarrow> setM b None s = (Inr (), s\<lparr>sy_Status := (sy_Status s)\<lparr>ss_ready := b\<rparr>\<rparr>)"
  by (simp add: setM_def setStatus_def)

lemma prepareWindow_honest:
  assumes hon: "honest E chain tip logs_of" and st: "State (sy_Store s) = Inr st" and fatal: "ss_fatal (sy_Status s) = None"
    and hash: "\<And>h. st_Height st = Some h \<Longrightarrow> st_Hash st = chain h"
    and w: "chooseWindow (en_Config E) st tip = (False, Some w)"
  shows "\<exists>k. prepareWindow E s = (Inr (Some w), s\<lparr>sy_calls := k, sy_Status := (sy_Status s)\<lparr>ss_ready := False\<rparr>\<rparr>)"
proof -
  have tip: "en_HeaderByNumber E k None = Inr (Some \<lparr>hd_Number = Some (uint tip), hd_Hash = chain tip\<rparr>)" for k
    using hon by (simp add: honest_def)
  have fin: "tipWindow E st (Some \<lparr>hd_Number = Some (uint tip), hd_Hash = chain tip\<rparr>) t =
      (Inr (Some w), t\<lparr>sy_Status := (sy_Status t)\<lparr>ss_ready := False\<rparr>\<rparr>)" if "ss_fatal (sy_Status t) = None" for t
    using that w by (simp add: tipWindow_def bindM_def setM_healthy)
  show ?thesis
    using fatal hash
    by (cases "st_Height st")
      (auto simp: prepareWindow_def bindM_def st rpc_honest [OF hon] header_honest [OF hon] tip fin)
qed

text \<open>A synchronizer that no error stops: the status is healthy, the database open and working.\<close>

definition going :: "Syncer \<Rightarrow> bool" where
  "going s \<longleftrightarrow> ss_fatal (sy_Status s) = None \<and> \<not> s_closed (sy_Store s) \<and> fault_free (s_db (sy_Store s))"

lemma going_memory [simp]:
  "going (s\<lparr>sy_calls := k\<rparr>) = going s" "going (s\<lparr>sy_bootstrap := b\<rparr>) = going s"
  "going (s\<lparr>sy_Status := (sy_Status s)\<lparr>ss_ready := r\<rparr>\<rparr>) = going s"
  by (simp_all add: going_def)

lemma commitStore_honest:
  assumes "en_ctxErr E k = None" and "going s" and inv: "sync_inv st q s" and "queue_append q records = Some q'"
  shows "\<exists>store'. commitStore E st after records k s = (Inr (), s\<lparr>sy_Store := store'\<rparr>) \<and> going (s\<lparr>sy_Store := store'\<rparr>)"
proof -
  from inv have "queue_rep (s_db (sy_Store s)) st q" by (simp add: sync_inv_def)
  from Commit_complete [OF this _ _ assms(4)] assms(2) obtain store' where run: "Commit (sy_Store s) st after records = (Inr (), store')"
    by (auto simp: going_def)
  from Commit_faults [OF run] assms(2) have "going (s\<lparr>sy_Store := store'\<rparr>)" by (simp add: going_def)
  with assms(1,2) run show ?thesis
    by (intro exI [of _ store']) (simp add: commitStore_def storeM_def commitIfHealthy_def wrapIntegrity_def going_def)
qed

lemma honest_others: "honest E chain tip logs_of \<Longrightarrow> others_ok E"
  by (simp add: honest_def others_ok_def status_run.same)

lemma sync_inv_same:
  "sy_Store s = sy_Store t \<Longrightarrow> status_inv (sy_Status t) \<Longrightarrow> sync_inv st q s \<Longrightarrow> sync_inv st q t"
  by (simp add: sync_inv_def)

lemma status_inv_ready: "status_inv s \<Longrightarrow> ss_fatal s = None \<Longrightarrow> status_inv (s\<lparr>ss_ready := b\<rparr>)"
  by (simp add: status_inv_def)

text \<open>What the steps rely on: the checkpoint, or the anchor of the bootstrap, is on the chain.\<close>

definition rooted :: "ingest_env \<Rightarrow> (u64 \<Rightarrow> hash) \<Rightarrow> State \<Rightarrow> Syncer \<Rightarrow> bool" where
  "rooted E chain st s \<longleftrightarrow> (case st_Height st of Some h \<Rightarrow> st_Hash st = chain h
     | None \<Rightarrow> (\<forall>b. sy_bootstrap s = Some b \<longrightarrow> bs_anchor b = chain (c_Start (en_Config E) - 1)))"

lemma checkBootstrap_honest:
  assumes "honest E chain tip logs_of" "\<forall>b. sy_bootstrap s = Some b \<longrightarrow> bs_anchor b = chain (c_Start (en_Config E) - 1)"
  shows "\<exists>k. checkBootstrap E s = (Inr (), s\<lparr>sy_calls := k\<rparr>)"
  using assms by (cases "sy_bootstrap s") (auto simp: checkBootstrap_def bindM_def header_honest [OF assms(1)] intro: exI [of _ "sy_calls s"])

text \<open>The checkpoint after a window.\<close>

abbreviation reached :: "(u64 \<Rightarrow> hash) \<Rightarrow> u64 \<Rightarrow> address \<Rightarrow> Record list \<Rightarrow> State" where
  "reached chain n ctc q \<equiv> \<lparr>st_Height = Some n, st_Hash = chain n, st_CTC = ctc, st_Latest = latest_of q\<rparr>"

lemma commitWindow_honest:
  assumes hon: "honest E chain tip logs_of" and inv: "sync_inv st q s" and go: "going s" and root: "rooted E chain st s"
    and w: "w_before w = st" "w_endHash w = chain (w_end w)" and q: "queue_append q records = Some q'"
    and tip: "w_end w = w_target w \<longrightarrow> ctc \<noteq> 0"
  shows "\<exists>t. commitWindow E w ctc records s = (Inr (), t) \<and> sync_inv (reached chain (w_end w) ctc q') q' t \<and> going t"
proof -
  have ctx: "en_ctxErr E k = None" for k using hon by (simp add: honest_def)
  let ?after = "\<lparr>st_Height = Some (w_end w), st_Hash = w_endHash w, st_CTC = ctc, st_Latest = None\<rparr>"
  have put: "\<exists>store. commitStore E st ?after records k (s\<lparr>sy_calls := k\<rparr>) = (Inr (), s\<lparr>sy_calls := k, sy_Store := store\<rparr>) \<and>
      going (s\<lparr>sy_calls := k, sy_Store := store\<rparr>)" for k
    using commitStore_honest [where s = "s\<lparr>sy_calls := k\<rparr>", OF ctx _ sync_inv_same [OF _ _ inv] q] go inv
    by (simp add: sync_inv_def)
  have "\<exists>t. commitWindow E w ctc records s = (Inr (), t) \<and> going t"
  proof (cases "st_Height st")
    case (Some h)
    with root have "st_Hash st = chain h" by (simp add: rooted_def)
    with Some put [of "Suc (Suc (sy_calls s))"] tip show ?thesis
      by (auto simp: commitWindow_eq bindM_def header_honest [OF hon] w)
  next
    case None
    with root checkBootstrap_honest [OF hon, of s] obtain k where "checkBootstrap E s = (Inr (), s\<lparr>sy_calls := k\<rparr>)"
      by (auto simp: rooted_def)
    with None put [of "Suc k"] tip show ?thesis
      by (auto simp: commitWindow_eq bindM_def header_honest [OF hon] w)
  qed
  then obtain t where t: "commitWindow E w ctc records s = (Inr (), t)" "going t" by blast
  with commitWindow_Inr [OF t(1) inv honest_others [OF hon]] q w show ?thesis by auto
qed

lemma scanAndCommit_honest:
  assumes hon: "honest E chain tip logs_of" and inv: "sync_inv st q s" and go: "going s" and root: "rooted E chain st s"
    and w: "w_before w = st" and logs: "windowLogs E logs_of (w_ctc w) (w_from w) (w_end w) = Inr logs"
    and dec: "decodeLogs E logs (w_ctc w) (w_from w) (w_end w) = Inr (records, ctc)"
    and q: "queue_append q records = Some q'" and tip: "w_end w = w_target w \<longrightarrow> ctc \<noteq> 0"
  shows "\<exists>s'. scanAndCommit E w s = (Inr (w_end w = w_target w), s') \<and> sync_inv (reached chain (w_end w) ctc q') q' s' \<and>
    going s' \<and> ss_ready (sy_Status s') = (w_end w = w_target w)"
proof -
  let ?w = "w\<lparr>w_endHash := chain (w_end w)\<rparr>"
  obtain k where load: "loadLogs E ?w (s\<lparr>sy_calls := Suc (sy_calls s)\<rparr>) = (Inr logs, s\<lparr>sy_calls := k\<rparr>)"
    using loadLogs_honest [OF hon, of ?w logs "s\<lparr>sy_calls := Suc (sy_calls s)\<rparr>"] logs by auto
  have "sync_inv st q (s\<lparr>sy_calls := k\<rparr>)" using inv by (simp add: sync_inv_def)
  moreover have "rooted E chain st (s\<lparr>sy_calls := k\<rparr>)" using root by (simp add: rooted_def cong: option.case_cong)
  ultimately obtain t where commit: "commitWindow E ?w ctc records (s\<lparr>sy_calls := k\<rparr>) = (Inr (), t)"
    and t: "sync_inv (reached chain (w_end w) ctc q') q' t" "going t"
    using commitWindow_honest [OF hon, of st q "s\<lparr>sy_calls := k\<rparr>" ?w records q' ctc] go w q tip by auto
  let ?t = "t\<lparr>sy_Status := (sy_Status t)\<lparr>ss_ready := w_end w = w_target w\<rparr>\<rparr>"
  have set: "setM (w_end w = w_target w) None t = (Inr (), ?t)" using t(2) by (simp add: setM_healthy going_def)
  have inv': "sync_inv (reached chain (w_end w) ctc q') q' ?t"
    using t by (intro sync_inv_same [OF _ _ t(1)]) (auto simp: sync_inv_def status_inv_ready going_def)
  have "scanAndCommit E w s = (Inr (w_end w = w_target w), ?t)"
    using load dec commit set by (simp add: scanAndCommit_def bindM_def anchorWindow_def header_honest [OF hon] Let_def)
  with inv' t(2) show ?thesis by auto
qed

text \<open>With a checkpoint on the chain, a consistent RPC and a window the queue accepts, the step commits it.\<close>

lemma chooseWindow_before:
  "chooseWindow c st tip = (False, Some w) \<Longrightarrow> w_before w = st \<and> w_ctc w = st_CTC st"
  by (auto simp: chooseWindow_def Let_def split: option.splits if_splits)

lemma Step_progress:
  assumes hon: "honest E chain tip logs_of" and inv: "sync_inv st q s" and go: "going s"
    and st: "st_Height st = Some h" "st_Hash st = chain h"
    and w: "chooseWindow (en_Config E) st tip = (False, Some w)"
    and logs: "windowLogs E logs_of (st_CTC st) (w_from w) (w_end w) = Inr logs"
    and dec: "decodeLogs E logs (st_CTC st) (w_from w) (w_end w) = Inr (records, ctc)"
    and q: "queue_append q records = Some q'" and tip: "w_end w = w_target w \<longrightarrow> ctc \<noteq> 0"
  shows "\<exists>s'. Step E s = (Inr (w_end w = w_target w), s') \<and> sync_inv (reached chain (w_end w) ctc q') q' s' \<and> going s' \<and>
    ss_ready (sy_Status s') = (w_end w = w_target w)"
proof -
  note wb = chooseWindow_before [OF w]
  have state: "State (sy_Store s) = Inr st"
    using inv go readState_fault_free by (simp add: sync_inv_def queue_rep_def State_def going_def)
  from go have fatal: "ss_fatal (sy_Status s) = None" by (simp add: going_def)
  from prepareWindow_honest [OF hon state fatal _ w] st obtain k where
    prep: "prepareWindow E s = (Inr (Some w), s\<lparr>sy_calls := k, sy_Status := (sy_Status s)\<lparr>ss_ready := False\<rparr>\<rparr>)" by auto
  let ?s = "s\<lparr>sy_calls := k, sy_Status := (sy_Status s)\<lparr>ss_ready := False\<rparr>, sy_bootstrap := None\<rparr>"
  have "sync_inv st q ?s"
    using inv fatal by (intro sync_inv_same [OF _ _ inv]) (auto simp: sync_inv_def status_inv_ready)
  moreover have "going ?s" using go by (simp add: going_def)
  moreover have "rooted E chain st ?s" using st by (simp add: rooted_def)
  ultimately obtain s' where scan: "scanAndCommit E w ?s = (Inr (w_end w = w_target w), s')"
    "sync_inv (reached chain (w_end w) ctc q') q' s'" "going s'" "ss_ready (sy_Status s') = (w_end w = w_target w)"
    using scanAndCommit_honest [OF hon _ _ _ conjunct1 [OF wb] _ _ q tip] logs dec wb by metis
  have "Step E s = (Inr (w_end w = w_target w), s')"
    using fatal prep scan(1) st wb by (simp add: Step_def bindM_def Snapshot_def initializeCTC_def setBootstrap_def modifyM_def)
  with scan show ?thesis by blast
qed

section \<open>A changed checkpoint block\<close>

lemma header_answer:
  assumes "en_HeaderByNumber E (sy_calls s) (Some n) = Inr (Some h)" "hd_Number h = Some (uint n)"
  shows "\<exists>s'. header E n s = (Inr h, s')"
  using assms by (auto simp: header_def bindM_def rpc_def Let_def split: prod.splits)

lemma Step_reorg:
  assumes state: "State (sy_Store s) = Inr st" and fatal: "ss_fatal (sy_Status s) = None" and h: "st_Height st = Some n"
    and ans: "en_HeaderByNumber E (sy_calls s) (Some n) = Inr (Some hdr)" "hd_Number hdr = Some (uint n)"
    and changed: "hd_Hash hdr \<noteq> st_Hash st"
  shows "\<exists>s'. Step E s = (Inl (fatal ''committed block changed''), s')"
proof -
  obtain s' where "header E n s = (Inr hdr, s')" using header_answer [OF ans] by blast
  then show ?thesis
    using state fatal h changed by (auto simp: Step_def Snapshot_def prepareWindow_def bindM_def)
qed

lemma setM_records:
  assumes "sync_inv st q s"
  shows "\<exists>s'. setM b (Some e) s = (Inr (), s') \<and> sync_inv st q s' \<and> ss_fatal (sy_Status s') \<noteq> None"
proof -
  from assms have "status_inv (sy_Status s)" by (simp add: sync_inv_def)
  from status_inv_records [OF this, of b e] obtain t where "setStatus b (Some e) (sy_Status s) = Some t" "status_inv t" "ss_fatal t \<noteq> None"
    by blast
  with assms show ?thesis by (simp add: setM_def sync_inv_def)
qed

section \<open>Pages of the bootstrap\<close>

lemma loadBootstrapPage_Inr:
  assumes "loadBootstrapPage E n s = (Inr page, s')"
  shows "c_BatchSize (en_Config E) \<noteq> 0 \<and> pg_end page = n \<and>
    pg_from page = (if c_BatchSize (en_Config E) \<le> n then n - c_BatchSize (en_Config E) + 1 else 0)"
  using assms by (auto simp: loadBootstrapPage_def Let_def bindM_Inr split: if_splits)

lemma page_step:
  fixes n size :: u64
  assumes "size \<noteq> 0" "size \<le> n"
  shows "unat (n - size + 1 - 1) + unat size = unat n" "0 < n - size + 1"
proof -
  have sub: "unat (n - size) = unat n - unat size" and le: "unat size \<le> unat n" and pos: "0 < unat size"
    using assms by (simp_all add: unat_sub word_le_nat_alt unat_gt_0)
  then show "unat (n - size + 1 - 1) + unat size = unat n" by simp
  have "unat n < 2 ^ 64" using unsigned_less [of n, where ?'a = nat] by simp
  then have "unat (n - size) + unat (1 :: u64) < 2 ^ LENGTH(64)" using sub le pos by simp
  then have "unat (n - size + 1) = Suc (unat (n - size))" by (simp add: unat_add_lem [THEN iffD1])
  then show "0 < n - size + 1" by (simp add: word_less_nat_alt)
qed

lemma bootstrapStep_None:
  assumes "bootstrapStep E b w s = (Inr None, s')"
  shows "\<exists>b'. sy_bootstrap s' = Some b' \<and> bs_anchor b' = bs_anchor b \<and> \<not> bs_ready b' \<and>
    unat (bs_next b') + unat (c_BatchSize (en_Config E)) = unat (bs_next b) \<and> c_BatchSize (en_Config E) \<noteq> 0"
proof -
  let ?n = "c_BatchSize (en_Config E)"
  from assms obtain page s1 where page: "loadBootstrapPage E (bs_next b) s = (Inr page, s1)" "0 < pg_from page"
    and s': "sy_bootstrap s' = Some (b\<lparr>bs_next := pg_from page - 1\<rparr>)" "\<not> bs_ready b"
    by (auto simp: bootstrapStep_def bindM_Inr setBootstrap_def split: if_splits)
  from loadBootstrapPage_Inr [OF page(1)] page(2) have "?n \<noteq> 0" "?n \<le> bs_next b"
    "pg_from page = bs_next b - ?n + 1" by (auto split: if_splits)
  with page_step [of ?n "bs_next b"] s' show ?thesis by auto
qed

section \<open>Properties\<close>

text \<open>A reorganisation below the checkpoint stops the service: when the RPC returns
  another block at the checkpoint height, the iteration ends the loop, a fatal error is
  recorded and the queue is untouched.\<close>

lemma reorg_halts:
  assumes "others_ok E" and "c_BatchSize (en_Config E) \<noteq> 0" and "sync_inv st q s" and "ss_fatal (sy_Status s) = None"
    and "\<not> s_closed (sy_Store s)" and "fault_free (s_db (sy_Store s))" and "st_Height st = Some n"
    and "en_HeaderByNumber E (sy_calls s) (Some n) = Inr (Some hdr)" and "hd_Number hdr = Some (uint n)"
    and "hd_Hash hdr \<noteq> st_Hash st"
  shows "\<exists>s'. runOnce E s = (Stop, s') \<and> sync_inv st q s' \<and> ss_fatal (sy_Status s') \<noteq> None \<and> \<not> fst (Snapshot (sy_Status s'))"
proof -
  have state: "State (sy_Store s) = Inr st"
    using assms(3,5,6) readState_fault_free by (simp add: sync_inv_def queue_rep_def State_def)
  from Step_reorg [OF state assms(4,7,8,9,10)] obtain s1 where
    step: "Step E s = (Inl (fatal ''committed block changed''), s1)" by blast
  have inv1: "sync_inv st q s1" using Step_sound [OF assms(1-3) step] by auto
  from setM_ok [OF inv1, of False] obtain s2 where s2: "setM False None s1 = (Inr (), s2)" "sync_inv st q s2" by blast
  from setM_records [OF s2(2), of False "fatal ''committed block changed''"] obtain s3 where
    s3: "setM False (Some (fatal ''committed block changed'')) s2 = (Inr (), s3)" "sync_inv st q s3"
      "ss_fatal (sy_Status s3) \<noteq> None" by blast
  have quiet: "\<not> fst (Snapshot (sy_Status t))" if "sync_inv st q t" "ss_fatal (sy_Status t) \<noteq> None" for t
    using that by (auto simp: sync_inv_def status_inv_def Snapshot_def)
  show ?thesis
  proof (cases "ss_fatal (sy_Status s1)")
    case None
    then have "runOnce E s = (Stop, s3)"
      using step s2 s3 by (simp add: runOnce_def Snapshot_def fatal_def)
    with s3 quiet show ?thesis by blast
  next
    case (Some e)
    then have "runOnce E s = (Stop, s1)" using step by (simp add: runOnce_def Snapshot_def)
    with Some inv1 quiet show ?thesis by blast
  qed
qed

text \<open>The search for the initial contract terminates: every page without a log moves the
  search back by exactly one batch, so it needs at most \<open>next / batch + 1\<close> pages.\<close>

lemma bootstrap_page_progress:
  assumes "bootstrapStep E b w s = (Inr None, s')"
  shows "\<exists>b'. sy_bootstrap s' = Some b' \<and> bs_anchor b' = bs_anchor b \<and>
    unat (bs_next b') + unat (c_BatchSize (en_Config E)) = unat (bs_next b) \<and>
    unat (bs_next b') div unat (c_BatchSize (en_Config E)) < unat (bs_next b) div unat (c_BatchSize (en_Config E))"
proof -
  from bootstrapStep_None [OF assms] obtain b' where b': "sy_bootstrap s' = Some b'" "bs_anchor b' = bs_anchor b"
    "unat (bs_next b') + unat (c_BatchSize (en_Config E)) = unat (bs_next b)" "0 < unat (c_BatchSize (en_Config E))"
    by (auto simp: unat_gt_0)
  then have "unat (bs_next b) div unat (c_BatchSize (en_Config E)) = Suc (unat (bs_next b') div unat (c_BatchSize (en_Config E)))"
    by (metis div_add_self2 less_not_refl Suc_eq_plus1)
  with b' show ?thesis by auto
qed

section \<open>Samples and witnesses\<close>

definition sample_logs :: "FilterQuery \<Rightarrow> Log list" where
  "sample_logs fq = (if fq_Topics fq = [[200]] then [sample_enqueue] else [])"

definition live_env :: ingest_env where
  "live_env = sample_env\<lparr>en_FilterLogs := (\<lambda>k fq. Inr (sample_logs fq))\<rparr>"

definition sample_checkpoint :: "hash \<Rightarrow> State" where
  "sample_checkpoint h = \<lparr>st_Height = Some 5, st_Hash = h, st_CTC = 9, st_Latest = None\<rparr>"

definition sample_sync :: "hash \<Rightarrow> Syncer" where
  "sample_sync h = \<lparr>sy_Store = sample_store [(stateKey, StateDoc (sample_checkpoint h))], sy_Status = zero_Status,
     sy_bootstrap = None, sy_calls = 0\<rparr>"

lemma sample_sync_inv: "sync_inv (sample_checkpoint h) [] (sample_sync h)"
  by (simp add: sync_inv_def sample_sync_def queue_rep_def queue_at_def state_of_def latest_of_def dict_ok_def
      sample_checkpoint_def status_inv_def zero_Status_def)

lemma sample_sync_simps [simp]:
  "ss_fatal (sy_Status (sample_sync h)) = None" "\<not> s_closed (sy_Store (sample_sync h))"
  "fault_free (s_db (sy_Store (sample_sync h)))" "sy_calls (sample_sync h) = 0"
  by (simp_all add: sample_sync_def zero_Status_def)

lemma live_honest: "honest live_env (\<lambda>_. 77) 9 sample_logs"
  by (simp add: honest_def live_env_def sample_env_def)

lemma live_size: "c_BatchSize (en_Config live_env) \<noteq> 0"
  by (simp add: live_env_def sample_env_def sample_Config_def)

definition sample_window :: scanWindow where
  "sample_window = \<lparr>w_before = sample_checkpoint 77, w_from = 6, w_end = 7, w_target = 7, w_endHash = 0, w_ctc = 9\<rparr>"

lemma live_window: "chooseWindow (en_Config live_env) (sample_checkpoint 77) 9 = (False, Some sample_window)"
  by (simp add: chooseWindow_def live_env_def sample_env_def sample_Config_def sample_checkpoint_def sample_window_def
      word_le_nat_alt)

lemma live_logs: "windowLogs live_env sample_logs 9 6 7 = Inr [sample_enqueue]"
  by (simp add: windowLogs_def live_env_def sample_env_def sample_logs_def addressQuery_def)

definition live_record :: Record where
  "live_record = \<lparr>enq_Index = 0, enq_Target = 2, enq_Data = ''0x'', enq_GasLimit = decimal 21000, enq_Origin = 1,
     enq_BlockNumber = 6, enq_Timestamp = 7, enq_CTCIndex = None, rec_BlockHash = 60, rec_TxHash = 2, rec_LogIndex = 0\<rparr>"

lemma live_decode: "decodeLogs live_env [sample_enqueue] 9 6 7 = Inr ([live_record], 9)"
proof -
  have "Decode live_env sample_enqueue = Inr (live_record, 1088)"
    by (simp add: live_env_def live_record_def Decode_def sample_enqueue_def sample_env_def unpack_def IsUint64_def
        Let_def drop_small)
  moreover have "en_sort live_env [sample_enqueue] = [sample_enqueue]"
    by (simp add: live_env_def sample_env_def sort_logs_def)
  ultimately show ?thesis
    by (simp add: decodeLogs_def decodeLog_def validateLog_def)
      (simp add: sample_enqueue_def live_env_def sample_env_def sample_Config_def)
qed

lemma live_append: "queue_append [] [live_record] = Some [live_record]"
  by (simp add: queue_add_def live_record_def)

lemma live_step:
  obtains s' where "Step live_env (sample_sync 77) = (Inr True, s')"
    "sync_inv \<lparr>st_Height = Some 7, st_Hash = 77, st_CTC = 9, st_Latest = latest_of [live_record]\<rparr> [live_record] s'"
proof -
  have st: "st_Height (sample_checkpoint 77) = Some 5" "st_Hash (sample_checkpoint 77) = 77" "st_CTC (sample_checkpoint 77) = 9"
    "w_end sample_window = 7" "w_from sample_window = 6" "w_target sample_window = 7"
    by (simp_all add: sample_checkpoint_def sample_window_def)
  from Step_progress [OF live_honest sample_sync_inv _ st(1) _ live_window _ _ live_append, of "[sample_enqueue]" 9]
    live_logs live_decode that show ?thesis by (auto simp: st going_def)
qed

text \<open>A database represents one queue.\<close>

lemma queue_at_length:
  assumes "queue_at b p" "queue_at b q"
  shows "length p \<le> length q"
proof (rule ccontr)
  assume "\<not> length p \<le> length q"
  then have len: "length q < length p" by simp
  moreover have "length p \<le> 2 ^ 64" using assms(1) by (simp add: queue_at_def)
  ultimately have "unat (word_of_nat (length q) :: u64) = length q"
    by (simp add: unat_of_nat take_bit_nat_eq_self)
  with len queue_at_lookup [OF assms(1), of "word_of_nat (length q)"] queue_at_lookup [OF assms(2), of "word_of_nat (length q)"]
  show False by simp
qed

lemma queue_rep_unique:
  assumes "queue_rep b st q" "queue_rep b st' q'"
  shows "st = st' \<and> q = q'"
proof -
  from assms have at: "queue_at b q" "queue_at b q'" by (simp_all add: queue_rep_def)
  have len: "length q = length q'" using queue_at_length at by (meson le_antisym)
  have "q ! j = q' ! j" if "j < length q" for j
  proof -
    have "unat (word_of_nat j :: u64) = j"
      using that at(1) by (simp add: queue_at_def unat_of_nat take_bit_nat_eq_self)
    with that len queue_at_lookup [OF at(1), of "word_of_nat j"] queue_at_lookup [OF at(2), of "word_of_nat j"]
    show ?thesis by simp
  qed
  with len assms show ?thesis by (auto simp: queue_rep_def intro: nth_equalityI)
qed

theorem Step_commits_window_witness:
  "\<exists>s' w st' q'. Step live_env (sample_sync 77) = (Inr True, s') \<and>
     window_committed live_env (sy_calls (sample_sync 77)) (sample_checkpoint 77) [] w st' q' (sy_calls s') \<and>
     sync_inv st' q' s' \<and> st_Height st' = Some 7 \<and> q' = [live_record]"
proof -
  obtain s' where s': "Step live_env (sample_sync 77) = (Inr True, s')"
    "sync_inv \<lparr>st_Height = Some 7, st_Hash = 77, st_CTC = 9, st_Latest = latest_of [live_record]\<rparr> [live_record] s'"
    by (rule live_step)
  have same: "st' = a \<and> q' = b" if "sync_inv st' q' s'" "sync_inv a b s'" for st' q' a b
    using that queue_rep_unique unfolding sync_inv_def by blast
  from same [OF s'(2)] have "\<not> sync_inv (sample_checkpoint 77) [] s'" by (auto simp: sample_checkpoint_def)
  with Step_commits_window [OF honest_others [OF live_honest] live_size sample_sync_inv s'(1)]
  obtain w st' q' where "window_committed live_env (sy_calls (sample_sync 77)) (sample_checkpoint 77) [] w st' q' (sy_calls s')"
    "sync_inv st' q' s'" by blast
  with same [OF s'(2)] s'(1) show ?thesis by force
qed

theorem Run_never_moves_back_witness:
  "\<exists>n t st' ys. runOnce live_env (sample_sync 77) = (n, t) \<and> Run live_env (sample_sync 77) (n = Stop) t \<and>
     sync_inv st' ([] @ ys) t \<and> height_le (Some 5) (st_Height st')"
proof -
  obtain n t where once: "runOnce live_env (sample_sync 77) = (n, t)" by force
  have run: "Run live_env (sample_sync 77) (n = Stop) t" by (rule Run.go [OF Run.start once])
  from Run_never_moves_back [OF run honest_others [OF live_honest] live_size sample_sync_inv] once run
  show ?thesis by (auto simp: sample_checkpoint_def)
qed

lemma reorg_halts_sample:
  "\<exists>s'. runOnce live_env (sample_sync 78) = (Stop, s') \<and> sync_inv (sample_checkpoint 78) [] s' \<and>
     ss_fatal (sy_Status s') \<noteq> None \<and> \<not> fst (Snapshot (sy_Status s'))"
proof -
  have ans: "en_HeaderByNumber live_env (sy_calls (sample_sync 78)) (Some 5) = Inr (Some \<lparr>hd_Number = Some (uint (5 :: u64)), hd_Hash = 77\<rparr>)"
    by (simp add: live_env_def sample_env_def)
  from reorg_halts [OF honest_others [OF live_honest] live_size sample_sync_inv _ _ _ _ ans]
  show ?thesis by (simp add: sample_checkpoint_def)
qed

definition sample_bootstrap :: bootstrapState where
  "sample_bootstrap = \<lparr>bs_anchor = 77, bs_next = 25, bs_ready = False, bs_ctc = 0\<rparr>"

lemma bootstrap_page_progress_witness:
  "\<exists>s' b'. bootstrapStep sample_env sample_bootstrap sample_window ((sample_sync 77)\<lparr>sy_bootstrap := Some sample_bootstrap\<rparr>) = (Inr None, s') \<and>
     sy_bootstrap s' = Some b' \<and> unat (bs_next b') + 10 = 25"
proof -
  obtain s' where run: "bootstrapStep sample_env sample_bootstrap sample_window
      ((sample_sync 77)\<lparr>sy_bootstrap := Some sample_bootstrap\<rparr>) = (Inr None, s')"
    by (simp add: bootstrapStep_def sample_bootstrap_def loadBootstrapPage_def bindM_def rpc_def sample_env_def
        sample_Config_def decodeBootstrapPage_def checkBootstrap_def header_def IsUint64_def setBootstrap_def sample_sync_def Let_def)
  from bootstrap_page_progress [OF run] run show ?thesis
    by (auto simp: sample_env_def sample_Config_def sample_bootstrap_def)
qed

end
