(* ===== verification/Service.thy ===== *)
theory Service
  imports Server BlobRuns IngestLive
begin

text \<open>
  \<open>cmd/metis-l1dtl/\<close>: the program itself.  \<open>startService\<close> is \<open>runService\<close> up to
  \<open>serve\<close>: it checks the L1 chain, opens and claims the database, initialises the Blob
  namespace and the status.  \<open>serve_step\<close> is the life of \<open>serve\<close>: workers that may
  return at any time, the event that ends the service, the shutdown of the HTTP server and the
  wait for the workers before the caller closes the database.  Dialling, the L1 answers, the file
  system, the listener and the HTTP client are parameters.
\<close>

section \<open>Start\<close>

record service_env =
  se_dialErr :: "error option"
  se_ChainID :: "int result"
  se_CodeAt :: "address \<Rightarrow> bytes result"
  se_mkdirErr :: "error option"
  se_openErr :: "error option"
  se_listenErr :: "error option"

definition validateL1 :: "service_env \<Rightarrow> Config \<Rightarrow> unit result" where
  "validateL1 E c = bindE (se_ChainID E) (\<lambda>i.
     if \<not> IsUint64 i \<or> word_of_int i \<noteq> c_L1ChainID c then Inl (Err ErrOther ''L1 chain ID mismatch'')
     else bindE (se_CodeAt E (c_AddressManager c)) (\<lambda>code.
       if code = [] then Inl (Err ErrOther ''AddressManager has no code'') else Inr ()))"

definition serviceIdentity :: "Config \<Rightarrow> Identity" where
  "serviceIdentity c = \<lparr>id_Version = 1, id_L1 = c_L1ChainID c, id_L2 = c_L2ChainID c, id_Start = c_Start c, id_Manager = c_AddressManager c\<rparr>"

definition blobIdentity :: "Config \<Rightarrow> BlobIdentity" where
  "blobIdentity c = \<lparr>bid_Version = 1, bid_Inbox = c_Inbox c, bid_BatchSender = c_InboxSender c, bid_BlobSender = c_BlobSender c, bid_Start = c_InboxStart c\<rparr>"

text \<open>The Blob worker is added first when the Beacon URL is set.\<close>

definition initWorkers :: "Config \<Rightarrow> Store \<Rightarrow> (nat \<times> Status) result \<times> Store" where
  "initWorkers c db = (if BlobEnabled c
     then (case InitBlob db (blobIdentity c) of
        (Inl e, db') \<Rightarrow> (Inl e, db')
      | (Inr _, db') \<Rightarrow> (Inr (2, EnableBlob zero_Status), db'))
     else (Inr (1, zero_Status), db))"

text \<open>
  The number of workers, the store and the status, and what is on disk.  On an error after
  \<open>Open\<close> the deferred \<open>Close\<close> runs, which leaves the contents.
\<close>

definition startService :: "service_env \<Rightarrow> Config \<Rightarrow> pebble \<Rightarrow> (nat \<times> Store \<times> Status) result \<times> pebble" where
  "startService E c disk = (case se_dialErr E of Some e \<Rightarrow> (Inl e, disk) | None \<Rightarrow>
     (case validateL1 E c of Inl e \<Rightarrow> (Inl e, disk) | Inr _ \<Rightarrow>
       (case Open (se_mkdirErr E) (se_openErr E) disk (serviceIdentity c) of
          (Inl e, disk') \<Rightarrow> (Inl e, disk')
        | (Inr db, disk') \<Rightarrow> (case initWorkers c db of
            (Inl e, db') \<Rightarrow> (Inl e, s_db (snd (Close db')))
          | (Inr (n, status), db') \<Rightarrow> (case se_listenErr E of
              Some e \<Rightarrow> (Inl e, s_db (snd (Close db')))
            | None \<Rightarrow> (Inr (n, db', status), s_db db'))))))"

section \<open>Serve\<close>

datatype phase = Serving | Stopping | Waiting | Returned | Closed

record Service =
  sl_phase :: phase
  sl_workers :: nat
  sl_cancelled :: bool
  sl_err :: "error option"
  sl_aborted :: bool

text \<open>What \<open>httpServer.Serve\<close> returns; \<open>http.ErrServerClosed\<close> is not an error of the service.\<close>

datatype served = ServerClosed | ServeFailed error

definition servedErr :: "served \<Rightarrow> error option" where
  "servedErr e = (case e of ServerClosed \<Rightarrow> None | ServeFailed e \<Rightarrow> Some e)"

text \<open>The error of \<open>Shutdown\<close>, and whether the connections were closed because of it.\<close>

definition shutdownHTTP :: "error option \<Rightarrow> error option \<times> bool" where
  "shutdownHTTP shut = (case shut of None \<Rightarrow> (None, False) | Some e \<Rightarrow> (Some e, True))"

inductive serve_step :: "Service \<Rightarrow> Service \<Rightarrow> bool" where
  worker: "0 < sl_workers s \<Longrightarrow> serve_step s (s\<lparr>sl_workers := sl_workers s - 1\<rparr>)"
| ended: "sl_phase s = Serving \<Longrightarrow> serve_step s (s\<lparr>sl_phase := Stopping\<rparr>)"
| served: "sl_phase s = Serving \<Longrightarrow> serve_step s (s\<lparr>sl_phase := Stopping, sl_err := servedErr e\<rparr>)"
| stop: "sl_phase s = Stopping \<Longrightarrow> serve_step s (s\<lparr>sl_phase := Waiting, sl_cancelled := True,
     sl_err := (if sl_err s = None then fst (shutdownHTTP shut) else sl_err s), sl_aborted := snd (shutdownHTTP shut)\<rparr>)"
| wait: "sl_phase s = Waiting \<Longrightarrow> sl_workers s = 0 \<Longrightarrow> serve_step s (s\<lparr>sl_phase := Returned\<rparr>)"
| close: "sl_phase s = Returned \<Longrightarrow> serve_step s (s\<lparr>sl_phase := Closed\<rparr>)"

definition serving :: "nat \<Rightarrow> Service" where
  "serving n = \<lparr>sl_phase = Serving, sl_workers = n, sl_cancelled = False, sl_err = None, sl_aborted = False\<rparr>"

inductive_cases serve_stepE: "serve_step s t"

section \<open>Health check and main\<close>

text \<open>The flags of \<open>healthcheck\<close>; the scheme and the host name of a URL; the status code of the response.\<close>

record probe =
  pr_url :: string
  pr_timeout :: int

record probe_env =
  pe_fraction :: fraction
  pe_url :: "string \<Rightarrow> (string \<times> string) result"
  pe_Get :: "string \<Rightarrow> nat result"

definition probeFlags :: "probe_env \<Rightarrow> probe flagset" where
  "probeFlags P = [(''url'', stringVar (\<lambda>v f. f\<lparr>pr_url := v\<rparr>)), (''timeout'', durationVar (pe_fraction P) (\<lambda>v f. f\<lparr>pr_timeout := v\<rparr>))]"

definition defaultProbe :: probe where
  "defaultProbe = \<lparr>pr_url = ''http://127.0.0.1:7878/healthz'', pr_timeout = 3 * 1000000000\<rparr>"

definition runHealthcheck :: "probe_env \<Rightarrow> string list \<Rightarrow> unit result" where
  "runHealthcheck P args = bindE (parseFlags (probeFlags P) args (defaultProbe, [])) (\<lambda>((f, visited), rest).
     if rest \<noteq> [] \<or> pr_timeout f \<le> 0
     then Inl (Err ErrOther ''healthcheck requires a positive --timeout and no positional arguments'')
     else case pe_url P (pr_url f) of Inl _ \<Rightarrow> Inl (Err ErrOther ''healthcheck --url must be an absolute HTTP(S) URL'')
       | Inr (scheme, hostname) \<Rightarrow>
          if (scheme \<noteq> ''http'' \<and> scheme \<noteq> ''https'') \<or> hostname = []
          then Inl (Err ErrOther ''healthcheck --url must be an absolute HTTP(S) URL'')
          else (case pe_Get P (pr_url f) of Inl e \<Rightarrow> Inl (Wrap ErrOther e)
            | Inr code \<Rightarrow> if code \<noteq> 200 then Inl (Err ErrOther ''healthcheck: unexpected HTTP status'') else Inr ()))"

text \<open>\<open>os.Args\<close> without the name of the program; \<open>serve\<close> is \<open>runService\<close>.\<close>

definition run :: "probe_env \<Rightarrow> config_env \<Rightarrow> (Config \<Rightarrow> unit result) \<Rightarrow> string list \<Rightarrow> unit result" where
  "run P C serve args = (case args of
     a # rest \<Rightarrow> if a = ''healthcheck'' then runHealthcheck P rest else bindE (Parse C args) serve
   | [] \<Rightarrow> bindE (Parse C args) serve)"

text \<open>The exit code of the process.\<close>

definition main :: "unit result \<Rightarrow> nat" where
  "main r = (case r of Inr _ \<Rightarrow> 0 | Inl e \<Rightarrow> if errors_is ErrHelp e then 0 else 1)"

text \<open>Asking for help is not a failure, whatever the flags before it.\<close>

lemma help_exits_zero:
  assumes "parseFlags (configFlags C) args (defaultFlags, []) = Inl e" "errors_is ErrHelp e" "args \<noteq> []" "hd args \<noteq> ''healthcheck''"
  shows "main (run P C serve args) = 0"
  using assms by (cases args) (simp_all add: run_def Parse_def main_def)

section \<open>The life of the service\<close>

inductive serve_reach :: "nat \<Rightarrow> Service \<Rightarrow> bool" for n where
  init: "serve_reach n (serving n)"
| step: "serve_reach n s \<Longrightarrow> serve_step s t \<Longrightarrow> serve_reach n t"

text \<open>The database is closed only when every worker has returned, and the workers are told to stop first.\<close>

lemma serve_safe:
  assumes "serve_reach n s"
  shows "sl_workers s \<le> n \<and> (sl_phase s \<in> {Returned, Closed} \<longrightarrow> sl_workers s = 0) \<and>
    (sl_phase s \<in> {Waiting, Returned, Closed} \<longleftrightarrow> sl_cancelled s) \<and> (sl_aborted s \<longrightarrow> sl_cancelled s \<and> sl_err s \<noteq> None)"
  using assms
proof (induction rule: serve_reach.induct)
  case init
  then show ?case by (simp add: serving_def)
next
  case (step s t)
  from step.hyps(2) step.IH show ?case
    by (elim serve_stepE) (auto simp: shutdownHTTP_def split: option.splits)
qed

section \<open>The state in which the service starts\<close>

lemma IsUint64_word: "IsUint64 i \<and> word_of_int i = w \<longleftrightarrow> i = uint (w :: u64)"
  by (auto simp: IsUint64_def uint_word_of_int_eq take_bit_int_eq_self intro: less_le_trans [OF uint_lt2p])

lemma validateL1_Inr:
  "validateL1 E c = Inr () \<longleftrightarrow> se_ChainID E = Inr (uint (c_L1ChainID c)) \<and> (\<exists>code. se_CodeAt E (c_AddressManager c) = Inr code \<and> code \<noteq> [])"
proof (cases "se_ChainID E")
  case (Inr i)
  then show ?thesis
    using IsUint64_word [of i "c_L1ChainID c"] by (auto simp: validateL1_def bindE_Inr split: if_splits)
qed (simp add: validateL1_def)

lemma Open_fresh:
  assumes "fault_free disk" "pb_data disk = []"
  shows "Open None None disk ident = (Inr \<lparr>s_db = disk\<lparr>pb_data := [(identityKey, IdentityDoc ident)]\<rparr>, s_closed = False\<rparr>,
    disk\<lparr>pb_data := [(identityKey, IdentityDoc ident)]\<rparr>)"
  using assms by (simp add: Open_def initIdentity_def Let_def)

lemma fresh_store:
  assumes "fault_free disk" "pb_data disk = []"
    and db: "db = \<lparr>s_db = disk\<lparr>pb_data := [(identityKey, IdentityDoc ident)]\<rparr>, s_closed = False\<rparr>"
  shows "fault_free (s_db db)" "dict_ok (pb_data (s_db db))" "queue_rep (s_db db) zero_State []"
    "blob_prefixed k \<Longrightarrow> dget (pb_data (s_db db)) k = None"
proof -
  show "fault_free (s_db db)" using assms(1) by (simp add: db fault_free_def)
  show "dict_ok (pb_data (s_db db))" by (simp add: db dict_ok_def)
  show "queue_rep (s_db db) zero_State []"
    by (simp add: db queue_rep_def queue_at_def state_of_def latest_of_def zero_State_def dict_ok_def)
  show "blob_prefixed k \<Longrightarrow> dget (pb_data (s_db db)) k = None" by (auto simp: db)
qed

lemma initWorkers_fresh:
  assumes "fault_free disk" "pb_data disk = []"
    and db: "db = \<lparr>s_db = disk\<lparr>pb_data := [(identityKey, IdentityDoc ident)]\<rparr>, s_closed = False\<rparr>"
  shows "\<exists>n status db'. initWorkers c db = (Inr (n, status), db') \<and> n = (if BlobEnabled c then 2 else 1) \<and>
    status_inv status \<and> ss_fatal status = None \<and> \<not> fst (Snapshot status) \<and> queue_rep (s_db db') zero_State [] \<and>
    (BlobEnabled c \<longrightarrow> blob_inv (s_db db') (stored_state zero_BlobState) empty_view \<and> dict_ok (pb_data (s_db db')))"
proof (cases "BlobEnabled c")
  case True
  have opn: "\<not> s_closed db" by (simp add: db)
  note f = fresh_store [OF assms]
  obtain db' where init: "InitBlob db (blobIdentity c) = (Inr (), db')" and keep: "keeps_rest (s_db db) (s_db db')"
    and inv: "blob_inv (s_db db') (stored_state zero_BlobState) empty_view"
    by (rule InitBlob_fresh [OF f(1) opn f(2)]) (auto intro: f(4))
  have "queue_rep (s_db db') zero_State []" using keeps_rest_queue [OF keep f(3)] .
  moreover have "dict_ok (pb_data (s_db db'))" using keep f(2) by (simp add: keeps_rest_def)
  ultimately show ?thesis using True init inv
    by (simp add: initWorkers_def EnableBlob_def status_inv_def zero_Status_def Snapshot_def)
next
  case False
  with fresh_store(3) [OF assms] show ?thesis
    by (simp add: initWorkers_def status_inv_def zero_Status_def Snapshot_def)
qed

lemma start_facts:
  assumes "fault_free disk" and "pb_data disk = []"
  shows "(\<exists>x. fst (startService E c disk) = Inr x) \<longleftrightarrow>
      se_dialErr E = None \<and> validateL1 E c = Inr () \<and> se_mkdirErr E = None \<and> se_openErr E = None \<and> se_listenErr E = None"
    and "fst (startService E c disk) = Inr (n, db, status) \<Longrightarrow>
      n = (if BlobEnabled c then 2 else 1) \<and> \<not> fst (Snapshot status) \<and> snd (startService E c disk) = s_db db \<and>
      sync_inv zero_State [] \<lparr>sy_Store = db, sy_Status = status, sy_bootstrap = None, sy_calls = k\<rparr> \<and>
      (BlobEnabled c \<longrightarrow> rep_at (stored_state zero_BlobState) (Some empty_view)
        \<lparr>by_Store = db, by_Status = status, by_Beacon = NewBeacon, by_bootstrap = None, by_backfills = [], by_calls = k\<rparr>)"
proof -
  let ?db = "\<lparr>s_db = disk\<lparr>pb_data := [(identityKey, IdentityDoc (serviceIdentity c))]\<rparr>, s_closed = False\<rparr>"
  from initWorkers_fresh [OF assms refl, of c] obtain n' status' db' where init: "initWorkers c ?db = (Inr (n', status'), db')"
    and ok: "n' = (if BlobEnabled c then 2 else 1)" "status_inv status'" "\<not> fst (Snapshot status')" "queue_rep (s_db db') zero_State []"
      "BlobEnabled c \<longrightarrow> blob_inv (s_db db') (stored_state zero_BlobState) empty_view \<and> dict_ok (pb_data (s_db db'))" by blast
  note opn = Open_fresh [OF assms, of "serviceIdentity c"]
  show "(\<exists>x. fst (startService E c disk) = Inr x) \<longleftrightarrow>
      se_dialErr E = None \<and> validateL1 E c = Inr () \<and> se_mkdirErr E = None \<and> se_openErr E = None \<and> se_listenErr E = None"
    using init opn
    by (cases "se_dialErr E"; cases "validateL1 E c"; cases "se_mkdirErr E"; cases "se_openErr E"; cases "se_listenErr E")
      (simp_all add: startService_def Open_def)
  show "n = (if BlobEnabled c then 2 else 1) \<and> \<not> fst (Snapshot status) \<and> snd (startService E c disk) = s_db db \<and>
      sync_inv zero_State [] \<lparr>sy_Store = db, sy_Status = status, sy_bootstrap = None, sy_calls = k\<rparr> \<and>
      (BlobEnabled c \<longrightarrow> rep_at (stored_state zero_BlobState) (Some empty_view)
        \<lparr>by_Store = db, by_Status = status, by_Beacon = NewBeacon, by_bootstrap = None, by_backfills = [], by_calls = k\<rparr>)"
    if run: "fst (startService E c disk) = Inr (n, db, status)"
  proof -
    from run init opn have "n = n' \<and> db = db' \<and> status = status' \<and> snd (startService E c disk) = s_db db'"
      by (cases "se_dialErr E"; cases "validateL1 E c"; cases "se_mkdirErr E"; cases "se_openErr E"; cases "se_listenErr E")
        (simp_all add: startService_def Open_def)
    with ok show ?thesis by (auto simp: sync_inv_def rep_at_def blob_inv_def)
  qed
qed

section \<open>Properties\<close>

text \<open>C40.
  On an empty database the service starts exactly if the L1 endpoint is reachable, has the
  configured chain and a contract at the AddressManager, and the file system and the listener
  work.  It then starts one worker, or two with Blob ingestion, is not ready, and is in a state
  in which the invariants of both synchronizers hold: an empty queue with the zero checkpoint
  and, with Blob ingestion, an empty view.\<close>

theorem startService_establishes:
  assumes "fault_free disk" and "pb_data disk = []"
  shows "((\<exists>x. fst (startService E c disk) = Inr x) \<longleftrightarrow> se_dialErr E = None \<and>
      (se_ChainID E = Inr (uint (c_L1ChainID c)) \<and> (\<exists>code. se_CodeAt E (c_AddressManager c) = Inr code \<and> code \<noteq> [])) \<and>
      se_mkdirErr E = None \<and> se_openErr E = None \<and> se_listenErr E = None) \<and>
    (\<forall>n db status k. fst (startService E c disk) = Inr (n, db, status) \<longrightarrow>
      n = (if BlobEnabled c then 2 else 1) \<and> \<not> fst (Snapshot status) \<and> snd (startService E c disk) = s_db db \<and>
      sync_inv zero_State [] \<lparr>sy_Store = db, sy_Status = status, sy_bootstrap = None, sy_calls = k\<rparr> \<and>
      (BlobEnabled c \<longrightarrow> rep_at (stored_state zero_BlobState) (Some empty_view)
        \<lparr>by_Store = db, by_Status = status, by_Beacon = NewBeacon, by_bootstrap = None, by_backfills = [], by_calls = k\<rparr>))"
  using start_facts [OF assms, of E c] unfolding validateL1_Inr by blast

definition sample_service :: service_env where
  "sample_service = \<lparr>se_dialErr = None, se_ChainID = Inr 1, se_CodeAt = (\<lambda>_. Inr [0]), se_mkdirErr = None, se_openErr = None, se_listenErr = None\<rparr>"

theorem startService_establishes_witness:
  "\<exists>x. fst (startService sample_service (sv_Config sample_server_env) (sample_pebble [])) = Inr x"
proof -
  have "fault_free (sample_pebble [])" "pb_data (sample_pebble []) = []" by (simp_all add: sample_pebble_def fault_free_def)
  from startService_establishes [OF this, of sample_service "sv_Config sample_server_env"] show ?thesis
    by (simp add: sample_service_def sample_server_env_def)
qed

end
