(* ===== verification/System.thy ===== *)
theory System
  imports Service
begin

text \<open>
  The composition.  The store and the status are what the components share; an action is one
  atomic step on them, a commit under the status lock or a call of a method of the status.
  Every run of a synchronizer and every request is an interleaving of its own actions with those
  of the others, the actions of each component satisfy what the others assume, and the whole
  service keeps its invariants from the start to the close of the database.
\<close>

section \<open>Atomic actions\<close>

type_synonym shared = "Store \<times> Status"

inductive deposit_action :: "shared \<Rightarrow> shared \<Rightarrow> bool" where
  commit: "commitIfHealthy ss (\<lambda>st. Commit st before after records) st = (r, st') \<Longrightarrow> deposit_action (st, ss) (st', ss)"
| set: "setStatus flag err ss = Some ss' \<Longrightarrow> deposit_action (st, ss) (st, ss')"
| wait: "deposit_action (st, ss) (st, snd (Done ss))"

inductive blob_action :: "shared \<Rightarrow> shared \<Rightarrow> bool" where
  commit: "CommitIfHealthy ss (\<lambda>st. CommitBlob st before after txs channels) st = (r, st') \<Longrightarrow>
     blob_action (st, ss) (st', ss)"
| ready: "blob_action (st, ss) (st, SetBlobReady flag ss)"
| fatal: "setStatus False (Some e) ss = Some ss' \<Longrightarrow> blob_action (st, ss) (st, ss')"
| wait: "blob_action (st, ss) (st, snd (Done ss))"

inductive server_action :: "shared \<Rightarrow> shared \<Rightarrow> bool" where
  fatal: "setStatus False (Some e) ss = Some ss' \<Longrightarrow> server_action (st, ss) (st, ss')"

text \<open>What an action can do: a commit on a healthy status, or a call of a method of the status.\<close>

lemma commitIfHealthy_run:
  "commitIfHealthy ss f st = (r, st') \<Longrightarrow> st' \<noteq> st \<Longrightarrow> ss_fatal ss = None \<and> f st = (r, st')"
  by (auto simp: commitIfHealthy_def split: option.splits)

lemma deposit_action_cases:
  assumes "deposit_action (st, ss) (st', ss')"
  shows "status_run ss ss' \<and> (st' = st \<or> ss' = ss \<and> ss_fatal ss = None \<and>
    (\<exists>before after rs. Commit st before after rs = (Inr (), st')))"
  using assms
proof cases
  case (commit before after records r)
  then show ?thesis
    using commitIfHealthy_run [OF commit(2)] Commit_Inl [of st before after records] status_run.same
    by (metis (full_types) old.unit.exhaust sum.exhaust)
next
  case (set flag err)
  then have "status_step ss (Some ss')" by (metis status_step.set)
  with set show ?thesis by (blast intro: status_run.intros)
next
  case wait
  then show ?thesis by (blast intro: status_run.intros status_step.intros)
qed

lemma blob_action_cases:
  assumes "blob_action (st, ss) (st', ss')"
  shows "status_run ss ss' \<and> (st' = st \<or> ss' = ss \<and> ss_fatal ss = None \<and>
    (\<exists>before after txs channels. CommitBlob st before after txs channels = (Inr (), st')))"
  using assms
proof cases
  case (commit before after txs channels r)
  have "r = Inr ()" if "st' \<noteq> st" "CommitBlob st before after txs channels = (r, st')"
    using CommitBlob_Inl [of st before after txs channels] that by (cases r) auto
  with commit commitIfHealthy_run [of ss "\<lambda>st. CommitBlob st before after txs channels" st r st']
  show ?thesis by (auto simp: CommitIfHealthy_def status_run.same)
next
  case (fatal e)
  then have "status_step ss (Some ss')" by (metis status_step.set)
  with fatal show ?thesis by (blast intro: status_run.intros)
qed (blast intro: status_run.intros status_step.intros)+

lemma server_action_cases:
  assumes "server_action (st, ss) (st', ss')"
  shows "status_run ss ss' \<and> st' = st"
  using assms
proof cases
  case (fatal e)
  then have "status_step ss (Some ss')" by (metis status_step.set)
  with fatal show ?thesis by (blast intro: status_run.intros)
qed

section \<open>Runs are interleavings\<close>

text \<open>Actions \<open>A\<close> of a component, mixed with the actions of an environment.\<close>

definition mixes :: "(shared \<Rightarrow> shared \<Rightarrow> bool) \<Rightarrow> (nat \<Rightarrow> shared \<Rightarrow> shared) \<Rightarrow> shared \<Rightarrow> shared \<Rightarrow> bool" where
  "mixes A others x y \<longleftrightarrow> (\<forall>B. (\<forall>n z. B\<^sup>*\<^sup>* z (others n z)) \<longrightarrow> (sup A B)\<^sup>*\<^sup>* x y)"

lemma mixes_refl: "mixes A others x x"
  by (simp add: mixes_def)

lemma mixes_trans: "mixes A others x y \<Longrightarrow> mixes A others y z \<Longrightarrow> mixes A others x z"
  unfolding mixes_def by (meson rtranclp_trans)

lemma mixes_own: "A x y \<Longrightarrow> mixes A others x y"
  by (auto simp: mixes_def)

lemma mixes_others: "mixes A others x (others n x)"
proof -
  have "(sup A B)\<^sup>*\<^sup>* x (others n x)" if "\<forall>n z. B\<^sup>*\<^sup>* z (others n z)" for B
    using that rtranclp_mono [of B "sup A B"] by (metis predicate2D sup_ge2)
  then show ?thesis by (simp add: mixes_def)
qed

definition syncer_mixes :: "ingest_env \<Rightarrow> Syncer \<Rightarrow> Syncer \<Rightarrow> bool" where
  "syncer_mixes E s t \<longleftrightarrow> mixes deposit_action (en_others E) (sy_Store s, sy_Status s) (sy_Store t, sy_Status t)"

lemma commitStore_action:
  "syncer_mixes E s (snd (commitStore E before after records k s))"
proof (cases "en_ctxErr E k")
  case (Some e)
  then show ?thesis
    by (simp add: syncer_mixes_def commitStore_def storeM_def commitIfHealthy_def mixes_refl split: option.split)
next
  case None
  obtain r st where c: "commitIfHealthy (sy_Status s) (\<lambda>st. Commit st before after records) (sy_Store s) = (r, st)" by force
  with None have "snd (commitStore E before after records k s) = s\<lparr>sy_Store := st\<rparr>"
    by (auto simp: commitStore_def storeM_def commitIfHealthy_def wrapIntegrity_def split: option.splits prod.splits)
  with deposit_action.commit [OF c] show ?thesis by (simp add: syncer_mixes_def mixes_own)
qed

interpretation dm: sync_steps "syncer_mixes E" E for E
proof unfold_locales
  show "reflp (syncer_mixes E)" by (simp add: reflp_def syncer_mixes_def mixes_refl)
  show "transp (syncer_mixes E)" unfolding transp_def syncer_mixes_def using mixes_trans by blast
  show "syncer_mixes E s (yielded E s)" for s
    using mixes_others [of deposit_action "en_others E" "(sy_Store s, sy_Status s)" "sy_calls s"]
    by (cases "en_others E (sy_calls s) (sy_Store s, sy_Status s)") (simp add: syncer_mixes_def yielded_def)
  show "preserves (syncer_mixes E) (setM b e)" for b e
    by (auto simp: preserves_def syncer_mixes_def setM_def mixes_refl split: option.split intro: mixes_own deposit_action.set)
  show "preserves (syncer_mixes E) (setBootstrap m)" for m
    by (simp add: preserves_def syncer_mixes_def setBootstrap_def modifyM_def mixes_refl)
  show "preserves (syncer_mixes E) (commitStore E before after records k)" for before after records k
    by (simp add: preserves_def commitStore_action)
qed

definition blob_mixes :: "blob_env \<Rightarrow> BlobSyncer \<Rightarrow> BlobSyncer \<Rightarrow> bool" where
  "blob_mixes E s t \<longleftrightarrow> mixes blob_action (bx_others E) (by_Store s, by_Status s) (by_Store t, by_Status t)"

lemma commitBlob_action: "blob_mixes E s (snd (commitBlob E before after txs channels s))"
proof (cases "bx_ctxErr E (by_calls s)")
  case (Some e)
  then show ?thesis
    by (simp add: blob_mixes_def commitBlob_def CommitIfHealthy_def commitIfHealthy_def mixes_refl split: option.split)
next
  case None
  obtain r st where c: "CommitIfHealthy (by_Status s) (\<lambda>st. CommitBlob st before after txs channels) (by_Store s) = (r, st)" by force
  with None have "snd (commitBlob E before after txs channels s) = s\<lparr>by_Store := st\<rparr>"
    by (auto simp: commitBlob_def CommitIfHealthy_def commitIfHealthy_def wrapIntegrity_def split: option.splits prod.splits)
  with blob_action.commit [OF c] show ?thesis by (simp add: blob_mixes_def mixes_own)
qed

interpretation bm: blob_steps "blob_mixes E" E for E
proof unfold_locales
  show "reflp (blob_mixes E)" by (simp add: reflp_def blob_mixes_def mixes_refl)
  show "transp (blob_mixes E)" unfolding transp_def blob_mixes_def using mixes_trans by blast
  show "blob_mixes E s (blob_yielded E s)" for s
    using mixes_others [of "blob_action" "bx_others E" "(by_Store s, by_Status s)" "by_calls s"]
    by (cases "bx_others E (by_calls s) (by_Store s, by_Status s)") (simp add: blob_mixes_def blob_yielded_def)
  show "blob_mixes E s (s\<lparr>by_Beacon := b\<rparr>)" for s b by (simp add: blob_mixes_def mixes_refl)
  show "preserves (blob_mixes E) (setBackfills bs)" "preserves (blob_mixes E) (setBlobBootstrap bo)" for bs bo
    by (simp_all add: preserves_def blob_mixes_def setBackfills_def setBlobBootstrap_def modifyM_def mixes_refl)
  show "preserves (blob_mixes E) (setBlobReadyM flag)" for flag
    by (simp add: preserves_def blob_mixes_def setBlobReadyM_def modifyM_def mixes_own blob_action.ready)
  show "preserves (blob_mixes E) (commitBlob E before after txs channels)" for before after txs channels
    by (simp add: preserves_def commitBlob_action)
  show "preserves (blob_mixes E) (setFatalM e)" for e
    by (auto simp: preserves_def blob_mixes_def setFatalM_def mixes_refl split: option.split intro: mixes_own blob_action.fatal)
qed

text \<open>A request: what other goroutines do, and the fatal error of a failed read.\<close>

locale server_kept = kept R for R :: "Server \<Rightarrow> Server \<Rightarrow> bool" +
  fixes E :: server_env
  assumes others: "R s (yieldS E s)"
    and fatal: "R s (snd (fail e s))"
begin

lemma same: "R s s"
  using refl by (simp add: reflp_def)

lemma contextAt_part: "R s (snd (contextAt E requested tip s))"
  using same others by (auto simp: contextAt_def Let_def split: sum.splits option.splits)

lemma l1Context_part: "R s (snd (l1Context E pv s))"
proof -
  have "R s (snd (contextAt E requested tip (yieldS E s)))" for requested tip
    using others contextAt_part trans by (blast dest: transpD)
  with same others show ?thesis by (auto simp: l1Context_def Let_def split: sum.splits option.splits)
qed

lemma handle_part: "R s (snd (handle E ep pv index s))"
  using same fatal l1Context_part
  by (cases ep) (auto simp: handle_def enqueue_def highestL1_def syncing_def transaction_def block_def split: sum.splits)

lemma dataHandler_part: "R s (snd (dataHandler E ep pv r s))"
proof -
  have "R s (snd (handle E ep pv index (yieldS E s)))" for index
    using others handle_part trans by (blast dest: transpD)
  then have "handle E ep pv index (yieldS E s) = (a, s') \<Longrightarrow> R s s'" for index a s' by (metis snd_conv)
  with same show ?thesis by (auto simp: dataHandler_def split: option.split sum.split prod.split)
qed

lemma ServeHTTP_part: "R s (snd (ServeHTTP E r s))"
  using same dataHandler_part by (auto simp: ServeHTTP_def split: option.splits target.splits)

end

definition server_mixes :: "server_env \<Rightarrow> Server \<Rightarrow> Server \<Rightarrow> bool" where
  "server_mixes E s t \<longleftrightarrow> mixes server_action (sv_others E) (sr_Store s, sr_Status s) (sr_Store t, sr_Status t)"

interpretation sm: server_kept "server_mixes E" E for E
proof unfold_locales
  show "reflp (server_mixes E)" by (simp add: reflp_def server_mixes_def mixes_refl)
  show "transp (server_mixes E)" unfolding transp_def server_mixes_def using mixes_trans by blast
  show "server_mixes E s (yieldS E s)" for s
    using mixes_others [of server_action "sv_others E" "(sr_Store s, sr_Status s)" "sr_calls s"]
    by (cases "sv_others E (sr_calls s) (sr_Store s, sr_Status s)") (simp add: server_mixes_def yieldS_def)
  show "server_mixes E s (snd (fail e s))" for s e
    by (auto simp: server_mixes_def fail_def mixes_refl split: option.split intro: mixes_own server_action.fatal)
qed

section \<open>What each component promises the others\<close>

lemma commit_keeps_blob:
  assumes "Commit st before after rs = (Inr (), st')"
  shows "keeps_blob (s_db st) (s_db st')"
proof -
  from assms obtain b latest where loop: "foldE commitRecord rs (s_db st, st_Latest before) = Inr (b, latest)"
    and st': "st' = st\<lparr>s_db := b\<lparr>pb_data := dput stateKey (StateDoc (after\<lparr>st_Latest := latest\<rparr>)) (pb_data b)\<rparr>\<rparr>"
    by (rule Commit_Inr)
  have "dict_ok (pb_data (s_db st')) \<and> dget (pb_data (s_db st')) k = dget (pb_data (s_db st)) k"
    if "dict_ok (pb_data (s_db st))" "blob_prefixed k" for k
    using commitRecords_frame [OF loop that(1)] Commit_frame [OF assms that(1) deposit_key_blob [OF that(2)]] st'
    by (simp add: dict_simps)
  moreover have "dict_ok (pb_data (s_db st'))" if "dict_ok (pb_data (s_db st))"
    using commitRecords_frame [OF loop that] st' by (simp add: dict_simps)
  ultimately show ?thesis by (simp add: keeps_blob_def)
qed

text \<open>The parts of the database and of the status that an action leaves to the others.\<close>

definition spares_deposits :: "shared \<Rightarrow> shared \<Rightarrow> bool" where
  "spares_deposits x y \<longleftrightarrow> keeps_rest (s_db (fst x)) (s_db (fst y)) \<and> status_run (snd x) (snd y)"

definition spares_blobs :: "shared \<Rightarrow> shared \<Rightarrow> bool" where
  "spares_blobs x y \<longleftrightarrow> keeps_blob (s_db (fst x)) (s_db (fst y)) \<and> status_run (snd x) (snd y)"

lemma status_run_trans: "status_run s t \<Longrightarrow> status_run t u \<Longrightarrow> status_run s u"
  by (induction rule: status_run.induct) (auto intro: status_run.intros)

lemma keeps_rest_dict: "(dict_ok (pb_data a) \<Longrightarrow> keeps_rest a b) \<Longrightarrow> keeps_rest a b"
  by (auto simp: keeps_rest_def)

lemma keeps_blob_refl: "keeps_blob a a"
  by (simp add: keeps_blob_def)

lemma keeps_blob_trans: "keeps_blob a b \<Longrightarrow> keeps_blob b c \<Longrightarrow> keeps_blob a c"
  by (simp add: keeps_blob_def)

lemma blob_action_spares: "blob_action x y \<Longrightarrow> spares_deposits x y"
proof -
  assume a: "blob_action x y"
  obtain st ss st' ss' where xy: "x = (st, ss)" "y = (st', ss')" by force
  from blob_action_cases [OF a [unfolded xy]]
  show ?thesis unfolding xy spares_deposits_def
    by (auto intro: keeps_rest_refl keeps_rest_dict dest: CommitBlob_rest)
qed

lemma deposit_action_spares: "deposit_action x y \<Longrightarrow> spares_blobs x y"
proof -
  assume a: "deposit_action x y"
  obtain st ss st' ss' where xy: "x = (st, ss)" "y = (st', ss')" by force
  from deposit_action_cases [OF a [unfolded xy]]
  show ?thesis unfolding xy spares_blobs_def by (auto intro: keeps_blob_refl commit_keeps_blob)
qed

lemma server_action_spares: "server_action x y \<Longrightarrow> spares_deposits x y \<and> spares_blobs x y"
proof -
  assume a: "server_action x y"
  obtain st ss st' ss' where xy: "x = (st, ss)" "y = (st', ss')" by force
  from server_action_cases [OF a [unfolded xy]]
  show ?thesis unfolding xy by (simp add: spares_deposits_def spares_blobs_def keeps_rest_refl keeps_blob_refl)
qed

lemma many:
  assumes "(sup A B)\<^sup>*\<^sup>* x y" and "\<And>x y. A x y \<Longrightarrow> Q x y" and "\<And>x y. B x y \<Longrightarrow> Q x y"
    and "\<And>x. Q x x" and "\<And>x y z. Q x y \<Longrightarrow> Q y z \<Longrightarrow> Q x z"
  shows "Q x y"
  using assms(1)
proof (induction rule: rtranclp_induct)
  case base
  show ?case by (rule assms(4))
next
  case (step y z)
  from step.hyps(2) have "Q y z" by (rule sup2E) (auto intro: assms(2,3))
  with step.IH show ?case by (rule assms(5))
qed

lemma spares_deposits_many: "(sup blob_action server_action)\<^sup>*\<^sup>* x y \<Longrightarrow> spares_deposits x y"
  by (erule many) (auto simp: spares_deposits_def keeps_rest_refl status_run.same
      dest: blob_action_spares server_action_spares intro: keeps_rest_trans status_run_trans)

lemma spares_blobs_many: "(sup deposit_action server_action)\<^sup>*\<^sup>* x y \<Longrightarrow> spares_blobs x y"
  by (erule many) (auto simp: spares_blobs_def keeps_blob_refl status_run.same
      dest: deposit_action_spares server_action_spares intro: keeps_blob_trans status_run_trans)

lemma status_many: "(sup deposit_action blob_action)\<^sup>*\<^sup>* x y \<Longrightarrow> status_run (snd x) (snd y)"
  by (erule many) (auto simp: spares_deposits_def spares_blobs_def status_run.same
      dest!: deposit_action_spares blob_action_spares intro: status_run_trans)

section \<open>The whole service\<close>

text \<open>
  The life of the process together with the shared state.  A synchronizer acts as long as a
  worker has not returned, a request at any time, even after the shutdown was aborted.  A status
  call that panics would not be a step; there is none, because in a reachable state every call of
  \<open>Set\<close> returns (\<open>system_no_panic\<close>).
\<close>

inductive system_step :: "Config \<Rightarrow> Service \<times> shared \<Rightarrow> Service \<times> shared \<Rightarrow> bool" for c where
  deposit: "0 < sl_workers s \<Longrightarrow> deposit_action x y \<Longrightarrow> system_step c (s, x) (s, y)"
| blob: "0 < sl_workers s \<Longrightarrow> BlobEnabled c \<Longrightarrow> blob_action x y \<Longrightarrow> system_step c (s, x) (s, y)"
| request: "server_action x y \<Longrightarrow> system_step c (s, x) (s, y)"
| life: "serve_step s t \<Longrightarrow> sl_phase t \<noteq> Closed \<Longrightarrow> system_step c (s, x) (t, x)"
| closing: "sl_phase s = Returned \<Longrightarrow> system_step c (s, (st, ss)) (s\<lparr>sl_phase := Closed\<rparr>, (snd (Close st), ss))"

text \<open>What one step may change: the queue grows at its end, and a fatal error freezes the database.\<close>

definition progresses :: "shared \<Rightarrow> shared \<Rightarrow> bool" where
  "progresses x y \<longleftrightarrow> (\<forall>st q. queue_rep (s_db (fst x)) st q \<longrightarrow> (\<exists>st' rest. queue_rep (s_db (fst y)) st' (q @ rest))) \<and>
     (status_inv (snd x) \<longrightarrow> status_inv (snd y) \<and>
       (\<forall>e. ss_fatal (snd x) = Some e \<longrightarrow> ss_fatal (snd y) = Some e \<and> s_db (fst y) = s_db (fst x)))"

lemma progresses_refl: "progresses x x"
  unfolding progresses_def by (metis append_Nil2)

lemma progresses_trans: "progresses x y \<Longrightarrow> progresses y z \<Longrightarrow> progresses x z"
  unfolding progresses_def by (metis append_assoc)

lemma progressesD:
  assumes "progresses (st, ss) (st', ss')" "queue_rep (s_db st) a q" "status_inv ss"
  shows "\<exists>a q. queue_rep (s_db st') a q" "status_inv ss'"
  using assms unfolding progresses_def fst_conv snd_conv by blast+

lemma progresses_status: "status_run ss ss' \<Longrightarrow> s_db st' = s_db st \<Longrightarrow> progresses (st, ss) (st', ss')"
  unfolding progresses_def using status_run_fatal status_run_inv by (metis append_Nil2 fst_conv snd_conv)

lemma progresses_healthy:
  assumes "ss_fatal ss = None" and "\<And>a q. queue_rep (s_db st) a q \<Longrightarrow> \<exists>a' rest. queue_rep (s_db st') a' (q @ rest)"
  shows "progresses (st, ss) (st', ss)"
  using assms by (simp add: progresses_def)

lemma deposit_action_progresses: "deposit_action x y \<Longrightarrow> progresses x y"
proof -
  assume a: "deposit_action x y"
  obtain st ss st' ss' where xy: "x = (st, ss)" "y = (st', ss')" by force
  from deposit_action_cases [OF a [unfolded xy]] consider "status_run ss ss'" "st' = st"
    | before after rs where "ss' = ss" "ss_fatal ss = None" "Commit st before after rs = (Inr (), st')" by blast
  then show ?thesis
  proof cases
    case 2
    have "\<exists>a' rest. queue_rep (s_db st') a' (q @ rest)" if "queue_rep (s_db st) b q" for b q
      using Commit_sound [OF that 2(3)] queue_append_extends by metis
    with 2 show ?thesis unfolding xy by (auto intro: progresses_healthy)
  qed (simp add: xy progresses_status)
qed

lemma blob_action_progresses: "dict_ok (pb_data (s_db (fst x))) \<Longrightarrow> blob_action x y \<Longrightarrow> progresses x y"
proof -
  assume ok: "dict_ok (pb_data (s_db (fst x)))" and a: "blob_action x y"
  obtain st ss st' ss' where xy: "x = (st, ss)" "y = (st', ss')" by force
  from blob_action_cases [OF a [unfolded xy]] consider "status_run ss ss'" "st' = st"
    | before after txs chs where "ss' = ss" "ss_fatal ss = None" "CommitBlob st before after txs chs = (Inr (), st')" by blast
  then show ?thesis
  proof cases
    case 2
    have "keeps_rest (s_db st) (s_db st')" using CommitBlob_rest [OF _ 2(3)] ok xy by simp
    then have "queue_rep (s_db st') b q" if "queue_rep (s_db st) b q" for b q
      using that by (rule keeps_rest_queue)
    then have "\<exists>a' rest. queue_rep (s_db st') a' (q @ rest)" if "queue_rep (s_db st) b q" for b q
      using that by (metis append_Nil2)
    with 2 show ?thesis unfolding xy by (auto intro: progresses_healthy)
  qed (simp add: xy progresses_status)
qed

lemma server_action_progresses: "server_action x y \<Longrightarrow> progresses x y"
  by (cases x; cases y) (auto dest!: server_action_cases intro: progresses_status)

text \<open>The Blob namespace holds a checkpoint and represents a view.\<close>

definition known_at :: "pebble \<Rightarrow> bool" where
  "known_at db \<longleftrightarrow> (\<exists>b V. db_at b (Some V) db)"

lemma known_at_keeps: "keeps_blob db db' \<Longrightarrow> known_at db \<Longrightarrow> known_at db'"
  unfolding known_at_def using keeps_blob_db_at by blast

lemma known_at_commit:
  assumes "CommitBlob st before after txs chs = (Inr (), st')" "known_at (s_db st)"
  shows "known_at (s_db st')"
proof -
  from assms(2) obtain b V where at: "db_at b (Some V) (s_db st)" unfolding known_at_def by blast
  from CommitBlob_at [OF assms(1) at] obtain b' Vo' where "view_after (bst_Cutoff after) txs chs (Some V) Vo'" "db_at b' Vo' (s_db st')" by blast
  then show ?thesis unfolding known_at_def view_after_def by (metis option.exhaust)
qed

text \<open>The invariant of the service.\<close>

definition system_inv :: "nat \<Rightarrow> Config \<Rightarrow> Service \<times> shared \<Rightarrow> bool" where
  "system_inv n c = (\<lambda>(s, (st, ss)). serve_reach n s \<and> status_inv ss \<and> (s_closed st \<longleftrightarrow> sl_phase s = Closed) \<and>
     (\<exists>a q. queue_rep (s_db st) a q) \<and> (BlobEnabled c \<longrightarrow> known_at (s_db st)))"

lemma queue_dict_ok: "queue_rep db a q \<Longrightarrow> dict_ok (pb_data db)"
  by (simp add: queue_rep_def queue_at_def)

lemma system_inv_deposit:
  assumes inv: "system_inv n c (s, x)" and act: "deposit_action x y"
  shows "system_inv n c (s, y)"
proof -
  obtain st ss st' ss' where xy: "x = (st, ss)" "y = (st', ss')" by force
  have closed: "s_closed st' = s_closed st"
    using deposit_action_cases [OF act [unfolded xy]] Commit_Inr by fastforce
  have blob: "known_at (s_db st) \<Longrightarrow> known_at (s_db st')"
    using deposit_action_spares [OF act] by (auto simp: xy spares_blobs_def intro: known_at_keeps)
  from inv obtain a q where "queue_rep (s_db st) a q" "status_inv ss" by (auto simp: system_inv_def xy)
  from progressesD [OF deposit_action_progresses [OF act, unfolded xy] this]
  have "\<exists>a q. queue_rep (s_db st') a q" "status_inv ss'" by blast+
  with inv closed blob show ?thesis by (simp add: system_inv_def xy)
qed

lemma system_inv_request:
  assumes inv: "system_inv n c (s, x)" and act: "server_action x y"
  shows "system_inv n c (s, y)"
proof -
  obtain st ss st' ss' where xy: "x = (st, ss)" "y = (st', ss')" by force
  from server_action_cases [OF act [unfolded xy]] inv status_run_inv show ?thesis
    by (auto simp: system_inv_def xy)
qed

lemma system_inv_blob:
  assumes inv: "system_inv n c (s, x)" and act: "blob_action x y" and on: "BlobEnabled c"
  shows "system_inv n c (s, y)"
proof -
  obtain st ss st' ss' where xy: "x = (st, ss)" "y = (st', ss')" by force
  from inv on obtain a q where rep: "queue_rep (s_db st) a q" "status_inv ss" and known: "known_at (s_db st)"
    by (auto simp: system_inv_def xy)
  have "dict_ok (pb_data (s_db (fst x)))" using queue_dict_ok [OF rep(1)] xy by simp
  from progressesD [OF blob_action_progresses [OF this act, unfolded xy] rep]
  have "\<exists>a q. queue_rep (s_db st') a q" "status_inv ss'" by blast+
  moreover have "known_at (s_db st') \<and> s_closed st' = s_closed st"
    using blob_action_cases [OF act [unfolded xy]]
  proof (elim conjE disjE exE)
    fix before after txs chs
    assume run: "CommitBlob st before after txs chs = (Inr (), st')"
    have "s_closed st' = s_closed st" by (subst CommitBlob_Inr(6) [OF run]) simp
    with known_at_commit [OF run] known show ?thesis by blast
  qed (use known in simp)
  ultimately show ?thesis using inv on by (simp add: system_inv_def xy)
qed

lemma system_inv_step: "system_step c w w' \<Longrightarrow> system_inv n c w \<Longrightarrow> system_inv n c w'"
proof (induction rule: system_step.induct)
  case (life s t x)
  obtain st ss where x: "x = (st, ss)" by force
  have "sl_phase s \<noteq> Closed" using life by (auto elim!: serve_stepE)
  with life show ?case by (auto simp: system_inv_def x intro: serve_reach.step)
next
  case (closing s st ss)
  have "serve_reach n (s\<lparr>sl_phase := Closed\<rparr>)"
    using closing serve_step.close by (auto simp: system_inv_def intro: serve_reach.step)
  moreover have "s_db (snd (Close st)) = s_db st" "s_closed (snd (Close st))" by (simp_all add: Close_def)
  ultimately show ?case using closing by (simp add: system_inv_def)
qed (auto intro: system_inv_deposit system_inv_blob system_inv_request)

lemma system_inv_run: "(system_step c)\<^sup>*\<^sup>* w w' \<Longrightarrow> system_inv n c w \<Longrightarrow> system_inv n c w'"
  by (induction rule: rtranclp_induct) (auto intro: system_inv_step)

lemma system_no_panic: "system_inv n c (s, (st, ss)) \<Longrightarrow> \<exists>ss'. setStatus flag err ss = Some ss'"
  using status_inv_set by (fastforce simp: system_inv_def)

lemma system_progresses_step:
  "system_step c w w' \<Longrightarrow> system_inv n c w \<Longrightarrow> progresses (snd w) (snd w')"
proof (induction rule: system_step.induct)
  case (blob s x y)
  then have "dict_ok (pb_data (s_db (fst x)))" by (cases x) (auto simp: system_inv_def dest: queue_dict_ok)
  with blob show ?case by (auto intro: blob_action_progresses)
next
  case (closing s st ss)
  have "s_db (snd (Close st)) = s_db st" by (simp add: Close_def)
  then show ?case by (simp add: progresses_status status_run.same)
qed (simp_all add: deposit_action_progresses server_action_progresses progresses_refl)

lemma system_progresses:
  "(system_step c)\<^sup>*\<^sup>* w w' \<Longrightarrow> system_inv n c w \<Longrightarrow> progresses (snd w) (snd w')"
proof (induction rule: rtranclp_induct)
  case base
  then show ?case by (simp add: progresses_refl)
next
  case (step y z)
  from system_inv_run [OF step.hyps(1) step.prems] have "system_inv n c y" .
  from system_progresses_step [OF step.hyps(2) this] step.IH [OF step.prems] show ?case
    by (rule progresses_trans [rotated])
qed

lemma start_open:
  assumes "fault_free disk" "pb_data disk = []" "fst (startService E c disk) = Inr (n, db, status)"
  shows "\<not> s_closed db"
proof -
  let ?db = "\<lparr>s_db = disk\<lparr>pb_data := [(identityKey, IdentityDoc (serviceIdentity c))]\<rparr>, s_closed = False\<rparr>"
  have "\<not> s_closed (snd (initWorkers c ?db))"
    by (auto simp: initWorkers_def InitBlob_def Let_def split: sum.splits option.splits prod.splits)
  with Open_fresh [OF assms(1,2), of "serviceIdentity c"] assms(3) show ?thesis
    by (cases "se_dialErr E"; cases "validateL1 E c"; cases "se_mkdirErr E"; cases "se_openErr E"; cases "se_listenErr E")
      (auto simp: startService_def Open_def split: sum.splits prod.splits)
qed

lemma system_inv_start:
  assumes "fault_free disk" "pb_data disk = []" "fst (startService E c disk) = Inr (n, db, status)"
  shows "system_inv n c (serving n, (db, status))"
proof -
  from start_facts(2) [OF assms, of undefined]
  have sync: "queue_rep (s_db db) zero_State []" "status_inv status"
    and blob: "BlobEnabled c \<Longrightarrow> db_at (stored_state zero_BlobState) (Some empty_view) (s_db db)"
    by (auto simp: sync_inv_def rep_at_db)
  have "\<not> s_closed db" using start_open [OF assms] .
  moreover have "known_at (s_db db)" if "BlobEnabled c" using blob [OF that] unfolding known_at_def by blast
  ultimately show ?thesis using sync serve_reach.init by (auto simp: system_inv_def serving_def)
qed

end
