(* ===== verification/Pipeline.thy ===== *)
theory Pipeline
  imports Beacon
begin

text \<open>
  A channel on its whole way: the publisher writes spans, compresses them, cuts the result into
  frames and packs the frames into Blobs; the Beacon node serves these Blobs, \<open>matchBlobs\<close>
  of \<open>beacon.go\<close> turns them into frames and \<open>DecodeChannels\<close> of
  \<open>frames.go\<close> and \<open>decodeChannel\<close> of \<open>span.go\<close> turn the frames into blocks.
  The publisher's side is the reference (there is no code of it under \<open>src\<close> but the formats
  that the decoders accept); compression and RLP stay parameters.
\<close>

section \<open>The publisher\<close>

text \<open>The RLP strings of a payload, one after the other.\<close>

primrec rlpStrings :: "span_env \<Rightarrow> bytes list \<Rightarrow> bytes \<Rightarrow> bool" where
  "rlpStrings E [] p \<longleftrightarrow> cx_Bytes E p = RlpEOF"
| "rlpStrings E (x # xs) p \<longleftrightarrow> (case cx_Bytes E p of RlpString y rest \<Rightarrow> y = x \<and> rlpStrings E xs rest | _ \<Rightarrow> False)"

definition unpacked_data :: "span_env \<Rightarrow> bytes \<Rightarrow> (bytes \<times> bool) option" where
  "unpacked_data E data = (if hd data = 1 then Some (cx_brotli E (tl data)) else cx_zlib E data)"

text \<open>Compressed data that contains the spans, each behind the batch type.\<close>

definition compresses :: "span_env \<Rightarrow> spanData list \<Rightarrow> bytes \<Rightarrow> bool" where
  "compresses E spans data \<longleftrightarrow> data \<noteq> [] \<and> length data \<le> MaxChannelBytes \<and>
     (case unpacked_data E data of None \<Rightarrow> False
      | Some (payload, ok) \<Rightarrow> ok \<and> length payload \<le> MaxChannelBytes \<and>
          rlpStrings E (map (\<lambda>s. 1 # encodeSpan s) spans) payload)"

text \<open>The frames of a channel whose data is cut into \<open>chunks\<close>.\<close>

definition cutFrame :: "128 word \<Rightarrow> bytes list \<Rightarrow> nat \<Rightarrow> Frame" where
  "cutFrame i chunks k = \<lparr>fr_ID = i, fr_Number = word_of_nat k, fr_Last = (Suc k = length chunks), fr_Data = chunks ! k\<rparr>"

definition cutFrames :: "128 word \<Rightarrow> bytes list \<Rightarrow> Frame list" where
  "cutFrames i chunks = map (cutFrame i chunks) [0 ..< length chunks]"

definition pack :: "Frame list \<Rightarrow> bytes" where
  "pack fs = encodeBlob ([0] @ concat (map encodeFrame fs))"

text \<open>
  The document of the Beacon node for a transaction: the Blobs with the hashes and frames of
  \<open>parts\<close>, in any order.
\<close>

definition served :: "beacon_env \<Rightarrow> string \<Rightarrow> (hash \<times> Frame list) list \<Rightarrow> bool" where
  "served D d parts \<longleftrightarrow> distinct (map fst parts) \<and>
     list_all (\<lambda>(h, fs). bn_versionedHash D (pack fs) = Some h \<and> carries (pack fs) fs) parts \<and>
     (case bn_blobs D d of None \<Rightarrow> False | Some raws \<Rightarrow> mset raws = mset (map (\<lambda>p. pack (snd p)) parts))"

section \<open>Spans\<close>

abbreviation span_blocks :: "span_env \<Rightarrow> u64 \<Rightarrow> u64 \<Rightarrow> spanData \<Rightarrow> Block list result" where
  "span_blocks E batchIndex chainID s \<equiv> blocks_at E (sd_start s) batchIndex chainID (sd_txs s) 0 0 (sd_cols s)"

lemma decodeSpans_strings:
  assumes "bytes_consume E"
  shows "rlpStrings E (map (\<lambda>s. 1 # encodeSpan s) spans) p \<Longrightarrow> list_all (span_ok E) spans \<Longrightarrow> length p < fuel \<Longrightarrow>
    decodeSpans E batchIndex chainID fuel p = bindE (mapE (span_blocks E batchIndex chainID) spans) (\<lambda>runs. Inr (concat runs))"
proof (induction spans arbitrary: p fuel)
  case Nil
  then show ?case by (cases fuel) simp_all
next
  case (Cons s spans)
  from Cons.prems obtain rest where b: "cx_Bytes E p = RlpString (1 # encodeSpan s) rest"
    and r: "rlpStrings E (map (\<lambda>s. 1 # encodeSpan s) spans) rest"
    by (auto split: rlpNext.splits)
  obtain n where n: "fuel = Suc n" using Cons.prems(3) by (cases fuel) simp_all
  have "length rest < length p" using assms b by (simp add: bytes_consume_def)
  then have l: "length rest < n" using Cons.prems(3) n by simp
  have ok: "span_ok E s" "list_all (span_ok E) spans" using Cons.prems(2) by simp_all
  show ?case
    using Cons.IH [OF r ok(2) l] decodeSpan_encoded [OF ok(1)] by (simp add: n b bindE_assoc)
qed

lemma decodeChannel_compressed:
  assumes "bytes_consume E" "compresses E spans data" "list_all (span_ok E) spans"
  shows "decodeChannel E data batchIndex chainID = bindE (mapE (span_blocks E batchIndex chainID) spans) (\<lambda>runs. Inr (concat runs))"
proof -
  from assms(2) obtain p where p: "unpacked_data E data = Some (p, True)" "length p \<le> MaxChannelBytes"
      "rlpStrings E (map (\<lambda>s. 1 # encodeSpan s) spans) p" and data: "data \<noteq> []"
    by (auto simp: compresses_def split: option.splits)
  have "decodeChannel E data batchIndex chainID = decodeSpans E batchIndex chainID (Suc (length p)) p"
    unfolding decodeChannel_def p(1) [unfolded unpacked_data_def] using data p(2) by simp
  with decodeSpans_strings [OF assms(1) p(3) assms(3), of "Suc (length p)"] show ?thesis by simp
qed

lemma blocks_at_length: "blocks_at E start batchIndex chainID f i t cols = Inr bs \<Longrightarrow> length bs = length cols"
  by (induction E start batchIndex chainID f i t cols arbitrary: bs rule: blocks_at.induct) (auto simp: res_simps Let_def)

section \<open>Frames\<close>

lemma unat_number: "k < 65536 \<Longrightarrow> unat (word_of_nat k :: u16) = k"
  by (simp add: unat_of_nat take_bit_eq_mod)

lemma cut_numbers:
  assumes "length chunks \<le> 65536"
  shows "map (unat \<circ> fr_Number) (cutFrames i chunks) = [0 ..< length chunks]"
proof -
  have "map (unat \<circ> fr_Number) (cutFrames i chunks) = map (\<lambda>k. k) [0 ..< length chunks]"
    unfolding cutFrames_def map_map by (rule map_cong [OF refl]) (use assms in \<open>auto simp: cutFrame_def unat_number\<close>)
  then show ?thesis by simp
qed

lemma cut_sorted:
  assumes "length chunks \<le> 65536"
  shows "sorted_wrt (<) (map fr_Number (cutFrames i chunks))"
proof -
  have "sorted_wrt (<) (map (unat \<circ> fr_Number) (cutFrames i chunks))" unfolding cut_numbers [OF assms] by simp
  then show ?thesis by (simp add: sorted_wrt_map word_less_nat_alt)
qed

lemma cut_data: "concat (map fr_Data (cutFrames i chunks)) = concat chunks"
proof -
  have "map fr_Data (cutFrames i chunks) = map (\<lambda>k. chunks ! k) [0 ..< length chunks]" by (simp add: cutFrames_def cutFrame_def)
  then show ?thesis by (simp only: map_nth)
qed

text \<open>The sources of the frames of one channel: complete, and in frame order they are the frames of the channel.\<close>

lemma ordered_cut:
  assumes "mset (map fs_frame ss) = mset (cutFrames i chunks)" "length chunks \<le> 65536" "kept ss = ss"
  shows "map fs_frame (ordered ss) = cutFrames i chunks"
proof -
  have "distinct (map fr_Number (cutFrames i chunks))" using cut_sorted [OF assms(2), of i] by (simp add: strict_sorted_iff)
  then have inj: "inj_on fr_Number (set (map fs_frame (ordered ss)))"
    using mset_eq_setD [OF assms(1)] by (simp add: distinct_map ordered_def assms(3))
  have "sorted (map fr_Number (map fs_frame (ordered ss)))" by (simp add: ordered_def o_def)
  moreover have "sorted (map fr_Number (cutFrames i chunks))" using cut_sorted [OF assms(2), of i] by (simp add: strict_sorted_iff)
  moreover have "mset (map fs_frame (ordered ss)) = mset (cutFrames i chunks)" using assms(1) by (simp add: ordered_def assms(3))
  ultimately show ?thesis
    using sort_key_inj_key_eq [of "map fs_frame (ordered ss)" "cutFrames i chunks" fr_Number] inj by (simp add: sort_key_id_if_sorted)
qed

lemma sum_frames: "(\<Sum>f \<in># mset fs. int (length (fr_Data f))) = int (length (concat (map fr_Data fs)))"
  by (induction fs) simp_all

lemma size_of_frames: "size_of ss = (\<Sum>f \<in># mset (map fs_frame ss). int (length (fr_Data f)))"
  by (induction ss) (simp_all add: size_of_def)

lemma cut_complete:
  assumes ms: "mset (map fs_frame ss) = mset (cutFrames i chunks)" and c: "chunks \<noteq> []" "length chunks \<le> 65536"
    and sz: "length (concat chunks) \<le> MaxChannelBytes"
  shows "complete ss"
proof -
  from mset_eq_setD [OF ms] have set: "fs_frame ` set ss = cutFrame i chunks ` {0 ..< length chunks}" by (simp add: cutFrames_def)
  from mset_eq_length [OF ms] have len: "length ss = length chunks" by (simp add: cutFrames_def)
  let ?n = "length chunks - 1"
  have n: "?n < length chunks" "length chunks = Suc ?n" using c(1) by (cases chunks; simp)+
  with set obtain l where l: "l \<in> set ss" "fs_frame l = cutFrame i chunks ?n"
    by (metis (mono_tags, lifting) atLeastLessThan_iff image_iff zero_le)
  have "distinct (map fr_Number (map fs_frame ss))"
    using mset_eq_imp_distinct_iff [of "map fr_Number (map fs_frame ss)" "map fr_Number (cutFrames i chunks)"] ms cut_sorted [OF c(2), of i]
    by (metis mset_map strict_sorted_iff)
  then have d: "distinct (map src_number ss)" by (simp add: o_def)
  have num: "unat (src_number l) = ?n" using n c by (simp add: l cutFrame_def unat_number)
  have each: "src_number s \<le> src_number l \<and> (src_last s \<longrightarrow> s = l)" if s: "s \<in> set ss" for s
  proof -
    from s set obtain k where k: "k < length chunks" "fs_frame s = cutFrame i chunks k" by (metis (no_types, lifting) atLeastLessThan_iff image_eqI image_iff)
    then have u: "unat (src_number s) = k" using c(2) by (simp add: cutFrame_def unat_number)
    then have "src_number s \<le> src_number l" using k(1) num n by (simp add: word_le_nat_alt)
    moreover have "s = l" if "src_last s"
    proof -
      from that k have "Suc k = length chunks" by (simp add: cutFrame_def)
      then have "src_number s = src_number l" using u num by (simp add: word_unat_eq_iff)
      with d s l(1) show ?thesis by (auto simp: distinct_map dest: inj_onD)
    qed
    ultimately show ?thesis by blast
  qed
  have "size_of ss = (\<Sum>f \<in># mset (cutFrames i chunks). int (length (fr_Data f)))" by (simp only: size_of_frames ms)
  also have "\<dots> = int (length (concat (map fr_Data (cutFrames i chunks))))"
    by (rule sum_frames)
  finally have "size_of ss \<le> int MaxChannelBytes" using sz by (simp only: cut_data of_nat_le_iff)
  moreover have "src_last l" "length ss = unat (src_number l) + 1" using n num len by (simp_all add: l(2) cutFrame_def)
  ultimately show ?thesis using l(1) d each unfolding complete_def by blast
qed

section \<open>Blobs\<close>

lemma set_wantedHashes: "set (wantedHashes hs) = set hs"
proof -
  have "set (foldl (\<lambda>w h. if h \<in> set w then w else w @ [h]) w hs) = set w \<union> set hs" for w
    by (induction hs arbitrary: w) auto
  then show ?thesis by (simp add: wantedHashes_def)
qed

text \<open>A Blob that is asked for and not yet seen adds its frames.\<close>

lemma matchBlob_carries:
  assumes "carries raw fs" "bn_versionedHash D raw = Some h" "h \<in> set wanted" "m h = None"
  shows "matchBlob D wanted raw m = Inr (m(h \<mapsto> fs))"
proof -
  let ?d = "[0] @ concat (map encodeFrame fs)"
  from assms(1) have d: "fs \<noteq> []" "list_all frame_ok fs" "length ?d \<le> 130044" "raw = encodeBlob ?d"
    by (simp_all add: carries_def)
  have "ParseFrames ?d = Inr fs" using d by (simp add: ParseFrames_iff)
  moreover have "DecodeBlob raw = Inr ?d" "length raw = 131072"
    using blob_ok_encodeBlob [OF d(3)] length_encodeBlob [OF d(3)] d(4) by (simp_all add: DecodeBlob_meaning)
  ultimately show ?thesis using assms by (simp add: matchBlob_def)
qed

lemma matchBlob_all:
  assumes "\<forall>raw \<in> set raws. \<exists>h \<in> set wanted. bn_versionedHash D raw = Some h \<and> carries raw (F h) \<and> m h = None"
    and "distinct (map (bn_versionedHash D) raws)"
  shows "\<exists>m'. foldE (matchBlob D wanted) raws m = Inr m' \<and> (\<forall>h. Some h \<in> bn_versionedHash D ` set raws \<longrightarrow> m' h = Some (F h)) \<and>
     (\<forall>h. Some h \<notin> bn_versionedHash D ` set raws \<longrightarrow> m' h = m h)"
  using assms
proof (induction raws arbitrary: m)
  case (Cons raw raws)
  from Cons.prems obtain h where h: "h \<in> set wanted" "bn_versionedHash D raw = Some h" "carries raw (F h)" "m h = None" by auto
  let ?m = "m(h \<mapsto> F h)"
  have "\<forall>raw \<in> set raws. \<exists>h \<in> set wanted. bn_versionedHash D raw = Some h \<and> carries raw (F h) \<and> ?m h = None"
    using Cons.prems h(2) by (fastforce simp: image_iff)
  moreover from Cons.prems(2) have "distinct (map (bn_versionedHash D) raws)" by simp
  ultimately obtain m' where m': "foldE (matchBlob D wanted) raws ?m = Inr m'"
    "\<forall>h. Some h \<in> bn_versionedHash D ` set raws \<longrightarrow> m' h = Some (F h)"
    "\<forall>h. Some h \<notin> bn_versionedHash D ` set raws \<longrightarrow> m' h = ?m h" using Cons.IH [of ?m] by blast
  have "foldE (matchBlob D wanted) (raw # raws) m = Inr m'"
    using matchBlob_carries [where m = m, OF h(3,2,1,4)] m'(1) by simp
  moreover have "Some h \<notin> bn_versionedHash D ` set raws" using Cons.prems(2) h(2) by simp
  ultimately show ?case using m'(2,3) h(2) by (intro exI [of _ m']) auto
qed simp

lemma joinFrames_map:
  assumes "\<forall>h \<in> set hs. m h = Some (F h)"
  shows "joinFrames m hs = Inr (concat (map F hs))"
proof -
  have "foldE (\<lambda>h frames. case m h of None \<Rightarrow> Inl missing | Some f \<Rightarrow> Inr (frames @ f)) hs acc = Inr (acc @ concat (map F hs))" for acc
    using assms by (induction hs arbitrary: acc) auto
  then show ?thesis by (simp add: joinFrames_def)
qed

text \<open>The frames of a served document, in the order of the hashes of the transaction.\<close>

lemma matchBlobs_served:
  assumes "served D d parts"
  shows "matchBlobs D (map fst parts) (Some d) = Inr (concat (map snd parts))"
proof -
  let ?F = "\<lambda>h. the (map_of parts h)"
  from assms obtain raws where raws: "bn_blobs D d = Some raws" "mset raws = mset (map (\<lambda>p. pack (snd p)) parts)"
    and d: "distinct (map fst parts)" and ok: "\<forall>(h, fs) \<in> set parts. bn_versionedHash D (pack fs) = Some h \<and> carries (pack fs) fs"
    by (auto simp: served_def list_all_iff split: option.splits)
  have F: "?F h = fs" if "(h, fs) \<in> set parts" for h fs using d that by simp
  have in_raws: "raw \<in> set raws \<longleftrightarrow> (\<exists>(h, fs) \<in> set parts. raw = pack fs)" for raw
    using mset_eq_setD [OF raws(2)] by force
  have hashes: "map (bn_versionedHash D) (map (\<lambda>p. pack (snd p)) parts) = map Some (map fst parts)" using ok by auto
  have "mset (map (bn_versionedHash D) raws) = mset (map Some (map fst parts))"
    unfolding hashes [symmetric] by (simp only: mset_map raws(2))
  from mset_eq_imp_distinct_iff [OF this] mset_eq_setD [OF this] d
  have dist: "distinct (map (bn_versionedHash D) raws)" "set (map (bn_versionedHash D) raws) = set (map Some (map fst parts))"
    by (simp_all add: distinct_map inj_on_def)
  have "\<forall>raw \<in> set raws. \<exists>h \<in> set (wantedHashes (map fst parts)). bn_versionedHash D raw = Some h \<and> carries raw (?F h) \<and> Map.empty h = None"
  proof
    fix raw assume "raw \<in> set raws"
    then obtain h fs where p: "(h, fs) \<in> set parts" "raw = pack fs" using in_raws by blast
    then have "h \<in> set (wantedHashes (map fst parts))" by (force simp: set_wantedHashes)
    with p ok F [OF p(1)] show "\<exists>h \<in> set (wantedHashes (map fst parts)). bn_versionedHash D raw = Some h \<and> carries raw (?F h) \<and> Map.empty h = None"
      by (intro bexI [of _ h]) auto
  qed
  from matchBlob_all [OF this dist(1)] obtain m where m: "foldE (matchBlob D (wantedHashes (map fst parts))) raws Map.empty = Inr m"
    "\<forall>h. Some h \<in> bn_versionedHash D ` set raws \<longrightarrow> m h = Some (?F h)" by blast
  have "\<forall>h \<in> set (map fst parts). m h = Some (?F h)" using m(2) dist(2) by auto
  moreover have "map ?F (map fst parts) = map snd parts" using F by auto
  ultimately have "joinFrames m (map fst parts) = Inr (concat (map snd parts))"
    using joinFrames_map [of "map fst parts" m ?F] by metis
  then show ?thesis using m(1) raws(1) by (simp add: matchBlobs_def)
qed

section \<open>A channel from the publisher to the store\<close>

text \<open>A transaction as the scanner builds it from the document of the Beacon node.\<close>

definition fetched :: "beacon_env \<Rightarrow> BlobTransaction \<Rightarrow> string \<times> (hash \<times> Frame list) list \<Rightarrow> bool" where
  "fetched D tx post \<longleftrightarrow> \<not> btx_Missing tx \<and> served D (fst post) (snd post) \<and>
     matchBlobs D (map fst (snd post)) (Some (fst post)) = Inr (btx_Frames tx)"

lemma fetched_frames: "fetched D tx post \<Longrightarrow> map fs_frame (txSources tx) = concat (map snd (snd post))"
  using matchBlobs_served [of D "fst post" "snd post"] by (simp add: fetched_def txSources_def o_def)

lemma fetched_all:
  "list_all2 (fetched D) txs posts \<Longrightarrow>
     map fs_frame (concat (map txSources txs)) = concat (map (\<lambda>post. concat (map snd (snd post))) posts)"
  by (induction rule: list_all2_induct) (simp_all add: fetched_frames)

lemma submission_sources:
  assumes "list_all (\<lambda>tx. \<not> btx_Missing tx) txs"
  shows "fs_hash ` set (concat (map txSources txs)) = btx_Hash ` {tx \<in> set txs. btx_Frames tx \<noteq> []}"
    "fs_timestamp ` set (concat (map txSources txs)) = btx_Timestamp ` {tx \<in> set txs. btx_Frames tx \<noteq> []}"
proof -
  have "fs_hash ` set (txSources tx) = (if btx_Frames tx = [] then {} else {btx_Hash tx})"
    "fs_timestamp ` set (txSources tx) = (if btx_Frames tx = [] then {} else {btx_Timestamp tx})" if "tx \<in> set txs" for tx
    using that assms by (auto simp: txSources_def list_all_iff image_image image_constant_conv)
  then show "fs_hash ` set (concat (map txSources txs)) = btx_Hash ` {tx \<in> set txs. btx_Frames tx \<noteq> []}"
    "fs_timestamp ` set (concat (map txSources txs)) = btx_Timestamp ` {tx \<in> set txs. btx_Frames tx \<noteq> []}"
    by (auto simp: image_UN)
qed

text \<open>The frames of one channel, whatever transactions carry them.\<close>

lemma channel_contents:
  assumes ms: "mset (map fs_frame ss) = mset (cutFrames i chunks)" and c: "chunks \<noteq> []" "length chunks \<le> 65536"
    and sz: "length (concat chunks) \<le> MaxChannelBytes"
  shows "accepted ss" "ready_ids ss = [i]" "of_id i ss = ss"
    "contents ss = (concat chunks, firsts (map fs_hash (ordered ss)), Min (fs_timestamp ` set ss))" "set (ordered ss) = set ss"
proof -
  have comp: "complete ss" using assms by (rule cut_complete)
  from mset_eq_setD [OF ms] have fr: "fs_frame ` set ss = cutFrame i chunks ` {0 ..< length chunks}" by (simp add: cutFrames_def)
  have id: "fr_ID (fs_frame s) = i" if "s \<in> set ss" for s
  proof -
    from that fr have "fs_frame s \<in> cutFrame i chunks ` {0 ..< length chunks}" by blast
    then show ?thesis by (auto simp: cutFrame_def)
  qed
  then show of_id: "of_id i ss = ss" by (simp add: of_id_def filter_True)
  have "complete (of_id j ss)" if "of_id j ss \<noteq> []" for j
    using that id comp of_id by (cases "j = i") (auto simp: of_id_def filter_empty_conv)
  then show "accepted ss" by (rule complete_accepted)
  have ne: "ss \<noteq> []" using fr c by auto
  then have "(\<lambda>s. fr_ID (fs_frame s)) ` set ss = {i}" using id by (auto simp: neq_Nil_conv)
  then show "ready_ids ss = [i]" using complete_kept(2) [OF comp] of_id by (simp add: ready_ids_def)
  have k: "kept ss = ss" by (rule complete_kept(1) [OF comp])
  show so: "set (ordered ss) = set ss" by (simp add: ordered_def k)
  have "concat (map src_data (ordered ss)) = concat (map fr_Data (map fs_frame (ordered ss)))" by (simp add: o_def)
  also have "\<dots> = concat chunks" using ordered_cut [OF ms c(2) k] by (simp add: cut_data)
  finally have "concat (map src_data (ordered ss)) = concat chunks" .
  moreover have "oldest (ordered ss) = Min (fs_timestamp ` set ss)"
    using ne by (simp add: oldest_def foldl_min min_absorb2 so)
  ultimately show "contents ss = (concat chunks, firsts (map fs_hash (ordered ss)), Min (fs_timestamp ` set ss))"
    by (simp add: contents_def)
qed

lemma channel_arrives:
  assumes "bytes_consume E" "compresses E spans (concat chunks)" "spans \<noteq> []" "list_all (span_ok E) spans"
    and "length chunks \<le> 65536" "list_all2 (fetched D) txs posts"
    and "mset (concat (map (\<lambda>post. concat (map snd (snd post))) posts)) = mset (cutFrames i chunks)"
    and "mapE (span_blocks E (bat_Index batch) chainID) spans = Inr runs" "\<not> list_ex (outsideBatch batch) (concat runs)"
  shows "\<exists>ch. DecodeChannels E txs batch chainID = Inr [ch] \<and> bc_Blocks ch = concat runs \<and>
    ch_ID (bc_Record ch) = channelID E (bat_L1TransactionHash batch) i \<and>
    set (ch_Sources (bc_Record ch)) = btx_Hash ` {tx \<in> set txs. btx_Frames tx \<noteq> []} \<and>
    ch_ExpiresAt (bc_Record ch) = Min (btx_Timestamp ` {tx \<in> set txs. btx_Frames tx \<noteq> []})"
proof -
  let ?ss = "concat (map txSources txs)"
  have c: "chunks \<noteq> []" "length (concat chunks) \<le> MaxChannelBytes" using assms(2) by (auto simp: compresses_def)
  have "mset (map fs_frame ?ss) = mset (cutFrames i chunks)" using fetched_all [OF assms(6)] assms(7) by simp
  note cc = channel_contents [OF this c(1) assms(5) c(2)]
  have avail: "list_all (\<lambda>tx. \<not> btx_Missing tx) txs"
    using assms(6) by (auto simp: list_all_length list_all2_conv_all_nth fetched_def)
  have "concat runs \<noteq> []"
  proof -
    from assms(3) obtain s rest where s: "spans = s # rest" by (cases spans) auto
    with assms(8) obtain bs rs where b: "span_blocks E (bat_Index batch) chainID s = Inr bs" "runs = bs # rs"
      by (auto simp: bindE_Inr)
    have "sd_cols s \<noteq> []" using assms(4) s by (simp add: span_ok_def Let_def)
    with blocks_at_length [OF b(1)] b(2) show ?thesis by auto
  qed
  with cc assms(9) decodeChannel_compressed [OF assms(1,2,4), of "bat_Index batch" chainID] assms(8)
    DecodeChannels_eq [of txs E batch chainID]
  show ?thesis by (simp add: finishChannel_def submission_sources [OF avail, simplified])
qed

text \<open>
  The blocks of a publication: some arrangement of frames, Blobs and transactions carries the
  spans from which they derive.\<close>

definition published ::
  "span_env \<Rightarrow> beacon_env \<Rightarrow> u64 \<Rightarrow> BlockBatch \<Rightarrow> 128 word \<Rightarrow> spanData list \<Rightarrow> BlobTransaction list \<Rightarrow> Block list \<Rightarrow> bool" where
  "published E D chainID batch i spans txs blocks \<longleftrightarrow> (\<exists>chunks posts runs.
     compresses E spans (concat chunks) \<and> spans \<noteq> [] \<and> list_all (span_ok E) spans \<and> length chunks \<le> 65536 \<and>
     list_all2 (fetched D) txs posts \<and>
     mset (concat (map (\<lambda>post. concat (map snd (snd post))) posts)) = mset (cutFrames i chunks) \<and>
     mapE (span_blocks E (bat_Index batch) chainID) spans = Inr runs \<and> \<not> list_ex (outsideBatch batch) (concat runs) \<and>
     blocks = concat runs)"

lemma publishedI:
  assumes "compresses E spans (concat chunks)" "spans \<noteq> []" "list_all (span_ok E) spans"
    and "length chunks \<le> 65536" "list_all2 (fetched D) txs posts"
    and "mset (concat (map (\<lambda>post. concat (map snd (snd post))) posts)) = mset (cutFrames i chunks)"
    and "mapE (span_blocks E (bat_Index batch) chainID) spans = Inr runs" "\<not> list_ex (outsideBatch batch) (concat runs)"
  shows "published E D chainID batch i spans txs (concat runs)"
  unfolding published_def using assms by blast

lemma published_arrives:
  assumes "bytes_consume E" "published E D chainID batch i spans txs blocks"
  shows "\<exists>ch. DecodeChannels E txs batch chainID = Inr [ch] \<and> bc_Blocks ch = blocks \<and>
    ch_ExpiresAt (bc_Record ch) = Min (btx_Timestamp ` {tx \<in> set txs. btx_Frames tx \<noteq> []})"
proof -
  from assms(2) obtain chunks posts runs where "compresses E spans (concat chunks)" "spans \<noteq> []" "list_all (span_ok E) spans"
    "length chunks \<le> 65536" "list_all2 (fetched D) txs posts"
    "mset (concat (map (\<lambda>post. concat (map snd (snd post))) posts)) = mset (cutFrames i chunks)"
    "mapE (span_blocks E (bat_Index batch) chainID) spans = Inr runs" "\<not> list_ex (outsideBatch batch) (concat runs)"
    "blocks = concat runs" unfolding published_def by blast
  from channel_arrives [OF assms(1) this(1-8)] this(9) show ?thesis by blast
qed

text \<open>C11.
  A channel arrives as it was published.  If spans are compressed, the data is cut into at most
  65536 frames and the frames are packed into Blobs, in any arrangement over the Blobs of any
  number of transactions and served by the Beacon node in any order, then \<open>DecodeChannels\<close>
  on the fetched transactions returns exactly one channel.  Its blocks are those of the spans, in
  their order; its sources are the transactions that carry frames; it expires with the oldest.\<close>

theorem published_channel_arrives:
  assumes "bytes_consume E" "compresses E spans (concat chunks)" "spans \<noteq> []" "list_all (span_ok E) spans"
    and "length chunks \<le> 65536" "list_all2 (fetched D) txs posts"
    and "mset (concat (map (\<lambda>post. concat (map snd (snd post))) posts)) = mset (cutFrames i chunks)"
    and "mapE (span_blocks E (bat_Index batch) chainID) spans = Inr runs" "\<not> list_ex (outsideBatch batch) (concat runs)"
  shows "\<exists>ch. DecodeChannels E txs batch chainID = Inr [ch] \<and> bc_Blocks ch = concat runs \<and>
    ch_ID (bc_Record ch) = channelID E (bat_L1TransactionHash batch) i \<and>
    set (ch_Sources (bc_Record ch)) = btx_Hash ` {tx \<in> set txs. btx_Frames tx \<noteq> []} \<and>
    ch_ExpiresAt (bc_Record ch) = Min (btx_Timestamp ` {tx \<in> set txs. btx_Frames tx \<noteq> []})"
  by (rule channel_arrives [OF assms])

subsection \<open>Two transactions, the closing frame first\<close>

definition sample_chunks :: "bytes list" where
  "sample_chunks = [take 9 sample_data, drop 9 sample_data]"

text \<open>A node with one document per transaction; any function will do as the versioned hash.\<close>

definition node_hash :: "bytes \<Rightarrow> hash" where
  "node_hash raw = word_of_nat (be_nat raw)"

definition sample_node :: beacon_env where
  "sample_node = sample_beacon\<lparr>bn_blobs := (\<lambda>d. Some [pack [sample_frame (if d = ''closing'' then 1 else 0)]]),
     bn_versionedHash := (\<lambda>raw. Some (node_hash raw))\<rparr>"

definition sample_part :: "u16 \<Rightarrow> (hash \<times> Frame list) list" where
  "sample_part n = [(node_hash (pack [sample_frame n]), [sample_frame n])]"

definition sample_later :: BlobTransaction where
  "sample_later = (sample_tx [sample_frame 0])\<lparr>btx_Hash := 31, btx_Timestamp := 470\<rparr>"

lemma sample_carries: "carries (pack [sample_frame n]) [sample_frame n]"
proof -
  have "length (fr_Data (sample_frame n)) < 1010" using length_sample_span by (auto simp: sample_frame_def sample_data_def)
  then show ?thesis by (simp add: carries_def pack_def frame_ok_def MaxFrameBytes_def encodeFrame_def)
qed

lemma sample_fetched:
  "fetched sample_node (sample_tx [sample_frame 1]) (''closing'', sample_part 1)"
  "fetched sample_node sample_later (''opening'', sample_part 0)"
proof -
  have served: "served sample_node ''closing'' (sample_part 1)" "served sample_node ''opening'' (sample_part 0)"
    by (simp_all add: served_def sample_part_def sample_node_def sample_carries)
  from matchBlobs_served [OF served(1)] served(1) show "fetched sample_node (sample_tx [sample_frame 1]) (''closing'', sample_part 1)"
    by (simp add: fetched_def sample_part_def sample_tx_def)
  from matchBlobs_served [OF served(2)] served(2) show "fetched sample_node sample_later (''opening'', sample_part 0)"
    by (simp add: fetched_def sample_part_def sample_tx_def sample_later_def)
qed

lemma sample_cut: "cutFrames 5 sample_chunks = [sample_frame 0, sample_frame 1]"
  by (simp add: cutFrames_def cutFrame_def sample_chunks_def sample_frame_def)

lemma sample_compresses: "compresses sample_codec [sample_span] (concat sample_chunks)"
proof -
  have "concat sample_chunks = [1, 1] @ encodeSpan sample_span" by (simp add: sample_chunks_def sample_data_def)
  with length_sample_span show ?thesis
    by (simp add: compresses_def unpacked_data_def MaxChannelBytes_def sample_codec_def)
qed

abbreviation sample_submission_txs :: "BlobTransaction list" where
  "sample_submission_txs \<equiv> [sample_tx [sample_frame 1], sample_later]"

lemma sample_runs:
  obtains bs where "mapE (span_blocks sample_codec (bat_Index sample_batch) 1088) [sample_span] = Inr [bs]"
    "map blk_Index bs = [0, 1]" "\<not> list_ex (outsideBatch sample_batch) (concat [bs])"
    "list_all (block_ok sample_codec 7) bs" "map (length \<circ> blk_Transactions) bs = [2, 0]"
proof -
  obtain bs where bs: "span_blocks sample_codec 7 1088 sample_span = Inr bs" "map blk_Index bs = [0, 1]"
    using sample_blocks by (auto simp: summary_def sample_span_def split: sum.splits)
  have "blk_Index b = 0 \<or> blk_Index b = 1" if "b \<in> set bs" for b using that arg_cong [OF bs(2), of set] by auto
  then have "\<not> list_ex (outsideBatch sample_batch) (concat [bs])"
    by (force simp: list_ex_iff outsideBatch_def sample_batch_def word_le_nat_alt)
  moreover have "list_all (block_ok sample_codec 7) bs" "map (length \<circ> blk_Transactions) bs = [2, 0]"
    using blocks_at_ok [OF bs(1)] by (simp_all add: sample_span_def col_count_def)
  ultimately show ?thesis using bs that by (simp add: sample_batch_def)
qed

lemma sample_post:
  "mset (concat (map (\<lambda>post. concat (map snd (snd post))) [(''closing'', sample_part 1), (''opening'', sample_part 0)])) =
     mset (cutFrames 5 sample_chunks)"
  "list_all2 (fetched sample_node) sample_submission_txs [(''closing'', sample_part 1), (''opening'', sample_part 0)]"
  "[sample_span] \<noteq> []" "list_all (span_ok sample_codec) [sample_span]" "length sample_chunks \<le> 65536"
  using sample_fetched sample_span_ok
  by (simp add: sample_cut sample_part_def add_mset_commute, simp, simp, simp, simp add: sample_chunks_def)

lemma sample_txs_frames: "{tx \<in> set sample_submission_txs. btx_Frames tx \<noteq> []} = set sample_submission_txs"
  by (auto simp: sample_tx_def sample_later_def)

theorem published_channel_arrives_witness:
  "\<exists>ch. DecodeChannels sample_codec sample_submission_txs sample_batch 1088 = Inr [ch] \<and>
     map blk_Index (bc_Blocks ch) = [0, 1] \<and> set (ch_Sources (bc_Record ch)) = {21, 31} \<and> ch_ExpiresAt (bc_Record ch) = 470"
proof -
  obtain bs where bs: "mapE (span_blocks sample_codec (bat_Index sample_batch) 1088) [sample_span] = Inr [bs]"
    "map blk_Index bs = [0, 1]" "\<not> list_ex (outsideBatch sample_batch) (concat [bs])" by (rule sample_runs)
  from published_channel_arrives [OF sample_bytes_consume sample_compresses sample_post(3,4,5,2,1) bs(1,3)] bs(2)
  show ?thesis unfolding sample_txs_frames by (force simp: sample_tx_def sample_later_def)
qed

end
