(* ===== verification/Delivery.thy ===== *)
theory Delivery
  imports System Pipeline
begin

text \<open>
  From the commit of a channel to its readers.  What one commit adds to the Blob view, what every
  later step of the service leaves of it, and what the block route answers: a block is served as
  it was committed until its channel is past retention.  \<open>Pipeline\<close> gives the channel, so
  the properties reach from the publisher of the spans to the client of the API.
\<close>

section \<open>A retained block\<close>

text \<open>The view holds the record \<open>r\<close> of a channel and its block \<open>blk\<close>.\<close>

definition holds :: "ChannelRecord \<Rightarrow> Block \<Rightarrow> blob_view \<Rightarrow> bool" where
  "holds r blk V \<longleftrightarrow> v_channels V (ch_ID r) = Some r \<and> v_blocks V (blk_Index blk) = Some (ch_ID r, blk)"

lemma holds_put_tx: "view_put_tx cutoff tx V = Some W \<Longrightarrow> holds r blk V \<Longrightarrow> holds r blk W"
  by (auto simp: view_put_tx_def add_tx_def holds_def split: if_splits option.splits)

lemma put_channel_added:
  assumes "view_put_channel cutoff ch V = Some W" "cutoff \<le> ch_ExpiresAt (bc_Record ch)"
  shows "foldO (view_put_block (bc_Record ch)) (zip (ch_Blocks (bc_Record ch)) (bc_Blocks ch))
    (V\<lparr>v_channels := (v_channels V)(ch_ID (bc_Record ch) \<mapsto> bc_Record ch)\<rparr>) = Some W"
  using assms by (auto simp: view_put_channel_def Let_def split: if_splits)

lemma holds_put_channel:
  assumes "view_put_channel cutoff ch V = Some W" "holds r blk V"
  shows "holds r blk W"
proof (cases "cutoff \<le> ch_ExpiresAt (bc_Record ch)")
  case False
  with assms(1) have "W = V" by (simp add: view_put_channel_def Let_def not_le split: if_splits)
  with assms(2) show ?thesis by simp
next
  case True
  note put = put_channel_added [OF assms(1) True]
  have old: "v_channels V (ch_ID (bc_Record ch)) = None \<or> v_channels V (ch_ID (bc_Record ch)) = Some (bc_Record ch)"
    using view_put_channel_stored(5) [OF assms(1)] True by (simp add: not_less)
  have "v_channels W (ch_ID r) = Some r"
  proof (cases "ch_ID r = ch_ID (bc_Record ch)")
    case same: True
    with old assms(2) have "bc_Record ch = r" by (simp add: holds_def)
    with put_blocks_frame [OF put] show ?thesis by simp
  next
    case False
    with put_blocks_frame [OF put] assms(2) show ?thesis by (simp add: holds_def)
  qed
  with put_blocks_keep [OF put, of "blk_Index blk" "(ch_ID r, blk)"] assms(2) show ?thesis by (simp add: holds_def)
qed

lemma holds_prune: "holds r blk V \<Longrightarrow> cutoff \<le> ch_ExpiresAt r \<Longrightarrow> holds r blk (prune_view cutoff V)"
  by (simp add: holds_def prune_view_def prune_txs_def prune_channels_def expired_channel_def)

lemma put_channel_holds:
  assumes "view_put_channel cutoff ch V = Some W" "cutoff \<le> ch_ExpiresAt (bc_Record ch)" "blk \<in> set (bc_Blocks ch)"
  shows "holds (bc_Record ch) blk W"
proof -
  note put = put_channel_added [OF assms(1,2)]
  have "length (ch_Blocks (bc_Record ch)) = length (bc_Blocks ch)"
    using view_put_channel_stored(2) [OF assms(1)] assms(2) by (simp add: not_less)
  with assms(3) obtain i where "(i, blk) \<in> set (zip (ch_Blocks (bc_Record ch)) (bc_Blocks ch))"
    by (metis in_set_impl_in_set_zip2)
  from put_blocks_new [OF put this] put_blocks_frame [OF put] show ?thesis by (simp add: holds_def)
qed

lemma put_channels_hold:
  "foldO (view_put_channel cutoff) chs V = Some W \<Longrightarrow> holds r blk V \<Longrightarrow> holds r blk W"
  by (erule foldO_invariant) (auto intro: holds_put_channel)

lemma put_channels_new:
  assumes "foldO (view_put_channel cutoff) chs V = Some W" "ch \<in> set chs"
    and "cutoff \<le> ch_ExpiresAt (bc_Record ch)" "blk \<in> set (bc_Blocks ch)"
  shows "holds (bc_Record ch) blk W"
  using assms(1,2)
proof (induction chs arbitrary: V)
  case (Cons c chs)
  then obtain U where U: "view_put_channel cutoff c V = Some U" "foldO (view_put_channel cutoff) chs U = Some W"
    by (auto simp: bind_eq_Some_conv)
  show ?case
  proof (cases "c = ch")
    case True
    with put_channels_hold [OF U(2) put_channel_holds] U(1) assms(3,4) show ?thesis by blast
  next
    case False
    with Cons U show ?thesis by simp
  qed
qed simp

text \<open>One commit: it keeps what is within the new retention, and adds its channels.\<close>

lemma commit_holds:
  assumes "view_commit cutoff txs chs V = Some W" "cutoff \<le> ch_ExpiresAt r"
    and "holds r blk V \<or> (\<exists>ch \<in> set chs. r = bc_Record ch \<and> blk \<in> set (bc_Blocks ch))"
  shows "holds r blk W"
proof -
  from assms(1) obtain V1 V2 where steps: "foldO (view_put_tx cutoff) txs V = Some V1"
    "foldO (view_put_channel cutoff) chs V1 = Some V2" and W: "W = prune_view cutoff V2"
    by (auto simp: view_commit_def view_prune_def bind_eq_Some_conv split: if_splits)
  have "holds r blk V1" if "holds r blk V"
    using steps(1) that by (rule foldO_invariant) (auto intro: holds_put_tx)
  with assms(2,3) steps(2) have "holds r blk V2" by (auto intro: put_channels_hold put_channels_new)
  with assms(2) show ?thesis by (auto simp: W intro: holds_prune)
qed

section \<open>A decoded channel is accepted\<close>







section \<open>Under every later step\<close>

text \<open>
  What the database promises about the block: it is held as long as the cutoff has not passed the
  expiry of its channel.  The cutoff is at least \<open>c\<close>.
\<close>

definition promised :: "ChannelRecord \<Rightarrow> Block \<Rightarrow> u64 \<Rightarrow> pebble \<Rightarrow> bool" where
  "promised r blk c db \<longleftrightarrow> (\<exists>a V. blob_inv db a V \<and> c \<le> bst_Cutoff a \<and> (bst_Cutoff a \<le> ch_ExpiresAt r \<longrightarrow> holds r blk V))"

lemma promised_keeps: "keeps_blob db db' \<Longrightarrow> promised r blk c db \<Longrightarrow> promised r blk c db'"
  unfolding promised_def using keeps_blob_inv blob_inv_dict_ok by blast

lemma stored_cutoff [simp]: "bst_Cutoff (stored_state st) = bst_Cutoff st"
  by (simp add: stored_state_def)

lemma CommitBlob_promised:
  assumes run: "CommitBlob st before after txs chs = (Inr (), st')"
    and inv: "blob_inv (s_db st) a V" and old: "bst_Cutoff a \<le> ch_ExpiresAt r \<longrightarrow> holds r blk V \<or>
      (\<exists>ch \<in> set chs. r = bc_Record ch \<and> blk \<in> set (bc_Blocks ch))"
  shows "promised r blk (bst_Cutoff a) (s_db st')"
proof -
  have before: "before = a" using readBlobState_Inr [OF CommitBlob_Inr(2) [OF run]] inv by (simp add: blob_inv_def)
  have mono: "bst_Cutoff a \<le> bst_Cutoff after" using CommitBlob_Inr(4) [OF run] before by simp
  from CommitBlob_sound [OF inv [folded before] run] obtain V' l where
    V': "view_commit (bst_Cutoff after) txs chs V = Some V'"
    and inv': "blob_inv (s_db st') (stored_state (after\<lparr>bst_Latest := l, bst_Revision := bst_Revision before + 1\<rparr>)) V'"
    by blast
  have "holds r blk V'" if "bst_Cutoff after \<le> ch_ExpiresAt r"
    using commit_holds [OF V' that] old mono that order_trans by blast
  with inv' mono show ?thesis unfolding promised_def by fastforce
qed

lemma promised_blob:
  assumes act: "blob_action x y" and p: "promised r blk c (s_db (fst x))"
  shows "promised r blk c (s_db (fst y))"
proof -
  obtain st ss st' ss' where xy: "x = (st, ss)" "y = (st', ss')" by force
  from blob_action_cases [OF act [unfolded xy]] consider "st' = st"
    | before after txs chs where "CommitBlob st before after txs chs = (Inr (), st')" by blast
  then show ?thesis
  proof cases
    case 2
    from p obtain a V where "blob_inv (s_db st) a V" "c \<le> bst_Cutoff a" "bst_Cutoff a \<le> ch_ExpiresAt r \<longrightarrow> holds r blk V"
      by (auto simp: promised_def xy)
    with CommitBlob_promised [OF 2] have "promised r blk (bst_Cutoff a) (s_db st')" by blast
    with \<open>c \<le> bst_Cutoff a\<close> show ?thesis unfolding promised_def xy by (auto intro: order_trans)
  qed (use p xy in simp)
qed

lemma promised_step:
  "system_step c w w' \<Longrightarrow> promised r blk k (s_db (fst (snd w))) \<Longrightarrow>
     promised r blk k (s_db (fst (snd w')))"
proof (induction rule: system_step.induct)
  case (deposit s x y)
  from deposit_action_spares [OF deposit.hyps(2)] deposit.prems show ?case
    by (auto simp: spares_blobs_def intro: promised_keeps)
next
  case (blob s x y)
  from promised_blob [OF blob.hyps(3)] blob.prems show ?case by simp
next
  case (request x y s)
  from server_action_spares [OF request.hyps] request.prems show ?case
    by (auto simp: spares_blobs_def intro: promised_keeps)
next
  case (closing s st ss)
  have "s_db (snd (Close st)) = s_db st" by (simp add: Close_def)
  with closing.prems show ?case by simp
qed simp_all

lemma promised_run:
  "(system_step c)\<^sup>*\<^sup>* w w' \<Longrightarrow> promised r blk k (s_db (fst (snd w))) \<Longrightarrow>
     promised r blk k (s_db (fst (snd w')))"
  by (induction rule: rtranclp_induct) (auto intro: promised_step)

section \<open>A channel that lists a block twice\<close>

text \<open>It is retained whatever happens, so the cutoff never passes its expiry.\<close>

definition retains :: "string \<Rightarrow> ChannelRecord \<Rightarrow> pebble \<Rightarrow> bool" where
  "retains k r db \<longleftrightarrow> (\<exists>a V. blob_inv db a V \<and> v_channels V k = Some r)"

lemma retains_keeps: "keeps_blob db db' \<Longrightarrow> retains k r db \<Longrightarrow> retains k r db'"
  unfolding retains_def using keeps_blob_inv blob_inv_dict_ok by blast

lemma view_commit_keeps_duplicate:
  assumes "v_channels V k = Some r" "\<not> distinct (ch_Blocks r)" "view_commit cutoff txs chs V = Some W"
  shows "v_channels W k = Some r"
proof -
  have live: "\<not> ch_ExpiresAt r < cutoff" using view_commit_refuses [OF assms(1,2)] assms(3) by force
  from assms(3) obtain V1 V2 where steps: "foldO (view_put_tx cutoff) txs V = Some V1"
    "foldO (view_put_channel cutoff) chs V1 = Some V2" and W: "W = prune_view cutoff V2"
    by (auto simp: view_commit_def view_prune_def bind_eq_Some_conv split: if_splits)
  have "v_channels V1 k = Some r"
    using steps(1) assms(1) by (rule foldO_invariant [where I = "\<lambda>W. v_channels W k = Some r"]) (simp add: view_put_tx_channels)
  with steps(2) have "v_channels V2 k = Some r"
    by (rule foldO_invariant [where I = "\<lambda>W. v_channels W k = Some r"]) (simp add: view_put_channel_keeps)
  with live show ?thesis by (simp add: W prune_view_def prune_txs_def prune_channels_def expired_channel_def)
qed

lemma retains_blob:
  assumes act: "blob_action x y" and dup: "\<not> distinct (ch_Blocks r)" and p: "retains k r (s_db (fst x))"
  shows "retains k r (s_db (fst y))"
proof -
  obtain st ss st' ss' where xy: "x = (st, ss)" "y = (st', ss')" by force
  from blob_action_cases [OF act [unfolded xy]] consider "st' = st"
    | before after txs chs where "CommitBlob st before after txs chs = (Inr (), st')" by blast
  then show ?thesis
  proof cases
    case 2
    from p obtain a V where inv: "blob_inv (s_db st) a V" and r: "v_channels V k = Some r" by (auto simp: retains_def xy)
    have "before = a" using readBlobState_Inr [OF CommitBlob_Inr(2) [OF 2]] inv by (simp add: blob_inv_def)
    from CommitBlob_sound [OF inv [folded this] 2] obtain V' b where
      step: "view_commit (bst_Cutoff after) txs chs V = Some V'" and "blob_inv (s_db st') b V'" by blast
    with view_commit_keeps_duplicate [OF r dup step] show ?thesis unfolding retains_def xy by auto
  qed (use p xy in simp)
qed

lemma retains_step:
  "system_step c w w' \<Longrightarrow> \<not> distinct (ch_Blocks r) \<Longrightarrow> retains k r (s_db (fst (snd w))) \<Longrightarrow> retains k r (s_db (fst (snd w')))"
proof (induction rule: system_step.induct)
  case (deposit s x y)
  from deposit_action_spares [OF deposit.hyps(2)] deposit.prems show ?case
    by (auto simp: spares_blobs_def intro: retains_keeps)
next
  case (blob s x y)
  from retains_blob [OF blob.hyps(3) blob.prems(1)] blob.prems(2) show ?case by simp
next
  case (request x y s)
  from server_action_spares [OF request.hyps] request.prems show ?case
    by (auto simp: spares_blobs_def intro: retains_keeps)
next
  case (closing s st ss)
  have "s_db (snd (Close st)) = s_db st" by (simp add: Close_def)
  with closing.prems show ?case by simp
qed simp_all

lemma retains_run:
  "(system_step c)\<^sup>*\<^sup>* w w' \<Longrightarrow> \<not> distinct (ch_Blocks r) \<Longrightarrow> retains k r (s_db (fst (snd w))) \<Longrightarrow>
     retains k r (s_db (fst (snd w')))"
  by (induction rule: rtranclp_induct) (auto intro: retains_step)

lemma retained_channel_cutoff:
  assumes "blob_inv db a V" "v_channels V k = Some r"
  shows "bst_Cutoff a \<le> ch_ExpiresAt r"
proof -
  from assms have "channel_ok V k r" by (simp add: blob_inv_def view_ok_def)
  then obtain h tx where "v_txs V h = Some tx" "btx_Timestamp tx = ch_ExpiresAt r" by (auto simp: channel_ok_def)
  with assms(1) show ?thesis by (force simp: blob_inv_def)
qed

section \<open>What the readers see\<close>

lemma promised_read:
  assumes p: "promised r blk k (s_db st)" and now: "BlobState st = Inr now" "bst_Cutoff now \<le> ch_ExpiresAt r"
    and ok: "\<not> s_closed st" "fault_free (s_db st)" and q: "queue_rep (s_db st) a q"
  shows "GetBlock st (Some (blk_Index blk)) = read_block q blk (Some (ch_Batch r))"
proof -
  from p obtain b V where inv: "blob_inv (s_db st) b V" and hold: "bst_Cutoff b \<le> ch_ExpiresAt r \<longrightarrow> holds r blk V"
    by (auto simp: promised_def)
  have "now = b" using now(1) inv ok readBlobState_fault_free by (simp add: BlobStore.BlobState_def blob_inv_def)
  with hold now(2) have "holds r blk V" by simp
  with GetBlock_view [OF inv q ok(2,1), of "Some (blk_Index blk)"] show ?thesis by (simp add: view_get_def holds_def)
qed

text \<open>A complete block stays as it is when the queue grows.\<close>

lemma read_block_complete:
  "read_block q blk batch = Inr resp \<Longrightarrow> resp \<noteq> empty_response \<Longrightarrow>
     obstacle q (blk_Transactions blk) = None \<and> resp = \<lparr>resp_Block = Some (full_block q blk), resp_Batch = batch\<rparr>"
  by (auto simp: read_block_def split: option.splits if_splits)

lemma read_block_grows:
  assumes "obstacle q (blk_Transactions blk) = None"
  shows "read_block (q @ rest) blk batch = read_block q blk batch"
proof -
  have all: "arrived q tx" if "tx \<in> set (blk_Transactions blk)" for tx
    using assms that by (auto simp: obstacle_def find_None_iff)
  then have "arrived (q @ rest) tx \<and> full_tx (q @ rest) tx = full_tx q tx" if "tx \<in> set (blk_Transactions blk)" for tx
    using that by (fastforce simp: arrived_def full_tx_def Let_def nth_append)
  moreover from this have "obstacle (q @ rest) (blk_Transactions blk) = None"
    using assms by (auto simp: obstacle_def find_None_iff)
  ultimately show ?thesis using assms by (simp add: read_block_def full_block_def cong: map_cong)
qed

text \<open>The state of the service at any time after its start.\<close>

lemma system_reached:
  assumes "fault_free disk" "pb_data disk = []" "fst (startService E c disk) = Inr (n, db, status)"
    and "(system_step c)\<^sup>*\<^sup>* (serving n, (db, status)) (s, (st, ss))"
  shows "system_inv n c (s, (st, ss))"
    and "BlobEnabled c \<Longrightarrow> \<exists>a V. blob_inv (s_db st) a V"
proof -
  show inv: "system_inv n c (s, (st, ss))"
    using system_inv_run [OF assms(4) system_inv_start [OF assms(1-3)]] .
  show "\<exists>a V. blob_inv (s_db st) a V" if "BlobEnabled c"
  proof -
    from inv that obtain b V where "db_at b (Some V) (s_db st)" by (auto simp: system_inv_def known_at_def)
    then show ?thesis by (auto simp: db_at_def)
  qed
qed

section \<open>Properties\<close>

text \<open>C4.
  What a client has read stays true.  Take two moments in the life of a service that was started on
  an empty database, whatever ran in between.  A
  deposit that \<open>Get\<close> returned at the first is returned at the second.  A block that
  \<open>GetBlock\<close> returned at the first is returned at the second with the same transactions, the same
  deposits and the same batch, unless the retention cutoff has passed the expiry of its channel:
  no later commit, reorganisation or re-publication replaces it.\<close>

theorem answers_never_change:
  assumes "fault_free disk" and "pb_data disk = []" and "fst (startService E c disk) = Inr (n, db, status)"
    and "(system_step c)\<^sup>*\<^sup>* (serving n, (db, status)) (s, (st, ss))"
    and "(system_step c)\<^sup>*\<^sup>* (s, (st, ss)) (t, (st', ss'))"
    and "fault_free (s_db st)" and "\<not> s_closed st" and "fault_free (s_db st')" and "\<not> s_closed st'"
  shows "(\<forall>i d. Get st (Some i) = Inr (Some d) \<longrightarrow> Get st' (Some i) = Inr (Some d)) \<and>
    (\<forall>a V i k blk r now resp. blob_inv (s_db st) a V \<and> v_blocks V i = Some (k, blk) \<and> v_channels V k = Some r \<and>
       BlobState st' = Inr now \<and> bst_Cutoff now \<le> ch_ExpiresAt r \<and> GetBlock st (Some i) = Inr resp \<and> resp \<noteq> empty_response \<longrightarrow>
       GetBlock st' (Some i) = Inr resp)"
proof -
  from system_reached(1) [OF assms(1-4)] have inv: "system_inv n c (s, (st, ss))" .
  then obtain a0 q where q: "queue_rep (s_db st) a0 q" by (auto simp: system_inv_def)
  from system_progresses [OF assms(5) inv] q obtain a1 rest where q': "queue_rep (s_db st') a1 (q @ rest)"
    unfolding progresses_def fst_conv snd_conv by blast
  have "Get st' (Some i) = Inr (Some d)" if "Get st (Some i) = Inr (Some d)" for i d
    using that Get_index [OF q assms(7,6)] Get_index [OF q' assms(9,8)] by (auto simp: nth_append split: if_splits)
  moreover have "GetBlock st' (Some i) = Inr resp"
    if V: "blob_inv (s_db st) a V" "v_blocks V i = Some (k, blk)" "v_channels V k = Some r"
      and now: "BlobState st' = Inr now" "bst_Cutoff now \<le> ch_ExpiresAt r"
      and got: "GetBlock st (Some i) = Inr resp" "resp \<noteq> empty_response" for a V i k blk r now resp
  proof -
    have "view_ok V" using V(1) by (simp add: blob_inv_def)
    with V(2,3) have id: "ch_ID r = k" "blk_Index blk = i" by (force simp: view_ok_def channel_ok_def)+
    then have "promised r blk 0 (s_db st)" using V unfolding promised_def by (auto simp: holds_def)
    then have "promised r blk 0 (s_db st')" using promised_run [OF assms(5)] by simp
    from promised_read [OF this now assms(9,8) q'] have new: "GetBlock st' (Some i) = read_block (q @ rest) blk (Some (ch_Batch r))"
      by (simp add: id)
    have "GetBlock st (Some i) = read_block q blk (Some (ch_Batch r))"
      using GetBlock_view [OF V(1) q assms(6,7), of "Some i"] V(2,3) by (simp add: view_get_def)
    with got read_block_complete have "read_block q blk (Some (ch_Batch r)) = Inr resp" "obstacle q (blk_Transactions blk) = None" by auto
    with new read_block_grows show ?thesis by simp
  qed
  ultimately show ?thesis by blast
qed


text \<open>C20.
  A stored channel that lists a block twice can never be expired, however the service goes on: at
  every later moment the channel is still there and the retention cutoff has not passed its
  expiry, and on a working database every commit with a cutoff past its expiry, by any caller and
  with any records, fails with an integrity error and changes nothing.  The code accepts such a
  channel: the witness commits one, and a commit that advances the cutoff fails.\<close>

theorem duplicate_block_never_expires:
  assumes "blob_inv (s_db st) a V" and "v_channels V k = Some r" and "\<not> distinct (ch_Blocks r)"
    and "(system_step c)\<^sup>*\<^sup>* (s, (st, ss)) (t, (st', ss'))" and "\<not> s_closed st'" and "fault_free (s_db st')"
  shows "(\<exists>a' V'. blob_inv (s_db st') a' V' \<and> v_channels V' k = Some r \<and> bst_Cutoff a' \<le> ch_ExpiresAt r) \<and>
    (\<forall>before after txs chs. ch_ExpiresAt r < bst_Cutoff after \<longrightarrow>
      (\<exists>e. CommitBlob st' before after txs chs = (Inl e, st') \<and> errors_is ErrIntegrity e))"
proof -
  have "retains k r (s_db (fst (snd (s, (st, ss)))))" using assms(1,2) unfolding retains_def by auto
  from retains_run [OF assms(4,3) this] obtain a' V' where inv: "blob_inv (s_db st') a' V'" "v_channels V' k = Some r"
    by (auto simp: retains_def)
  with retained_channel_cutoff duplicate_blocks_commit [OF inv assms(3) _ assms(5,6)] show ?thesis by blast
qed

section \<open>A sample life of the service\<close>

text \<open>Commits that go through, in either namespace.\<close>

lemma commit_deposits:
  assumes "queue_rep (s_db st) b q" "blob_inv (s_db st) a V" "fault_free (s_db st)" "\<not> s_closed st" "ss_fatal ss = None"
    and "queue_append q rs = Some q'"
  obtains st' where "commitIfHealthy ss (\<lambda>st. Commit st b after rs) st = (Inr (), st')"
    "queue_rep (s_db st') (after\<lparr>st_Latest := latest_of q'\<rparr>) q'" "blob_inv (s_db st') a V" "fault_free (s_db st')" "\<not> s_closed st'"
proof -
  from Commit_complete [OF assms(1,4,3,6)] obtain st' where run: "Commit st b after rs = (Inr (), st')" by blast
  from Commit_faults [OF run] assms(3,4) have "fault_free (s_db st')" "\<not> s_closed st'" by simp_all
  moreover have "queue_rep (s_db st') (after\<lparr>st_Latest := latest_of q'\<rparr>) q'" using Commit_sound [OF assms(1) run] assms(6) by auto
  moreover have "blob_inv (s_db st') a V" by (rule Commit_keeps_blob_inv [OF assms(2,1) run])
  moreover have "commitIfHealthy ss (\<lambda>st. Commit st b after rs) st = (Inr (), st')" using run assms(5) by (simp add: commitIfHealthy_def)
  ultimately show ?thesis using that by blast
qed

lemma commit_channels:
  assumes "queue_rep (s_db st) b q" "blob_inv (s_db st) a V" "fault_free (s_db st)" "\<not> s_closed st" "ss_fatal ss = None"
    and "bst_Revision a \<noteq> max_u64" "bst_Cutoff a \<le> bst_Cutoff after"
    and "view_commit (bst_Cutoff after) txs chs V = Some V'"
  obtains st' l where "CommitIfHealthy ss (\<lambda>st. CommitBlob st a after txs chs) st = (Inr (), st')" "queue_rep (s_db st') b q"
    "blob_inv (s_db st') (stored_state (after\<lparr>bst_Latest := l, bst_Revision := bst_Revision a + 1\<rparr>)) V'"
    "fault_free (s_db st')" "\<not> s_closed st'"
proof -
  from CommitBlob_complete [OF assms(2,4,3,6,7), of txs] assms(8) obtain st' where
    run: "CommitBlob st a after txs chs = (Inr (), st')" by auto
  from CommitBlob_sound [OF assms(2) run] assms(8) obtain l where
    inv: "blob_inv (s_db st') (stored_state (after\<lparr>bst_Latest := l, bst_Revision := bst_Revision a + 1\<rparr>)) V'" by auto
  have "fault_free (s_db st') \<and> \<not> s_closed st'"
    using CommitBlob_faults [OF blob_inv_dict_ok [OF assms(2)] run] assms(3,4) same_faults_fault_free by force
  moreover have "queue_rep (s_db st') b q"
    using CommitBlob_rest [OF queue_rep_dict_ok [OF assms(1)] run] assms(1) by (rule keeps_rest_queue)
  moreover have "CommitIfHealthy ss (\<lambda>st. CommitBlob st a after txs chs) st = (Inr (), st')"
    using run assms(5) by (simp add: CommitIfHealthy_def commitIfHealthy_def)
  ultimately show ?thesis using inv that by blast
qed

text \<open>The service after its start on an empty database.\<close>

lemma sample_start:
  "fst (startService sample_service (sv_Config sample_server_env) (sample_pebble [])) = Inr (2, sample_store [
     (blobIdentityKey, BlobIdentityDoc (blobIdentity (sv_Config sample_server_env))), (blobStateKey, BlobStateDoc (stored_state zero_BlobState)),
     (identityKey, IdentityDoc (serviceIdentity (sv_Config sample_server_env)))], EnableBlob zero_Status)"
proof -
  let ?c = "sv_Config sample_server_env"
  have on: "BlobEnabled ?c" by (simp add: BlobEnabled_def sample_server_env_def)
  have val: "validateL1 sample_service ?c = Inr ()" by (simp add: validateL1_Inr sample_service_def sample_server_env_def)
  have disk: "fault_free (sample_pebble [])" "pb_data (sample_pebble []) = []" by (simp_all add: sample_pebble_def fault_free_def)
  let ?db = "sample_store [(identityKey, IdentityDoc (serviceIdentity ?c))]"
  have "InitBlob ?db (blobIdentity ?c) = (Inr (), sample_store [(blobIdentityKey, BlobIdentityDoc (blobIdentity ?c)),
      (blobStateKey, BlobStateDoc (stored_state zero_BlobState)), (identityKey, IdentityDoc (serviceIdentity ?c))])"
    by (simp add: InitBlob_def readJSON_def dscan_def marshalBlobState_eq
      blobIdentityKey_def blobStateKey_def identityKey_def ascii_def) (simp add: sample_store_def sample_pebble_def)
  moreover have "Open None None (sample_pebble []) (serviceIdentity ?c) = (Inr ?db, s_db ?db)"
    unfolding Open_fresh [OF disk] by (simp add: sample_store_def sample_pebble_def)
  ultimately show ?thesis using on val
    by (simp add: startService_def initWorkers_def sample_service_def)
qed

lemma sample_begin:
  obtains db status where "fst (startService sample_service (sv_Config sample_server_env) (sample_pebble [])) = Inr (2, db, status)"
    "queue_rep (s_db db) zero_State []" "blob_inv (s_db db) (stored_state zero_BlobState) empty_view" "fault_free (s_db db)"
    "\<not> s_closed db" "ss_fatal status = None"
proof -
  note start = sample_start
  have disk: "fault_free (sample_pebble [])" "pb_data (sample_pebble []) = []" by (simp_all add: sample_pebble_def fault_free_def)
  have on: "BlobEnabled (sv_Config sample_server_env)" by (simp add: BlobEnabled_def sample_server_env_def)
  from start_facts(2) [OF disk start] on
  show ?thesis by (intro that [OF start]) (auto simp: sync_inv_def rep_at_db db_at_def EnableBlob_def zero_Status_def)
qed

abbreviation sample_config :: Config where
  "sample_config \<equiv> sv_Config sample_server_env"

lemma sample_serving [simp]: "0 < sl_workers (serving 2)" "BlobEnabled sample_config"
  by (simp_all add: serving_def BlobEnabled_def sample_server_env_def)

lemma sample_disk [simp]: "pb_data (sample_pebble []) = []"
  by (simp add: sample_pebble_def)

definition sample_blob_state :: "u64 option \<Rightarrow> BlobState" where
  "sample_blob_state l = (sample_after 50)\<lparr>bst_Latest := l, bst_Revision := 1\<rparr>"

text \<open>A channel of one block and a deposit are committed, later a second deposit.\<close>

lemma sample_life:
  assumes d: "queue_rep (s_db db) zero_State []" "blob_inv (s_db db) (stored_state zero_BlobState) empty_view" "fault_free (s_db db)"
    "\<not> s_closed db" "ss_fatal status = None"
  obtains l s1 s2 where
    "(system_step sample_config)\<^sup>*\<^sup>* (serving 2, (db, status)) (serving 2, (s1, status))"
    "(system_step sample_config)\<^sup>*\<^sup>* (serving 2, (s1, status)) (serving 2, (s2, status))"
    "queue_rep (s_db s1) (sample_State\<lparr>st_Latest := latest_of [sample_record 0]\<rparr>) [sample_record 0]"
    "queue_rep (s_db s2) (sample_State\<lparr>st_Latest := latest_of [sample_record 0, sample_record 1]\<rparr>) [sample_record 0, sample_record 1]"
    "\<And>s. s = s1 \<or> s = s2 \<Longrightarrow> blob_inv (s_db s) (sample_blob_state l) sample_view \<and> fault_free (s_db s) \<and> \<not> s_closed s"
proof -
  have chs: "bst_Revision (stored_state zero_BlobState) \<noteq> max_u64" "bst_Cutoff (stored_state zero_BlobState) \<le> bst_Cutoff (sample_after 50)"
    "view_commit (bst_Cutoff (sample_after 50)) [sample_btx] [sample_channel [7]] empty_view = Some sample_view"
    using sample_view_commit by (simp_all add: stored_state_def zero_BlobState_def sample_after_def)
  have state: "stored_state ((sample_after 50)\<lparr>bst_Latest := l, bst_Revision := bst_Revision (stored_state zero_BlobState) + 1\<rparr>) = sample_blob_state l" for l
    by (simp add: sample_blob_state_def stored_state_def sample_after_def zero_BlobState_def)
  obtain s0 l where c0: "CommitIfHealthy status (\<lambda>st. CommitBlob st (stored_state zero_BlobState) (sample_after 50) [sample_btx] [sample_channel [7]]) db = (Inr (), s0)"
    and s0: "queue_rep (s_db s0) zero_State []" "blob_inv (s_db s0) (sample_blob_state l) sample_view" "fault_free (s_db s0)" "\<not> s_closed s0"
    by (rule commit_channels [OF d chs, unfolded state])
  obtain s1 where c1: "commitIfHealthy status (\<lambda>st. Commit st zero_State sample_State [sample_record 0]) s0 = (Inr (), s1)"
    and s1: "queue_rep (s_db s1) (sample_State\<lparr>st_Latest := latest_of [sample_record 0]\<rparr>) [sample_record 0]"
      "blob_inv (s_db s1) (sample_blob_state l) sample_view" "fault_free (s_db s1)" "\<not> s_closed s1"
    by (rule commit_deposits [OF s0 d(5) queue_append_sample])
  have two: "queue_append [sample_record 0] [sample_record 1] = Some [sample_record 0, sample_record 1]"
    by (simp add: queue_add_def sample_record_def)
  obtain s2 where c2: "commitIfHealthy status (\<lambda>st. Commit st (sample_State\<lparr>st_Latest := latest_of [sample_record 0]\<rparr>) sample_State [sample_record 1]) s1 = (Inr (), s2)"
    and s2: "queue_rep (s_db s2) (sample_State\<lparr>st_Latest := latest_of [sample_record 0, sample_record 1]\<rparr>) [sample_record 0, sample_record 1]"
      "blob_inv (s_db s2) (sample_blob_state l) sample_view" "fault_free (s_db s2)" "\<not> s_closed s2"
    by (rule commit_deposits [OF s1 d(5) two])
  have "system_step sample_config (serving 2, (db, status)) (serving 2, (s0, status))"
    by (rule system_step.blob, simp, simp, rule blob_action.commit [OF c0])
  moreover have deposit: "system_step sample_config (serving 2, (x, status)) (serving 2, (y, status))"
    if "commitIfHealthy status (\<lambda>st. Commit st b after rs) x = (Inr (), y)" for x y b after rs
    by (rule system_step.deposit, simp, rule deposit_action.commit [OF that])
  ultimately have "(system_step sample_config)\<^sup>*\<^sup>* (serving 2, (db, status)) (serving 2, (s1, status))"
    using deposit [OF c1] by simp
  from that [OF this _ s1(1) s2(1)] deposit [OF c2] s1(2-4) s2(2-4) show ?thesis by blast
qed

theorem answers_never_change_witness:
  "\<exists>db status st st'. fst (startService sample_service sample_config (sample_pebble [])) = Inr (2, db, status) \<and>
     (system_step sample_config)\<^sup>*\<^sup>* (serving 2, (db, status)) (serving 2, (st, status)) \<and>
     (system_step sample_config)\<^sup>*\<^sup>* (serving 2, (st, status)) (serving 2, (st', status)) \<and>
     Get st (Some 0) = Inr (Some (Enqueue.truncate (sample_record 0))) \<and> Get st (Some 1) = Inr None \<and>
     GetBlock st (Some 7) = Inr \<lparr>resp_Block = Some (sample_block 7), resp_Batch = Some BlobReads.sample_batch\<rparr> \<and>
     Get st' (Some 0) = Get st (Some 0) \<and> Get st' (Some 1) \<noteq> Inr None \<and> GetBlock st' (Some 7) = GetBlock st (Some 7)"
proof -
  obtain db status where start: "fst (startService sample_service sample_config (sample_pebble [])) = Inr (2, db, status)"
    and d: "queue_rep (s_db db) zero_State []" "blob_inv (s_db db) (stored_state zero_BlobState) empty_view" "fault_free (s_db db)"
      "\<not> s_closed db" "ss_fatal status = None" by (rule sample_begin)
  obtain l st st' where path: "(system_step sample_config)\<^sup>*\<^sup>* (serving 2, (db, status)) (serving 2, (st, status))"
      "(system_step sample_config)\<^sup>*\<^sup>* (serving 2, (st, status)) (serving 2, (st', status))"
    and q: "queue_rep (s_db st) (sample_State\<lparr>st_Latest := latest_of [sample_record 0]\<rparr>) [sample_record 0]"
      "queue_rep (s_db st') (sample_State\<lparr>st_Latest := latest_of [sample_record 0, sample_record 1]\<rparr>) [sample_record 0, sample_record 1]"
    and ok: "\<And>s. s = st \<or> s = st' \<Longrightarrow> blob_inv (s_db s) (sample_blob_state l) sample_view \<and> fault_free (s_db s) \<and> \<not> s_closed s"
    by (rule sample_life [OF d]) (rule that)
  have facts: "fault_free (s_db st)" "\<not> s_closed st" "fault_free (s_db st')" "\<not> s_closed st'" and inv: "blob_inv (s_db st) (sample_blob_state l) sample_view"
    using ok by blast+
  note keep = answers_never_change [OF fault_free_sample sample_disk start path facts]
  let ?resp = "\<lparr>resp_Block = Some (sample_block 7), resp_Batch = Some BlobReads.sample_batch\<rparr>"
  have read: "GetBlock st (Some 7) = Inr ?resp"
    using GetBlock_view [OF inv q(1) facts(1,2), of "Some 7"]
    by (simp add: view_get_def read_block_def obstacle_def sample_view_def sample_block_def sample_channel_def full_block_def)
  have "BlobState st' = Inr (sample_blob_state l)"
    using ok [of st'] readBlobState_fault_free by (simp add: BlobStore.BlobState_def blob_inv_def)
  then have "GetBlock st' (Some 7) = Inr ?resp"
    by (intro conjunct2 [OF keep, rule_format, of "sample_blob_state l" sample_view 7 "''c''" "sample_block 7" "bc_Record (sample_channel [7])"
        "sample_blob_state l" ?resp])
      (use inv read in \<open>simp add: sample_view_def sample_blob_state_def sample_after_def sample_channel_def empty_response_def\<close>)
  moreover have "Get st (Some 0) = Inr (Some (Enqueue.truncate (sample_record 0)))" "Get st (Some 1) = Inr None" "Get st' (Some 1) \<noteq> Inr None"
    using Get_index [OF q(1) facts(2,1)] Get_index [OF q(2) facts(4,3)] by simp_all
  moreover from this(1) keep have "Get st' (Some 0) = Inr (Some (Enqueue.truncate (sample_record 0)))" by blast
  ultimately show ?thesis using start path read by metis
qed



text \<open>A channel with a repeated block, committed by this service.\<close>

definition twice_view :: blob_view where
  "twice_view = \<lparr>v_txs = [1 \<mapsto> sample_btx], v_channels = [''c'' \<mapsto> bc_Record (sample_channel [7, 7])],
     v_blocks = [7 \<mapsto> (''c'', sample_block 7)]\<rparr>"

lemma twice_commit: "view_commit 50 [sample_btx] [sample_channel [7, 7]] empty_view = Some twice_view"
  by (auto simp: view_commit_def view_put_tx_def add_tx_def empty_view_def sample_btx_def view_put_channel_def
      sample_channel_def sources_ok_def oldest_source_def tx_time_def view_put_block_def sample_block_def
      BlobReads.sample_batch_def add_block_def prune_view_def prune_txs_def prune_channels_def expired_channel_def
      expired_tx_def twice_view_def fun_eq_iff view_prune_def prunable_def)

theorem duplicate_block_never_expires_witness:
  "\<exists>db status st e. fst (startService sample_service sample_config (sample_pebble [])) = Inr (2, db, status) \<and>
     (system_step sample_config)\<^sup>*\<^sup>* (serving 2, (db, status)) (serving 2, (st, status)) \<and>
     fst (CommitBlob db (stored_state zero_BlobState) (sample_after 50) [sample_btx] [sample_channel [7, 7]]) = Inr () \<and>
     CommitBlob st (sample_blob_state (Some 7)) (sample_after 200) [] [] = (Inl e, st) \<and> errors_is ErrIntegrity e"
proof -
  obtain db status where start: "fst (startService sample_service sample_config (sample_pebble [])) = Inr (2, db, status)"
    and d: "queue_rep (s_db db) zero_State []" "blob_inv (s_db db) (stored_state zero_BlobState) empty_view" "fault_free (s_db db)"
      "\<not> s_closed db" "ss_fatal status = None" by (rule sample_begin)
  have rev: "bst_Revision (stored_state zero_BlobState) \<noteq> max_u64" "bst_Cutoff (stored_state zero_BlobState) \<le> bst_Cutoff (sample_after 50)"
    and spec: "view_commit (bst_Cutoff (sample_after 50)) [sample_btx] [sample_channel [7, 7]] empty_view = Some twice_view"
    using twice_commit by (simp_all add: stored_state_def zero_BlobState_def sample_after_def)
  obtain st l where c: "CommitIfHealthy status (\<lambda>st. CommitBlob st (stored_state zero_BlobState) (sample_after 50) [sample_btx] [sample_channel [7, 7]]) db = (Inr (), st)"
    and st: "blob_inv (s_db st) (stored_state ((sample_after 50)\<lparr>bst_Latest := l, bst_Revision := bst_Revision (stored_state zero_BlobState) + 1\<rparr>)) twice_view"
      "fault_free (s_db st)" "\<not> s_closed st"
    by (rule commit_channels [OF d rev spec])
  have step: "system_step sample_config (serving 2, (db, status)) (serving 2, (st, status))"
    by (rule system_step.blob [OF sample_serving], rule blob_action.commit [OF c])
  have accepted: "fst (CommitBlob db (stored_state zero_BlobState) (sample_after 50) [sample_btx] [sample_channel [7, 7]]) = Inr ()"
    using c d(5) by (simp add: CommitIfHealthy_def commitIfHealthy_def)
  have twice: "v_channels twice_view ''c'' = Some (bc_Record (sample_channel [7, 7]))"
    "\<not> distinct (ch_Blocks (bc_Record (sample_channel [7, 7])))"
    "ch_ExpiresAt (bc_Record (sample_channel [7, 7])) < bst_Cutoff (sample_after 200)"
    by (simp_all add: twice_view_def sample_channel_def sample_after_def)
  note never = conjunct2 [OF duplicate_block_never_expires [OF st(1) twice(1,2) rtranclp.rtrancl_refl st(3,2)], rule_format, OF twice(3)]
  from never [of "sample_blob_state (Some 7)" "[]" "[]"] start step accepted show ?thesis by blast
qed

end
