(* ===== verification/BlobLive.thy ===== *)
theory BlobLive
  imports BlobRuns
begin

text \<open>
  Progress of the Blob synchronizer: with a consistent RPC, a checkpoint on the chain and a window
  that can be read, a step advances the retention, prunes what has expired and commits the window.
  Nothing in between fails: neither the repeated checks of the anchors nor the two commits.
\<close>

section \<open>A consistent RPC\<close>

text \<open>The chain does not change while the step runs, and nothing interferes.\<close>

definition consistent :: "blob_env \<Rightarrow> (u64 \<Rightarrow> blobHeader) \<Rightarrow> u64 \<Rightarrow> bool" where
  "consistent E chain tip \<longleftrightarrow>
     (\<forall>k n. bx_HeaderByNumber E k (Some n) = Inr (Some (chain n)) \<and> bh_Number (chain n) = Some (uint n)) \<and>
     (\<forall>k. bx_HeaderByNumber E k None = Inr (Some (chain tip))) \<and> (\<forall>k. bx_ctxErr E k = None) \<and> (\<forall>k x. bx_others E k x = x)"

definition confirmedHeight :: "blob_env \<Rightarrow> u64 \<Rightarrow> u64" where
  "confirmedHeight E tip = (if c_Confirmations (bx_Config E) \<le> tip then tip - c_Confirmations (bx_Config E) else 0)"

text \<open>The anchors of a checkpoint are on the chain.\<close>

definition anchored :: "(u64 \<Rightarrow> blobHeader) \<Rightarrow> BlobState \<Rightarrow> bool" where
  "anchored chain st \<longleftrightarrow> (\<forall>n. bst_Height st = Some n \<longrightarrow> bh_Hash (chain n) = bst_Hash st) \<and>
     (\<forall>n. bst_RetentionHeight st = Some n \<longrightarrow> bh_Hash (chain n) = bst_RetentionHash st)"

lemma call_consistent:
  "consistent E chain tip \<Longrightarrow> call E ans s = (ans (by_calls s), s\<lparr>by_calls := Suc (by_calls s)\<rparr>)"
  by (simp add: call_def consistent_def Let_def)

lemma blobHead_consistent:
  assumes "consistent E chain tip"
  shows "blobHead E n s = (Inr (chain n), s\<lparr>by_calls := Suc (by_calls s)\<rparr>)"
proof -
  have "bx_HeaderByNumber E k (Some n) = Inr (Some (chain n))" "bh_Number (chain n) = Some (uint n)" for k
    using assms by (simp_all add: consistent_def)
  then show ?thesis by (simp add: blobHead_def bindM_def call_consistent [OF assms])
qed

lemma check_consistent:
  "consistent E chain tip \<Longrightarrow> bh_Hash (chain n) = h \<Longrightarrow> check E n h s = (Inr (), s\<lparr>by_calls := Suc (by_calls s)\<rparr>)"
  by (simp add: check_def bindM_def blobHead_consistent)

lemma checkpoint_consistent:
  assumes "consistent E chain tip" "anchored chain st"
  shows "\<exists>k. checkpoint E st s = (Inr (), s\<lparr>by_calls := k\<rparr>)"
  using assms(2)
  by (cases "bst_RetentionHeight st"; cases "bst_Height st")
    (auto simp: checkpoint_def bindM_def anchored_def check_consistent [OF assms(1)] intro: exI [of _ "by_calls s"])

lemma tipTarget_consistent:
  assumes "consistent E chain tip"
  shows "tipTarget E s = (Inr (confirmedHeight E tip), s\<lparr>by_calls := Suc (by_calls s)\<rparr>)"
proof -
  have "bx_HeaderByNumber E k None = Inr (Some (chain tip))" "bh_Number (chain tip) = Some (uint tip)" for k
    using assms by (simp_all add: consistent_def)
  then show ?thesis by (simp add: tipTarget_def bindM_def call_consistent [OF assms] confirmedHeight_def)
qed

section \<open>States in which a commit succeeds\<close>

text \<open>A healthy service with a working database that holds the checkpoint and the view.\<close>

definition live_at :: "BlobState \<Rightarrow> blob_view \<Rightarrow> BlobSyncer \<Rightarrow> bool" where
  "live_at st V s \<longleftrightarrow> rep_at st (Some V) s \<and> ss_fatal (by_Status s) = None \<and> \<not> s_closed (by_Store s) \<and> fault_free (s_db (by_Store s))"

text \<open>What does not commit keeps store and health, if the others do nothing.\<close>

definition undisturbed :: "blob_env \<Rightarrow> BlobSyncer \<Rightarrow> BlobSyncer \<Rightarrow> bool" where
  "undisturbed E s t \<longleftrightarrow> ((\<forall>k x. bx_others E k x = x) \<longrightarrow> by_Store t = by_Store s \<and> ss_fatal (by_Status t) = ss_fatal (by_Status s) \<and>
     (status_inv (by_Status s) \<longrightarrow> status_inv (by_Status t)))"

interpretation qk: blob_kept "undisturbed E" E for E
  by unfold_locales
    (auto simp: undisturbed_def reflp_def transp_def preserves_def blob_yielded_def setBackfills_def setBlobBootstrap_def
      setBlobReadyM_def SetBlobReady_def status_inv_def)

lemma live_undisturbed: "live_at st V s \<Longrightarrow> consistent E chain tip \<Longrightarrow> undisturbed E s t \<Longrightarrow> live_at st V t"
  by (simp add: live_at_def rep_at_def undisturbed_def consistent_def)

lemma undisturbed_run: "preserves (undisturbed E) m \<Longrightarrow> m s = (r, t) \<Longrightarrow> undisturbed E s t"
  unfolding preserves_def by (metis snd_conv)

lemma live_memory [simp]:
  "live_at st V (s\<lparr>by_calls := k\<rparr>) = live_at st V s" "live_at st V (s\<lparr>by_backfills := b\<rparr>) = live_at st V s"
  "live_at st V (s\<lparr>by_bootstrap := c\<rparr>) = live_at st V s"
  by (simp_all add: live_at_def rep_at_def)

lemma live_ready:
  "live_at st V s \<Longrightarrow> by_Store t = by_Store s \<Longrightarrow> by_Status t = SetBlobReady f (by_Status s) \<Longrightarrow> live_at st V t"
  by (auto simp: live_at_def rep_at_def SetBlobReady_def status_inv_def)

lemma load_live: "live_at st V s \<Longrightarrow> loadBlobState s = (Inr st, s)"
  by (simp add: loadBlobState_def bindM_def BlobState_def live_at_def rep_at_def Let_def readBlobState_fault_free)

lemma commit_live:
  assumes con: "consistent E chain tip" and live: "live_at st V s" and rev: "bst_Revision st \<noteq> max_u64"
    and cut: "bst_Cutoff st \<le> bst_Cutoff after"
    and spec: "view_commit (bst_Cutoff after) txs chs V = Some V'"
  shows "\<exists>s' l. commitBlob E st after txs chs s = (Inr (), s') \<and> by_Beacon s' = by_Beacon s \<and> by_backfills s' = by_backfills s \<and>
    live_at (stored_state (after\<lparr>bst_Latest := l, bst_Revision := bst_Revision st + 1\<rparr>)) V' s'"
proof -
  have inv: "blob_inv (s_db (by_Store s)) st V" using live by (simp add: live_at_def rep_at_def Let_def)
  obtain store' where c: "CommitBlob (by_Store s) st after txs chs = (Inr (), store')"
    using CommitBlob_complete [OF inv _ _ rev cut] live spec by (auto simp: live_at_def)
  let ?s = "s\<lparr>by_Store := store'\<rparr>"
  have run: "commitBlob E st after txs chs s = (Inr (), ?s)"
    using c live con by (simp add: commitBlob_def CommitIfHealthy_def commitIfHealthy_def live_at_def consistent_def wrapIntegrity_def)
  from commitBlob_Inr [OF run, of st "Some V"] live obtain l Vo' where
    va: "view_after (bst_Cutoff after) txs chs (Some V) Vo'"
    and rep: "rep_at (stored_state (after\<lparr>bst_Latest := l, bst_Revision := bst_Revision st + 1\<rparr>)) Vo' ?s"
    by (auto simp: live_at_def)
  have "Vo' = Some V'" using va spec by (simp add: view_after_def)
  moreover have "fault_free (s_db store') \<and> \<not> s_closed store'"
    using CommitBlob_faults [OF blob_inv_dict_ok [OF inv] c] same_faults_fault_free live by (force simp: live_at_def)
  ultimately have "live_at (stored_state (after\<lparr>bst_Latest := l, bst_Revision := bst_Revision st + 1\<rparr>)) V' ?s"
    using rep live by (simp add: live_at_def)
  with run show ?thesis by (intro exI [of _ ?s] exI [of _ l]) simp
qed

lemma unat_max_u64: "unat max_u64 = 18446744073709551615"
  by (simp add: unsigned_minus_1_eq_mask mask_eq_exp_minus_1)

section \<open>Progress of a step\<close>

text \<open>The view and the cutoff once the retention has advanced.\<close>

definition retainedView :: "BlobState \<Rightarrow> blobHeader \<Rightarrow> blob_view \<Rightarrow> blob_view option" where
  "retainedView st confirmed V =
     (if bst_Cutoff st < retentionCutoff confirmed then view_prune (retentionCutoff confirmed) V else Some V)"

definition retainedCutoff :: "BlobState \<Rightarrow> blobHeader \<Rightarrow> u64" where
  "retainedCutoff st confirmed = max (bst_Cutoff st) (retentionCutoff confirmed)"

text \<open>What the preparation leaves for the window.\<close>

definition ready_for :: "(u64 \<Rightarrow> blobHeader) \<Rightarrow> BlobState \<Rightarrow> u64 \<Rightarrow> BlobState \<Rightarrow> bool" where
  "ready_for chain st cutoff st1 \<longleftrightarrow> bst_Height st1 = bst_Height st \<and> bst_Auth st1 = bst_Auth st \<and> bst_Cutoff st1 = cutoff \<and>
     anchored chain st1 \<and> unat (bst_Revision st1) \<le> Suc (unat (bst_Revision st))"

lemma prepare_live:
  assumes con: "consistent E chain tip" and live: "live_at st V s" and anc: "anchored chain st"
    and rev: "unat (bst_Revision st) + 2 < 2 ^ 64" and auth: "bst_Auth st \<noteq> RawNil"
    and view: "retainedView st (chain (confirmedHeight E tip)) V = Some V1"
  defines "target \<equiv> confirmedHeight E tip"
  shows "\<exists>st1 t. prepare E s = (Inr (st1, target), t) \<and> live_at st1 V1 t \<and>
    ready_for chain st (retainedCutoff st (chain target)) st1 \<and> by_Beacon t = by_Beacon s \<and> by_backfills t = by_backfills s"
proof -
  let ?c = "retentionCutoff (chain target)"
  obtain k where k: "checkpoint E st s = (Inr (), s\<lparr>by_calls := k\<rparr>)" using checkpoint_consistent [OF con anc] by blast
  let ?s = "s\<lparr>by_calls := Suc (Suc k), by_Status := SetBlobReady (caughtUp st target) (by_Status s)\<rparr>"
  have live1: "live_at st V ?s" by (rule live_ready [OF live]) simp_all
  have start: "prepare E s = bindM (if bst_Cutoff st < ?c then retain E st target (chain target) else ret st)
      (\<lambda>st. ret (st, target)) ?s"
    by (simp add: prepare_def bindM_def load_live [OF live] k tipTarget_consistent [OF con] blobHead_consistent [OF con]
        setBlobReadyM_def target_def)
  show ?thesis
  proof (cases "bst_Cutoff st < ?c")
    case False
    then have "prepare E s = (Inr (st, target), ?s)" using start by (simp add: bindM_def)
    with False live1 anc view show ?thesis
      by (intro exI [of _ st] exI [of _ ?s]) (auto simp: target_def retainedView_def retainedCutoff_def ready_for_def max_def)
  next
    case True
    let ?after = "st\<lparr>bst_Cutoff := ?c, bst_RetentionHeight := Some target, bst_RetentionHash := bh_Hash (chain target)\<rparr>"
    obtain m where m: "checkpoint E st (?s\<lparr>by_calls := Suc (Suc (Suc k))\<rparr>) = (Inr (), ?s\<lparr>by_calls := m\<rparr>)"
      using checkpoint_consistent [OF con anc, of "?s\<lparr>by_calls := Suc (Suc (Suc k))\<rparr>"] by auto
    have live2: "live_at st V (?s\<lparr>by_calls := m\<rparr>)" by (rule live_ready [OF live]) simp_all
    have r: "bst_Revision st \<noteq> max_u64" using rev by (auto simp: unat_max_u64)
    have "view_commit (bst_Cutoff ?after) [] [] V = Some V1"
      using view True by (simp add: view_commit_def retainedView_def target_def)
    moreover have "bst_Cutoff st \<le> bst_Cutoff ?after" using True by simp
    ultimately obtain t l where
      c: "commitBlob E st ?after [] [] (?s\<lparr>by_calls := m\<rparr>) = (Inr (), t)" "by_Beacon t = by_Beacon s" "by_backfills t = by_backfills s"
      and live3: "live_at (stored_state (?after\<lparr>bst_Latest := l, bst_Revision := bst_Revision st + 1\<rparr>)) V1 t"
      using commit_live [OF con live2 r] by fastforce
    let ?st1 = "?after\<lparr>bst_Latest := l, bst_Revision := bst_Revision st + 1\<rparr>"
    have stored: "stored_state ?st1 = ?st1" using auth by (simp add: stored_state_def)
    have "unat (bst_Revision st + 1) = Suc (unat (bst_Revision st))" using rev by (simp add: unat_add_lem [THEN iffD1])
    moreover have "prepare E s = (Inr (?st1, target), t)"
      using start True m c load_live [OF live3] stored
      by (simp add: retain_def bindM_def check_consistent [OF con])
    ultimately show ?thesis
      using live3 True c anc stored
      by (intro exI [of _ ?st1] exI [of _ t]) (auto simp: retainedCutoff_def ready_for_def anchored_def max_def)
  qed
qed

text \<open>
  The window between two heights can be read: from every live state with the checkpoint and the
  memory of \<open>s\<close>, the log queries and the scan return the given results.
\<close>

definition readable :: "blob_env \<Rightarrow> BlobSyncer \<Rightarrow> u64 \<Rightarrow> blob_view \<Rightarrow> authorization \<Rightarrow> u64 \<Rightarrow> u64 \<Rightarrow>
    BlobTransaction list \<times> BlobChannel list \<times> authorization \<Rightarrow> bool" where
  "readable E s cutoff V a from end x \<longleftrightarrow> (\<forall>st t. live_at st V t \<and> by_Beacon t = by_Beacon s \<and> by_backfills t = by_backfills s \<longrightarrow>
     (\<exists>logs a1 t1 t2. authLogs E a from end t = (Inr (logs, a1), t1) \<and> scan E a1 logs from end cutoff t1 = (Inr x, t2)))"

lemma scan_live:
  assumes con: "consistent E chain tip" and live: "live_at st V t" and mem: "by_Beacon t = by_Beacon s" "by_backfills t = by_backfills s"
    and read: "readable E s (bst_Cutoff st) V a from end (txs, chs, a2)"
    and anc: "anchored chain st" and h: "bst_Height st = Some h" and rev: "bst_Revision st \<noteq> max_u64"
    and spec: "view_commit (bst_Cutoff st) txs chs V = Some V'"
    and win: "windowStart E st = from" "windowEnd E from target = end"
  shows "\<exists>s' l. scanWindowBlob E st target a t = (Inr (end = target), s') \<and>
    live_at (st\<lparr>bst_Height := Some end, bst_Hash := bh_Hash (chain end), bst_Auth := marshalAuth a2, bst_Latest := l,
      bst_Revision := bst_Revision st + 1\<rparr>) V' s'"
proof -
  let ?t = "t\<lparr>by_calls := Suc (by_calls t)\<rparr>"
  from read live mem obtain logs a1 t1 t2 where logs: "authLogs E a from end ?t = (Inr (logs, a1), t1)"
    and scan: "scan E a1 logs from end (bst_Cutoff st) t1 = (Inr (txs, chs, a2), t2)"
    unfolding readable_def by (metis live_memory(1) BlobSyncer.select_convs(3,5) BlobSyncer.update_convs(6) BlobSyncer.surjective)
  have live1: "live_at st V t1"
    using live_undisturbed [OF _ con undisturbed_run [OF qk.authLogs_part logs]] live by simp
  have live2: "live_at st V t2" using live_undisturbed [OF live1 con undisturbed_run [OF qk.scan_part scan]] .
  obtain k where k: "checkpoint E st (t2\<lparr>by_calls := Suc (by_calls t2)\<rparr>) = (Inr (), t2\<lparr>by_calls := k\<rparr>)"
    using checkpoint_consistent [OF con anc, of "t2\<lparr>by_calls := Suc (by_calls t2)\<rparr>"] by auto
  let ?after = "st\<lparr>bst_Height := Some end, bst_Hash := bh_Hash (chain end), bst_Auth := marshalAuth a2\<rparr>"
  have "live_at st V (t2\<lparr>by_calls := k\<rparr>)" using live2 by simp
  from commit_live [OF con this rev, of ?after txs chs V'] spec obtain t3 l where c: "commitBlob E st ?after txs chs (t2\<lparr>by_calls := k\<rparr>) = (Inr (), t3)"
    and live3: "live_at (stored_state (?after\<lparr>bst_Latest := l, bst_Revision := bst_Revision st + 1\<rparr>)) V' t3"
    by auto
  let ?s' = "t3\<lparr>by_bootstrap := None, by_backfills := [], by_Status := SetBlobReady (end = target) (by_Status t3)\<rparr>"
  have "scanWindowBlob E st target a t = (Inr (end = target), ?s')"
    using logs scan k c h win
    by (simp add: scanWindowBlob_def bindM_def blobHead_consistent [OF con] orPending_def scanAndCommitBlob_def
        check_consistent [OF con] checkBlobBootstrap_def setBlobBootstrap_def setBackfills_def setBlobReadyM_def Let_def)
  moreover have "live_at (stored_state (?after\<lparr>bst_Latest := l, bst_Revision := bst_Revision st + 1\<rparr>)) V' ?s'"
    by (rule live_ready [OF live3]) simp_all
  ultimately show ?thesis by (auto simp: stored_marshal)
qed

section \<open>A changed anchor\<close>

text \<open>The anchors that a step checks, in order: the retention anchor and the scan checkpoint.\<close>

definition anchors :: "BlobState \<Rightarrow> (u64 \<times> hash) list" where
  "anchors st = (case bst_RetentionHeight st of None \<Rightarrow> [] | Some n \<Rightarrow> [(n, bst_RetentionHash st)]) @
     (case bst_Height st of None \<Rightarrow> [] | Some n \<Rightarrow> [(n, bst_Hash st)])"

text \<open>The RPC answers an anchor with a header of its height, and with its hash or another one.\<close>

definition header_at :: "blob_env \<Rightarrow> nat \<Rightarrow> u64 \<Rightarrow> blobHeader \<Rightarrow> bool" where
  "header_at E k n hdr \<longleftrightarrow> bx_HeaderByNumber E k (Some n) = Inr (Some hdr) \<and> bh_Number hdr = Some (uint n)"

definition unchanged :: "blob_env \<Rightarrow> nat \<Rightarrow> u64 \<times> hash \<Rightarrow> bool" where
  "unchanged E k a \<longleftrightarrow> (\<exists>hdr. header_at E k (fst a) hdr \<and> bh_Hash hdr = snd a)"

primrec checks :: "blob_env \<Rightarrow> (u64 \<times> hash) list \<Rightarrow> unit bsync" where
  "checks E [] = ret ()"
| "checks E (a # as) = bindM (check E (fst a) (snd a)) (\<lambda>_. checks E as)"

lemma checkpoint_checks: "checkpoint E st s = checks E (anchors st) s"
  by (cases "bst_RetentionHeight st"; cases "bst_Height st")
    (auto simp: checkpoint_def anchors_def bindM_def split: prod.splits sum.splits)

lemma check_changed:
  assumes "header_at E (by_calls s) n hdr" "bh_Hash hdr \<noteq> x"
  shows "\<exists>s'. check E n x s = (Inl (fatal ''Blob scan anchor changed''), s')"
  using assms by (auto simp: header_at_def check_def blobHead_def bindM_def call_def Let_def split: prod.splits)

lemma check_unchanged:
  assumes "unchanged E (by_calls s) (n, x)"
  shows "\<exists>s'. check E n x s = (Inr (), s') \<and> by_calls s' = Suc (by_calls s)"
  using assms by (auto simp: unchanged_def header_at_def check_def blobHead_def bindM_def call_def Let_def split: prod.splits)

lemma checks_changed:
  assumes "\<forall>j < length before. unchanged E (by_calls s + j) (before ! j)"
    and "header_at E (by_calls s + length before) n hdr" "bh_Hash hdr \<noteq> x"
  shows "\<exists>s'. checks E (before @ (n, x) # after) s = (Inl (fatal ''Blob scan anchor changed''), s')"
  using assms
proof (induction before arbitrary: s)
  case Nil
  then obtain s' where "check E n x s = (Inl (fatal ''Blob scan anchor changed''), s')"
    using check_changed [of E s n hdr x] by auto
  then show ?case by (simp add: bindM_def)
next
  case (Cons a as)
  from Cons.prems(1) have "unchanged E (by_calls s) (fst a, snd a)" by force
  from check_unchanged [OF this] obtain t where t: "check E (fst a) (snd a) s = (Inr (), t)" "by_calls t = Suc (by_calls s)" by blast
  have "\<forall>j < length as. unchanged E (by_calls t + j) (as ! j)"
    using Cons.prems(1) t(2) by (metis add_Suc add_Suc_right length_Cons Suc_less_eq nth_Cons_Suc)
  with Cons.IH [of t] Cons.prems(2,3) t show ?case by (simp add: bindM_def)
qed

lemma BlobStep_changed:
  assumes live: "rep_at st Vo s" "ss_fatal (by_Status s) = None" "\<not> s_closed (by_Store s)" "fault_free (s_db (by_Store s))"
    and anchor: "anchors st = before @ (n, x) # after" and same: "\<forall>j < length before. unchanged E (by_calls s + j) (before ! j)"
    and ans: "header_at E (by_calls s + length before) n hdr" "bh_Hash hdr \<noteq> x"
  shows "\<exists>s'. BlobStep E s = (Inl (fatal ''Blob scan anchor changed''), s') \<and> checkpoint E st s = (Inl (fatal ''Blob scan anchor changed''), s')"
proof -
  have load: "loadBlobState s = (Inr st, s)"
    using live by (simp add: loadBlobState_def bindM_def BlobState_def rep_at_def Let_def readBlobState_fault_free)
  obtain s' where "checkpoint E st s = (Inl (fatal ''Blob scan anchor changed''), s')"
    using checks_changed [OF same ans] unfolding checkpoint_checks anchor by blast
  with load live(2) show ?thesis by (simp add: BlobStep_def bindM_def Snapshot_def prepare_def)
qed

lemma blob_reorg:
  assumes others: "blob_others_ok E"
    and live: "rep_at st Vo s" "ss_fatal (by_Status s) = None" "\<not> s_closed (by_Store s)" "fault_free (s_db (by_Store s))"
    and anchor: "anchors st = before @ (n, x) # after" and same: "\<forall>j < length before. unchanged E (by_calls s + j) (before ! j)"
    and ans: "header_at E (by_calls s + length before) n hdr" "bh_Hash hdr \<noteq> x"
  shows "\<exists>s'. blobRunOnce E s = (Stop, s') \<and> rep_at st Vo s' \<and> ss_fatal (by_Status s') \<noteq> None \<and> \<not> fst (Snapshot (by_Status s'))"
proof -
  let ?e = "fatal ''Blob scan anchor changed''"
  obtain s1 where step: "BlobStep E s = (Inl ?e, s1)" "checkpoint E st s = (Inl ?e, s1)"
    using BlobStep_changed [OF live anchor same ans] by blast
  let ?s2 = "s1\<lparr>by_Status := SetBlobReady False (by_Status s1)\<rparr>"
  have "rep_at st Vo s1" using keepBD [OF checkpoint_keeps [OF others] live(1) step(2)] .
  then have rep: "rep_at st Vo ?s2" using keepBD [OF memory_keeps(3), of st Vo s1] by (simp add: setBlobReadyM_def)
  then have "status_inv (by_Status ?s2)" by (simp add: rep_at_def)
  from status_inv_records [OF this, of False ?e] obtain t where
    t: "setStatus False (Some ?e) (by_Status ?s2) = Some t" "status_inv t" "ss_fatal t \<noteq> None" "\<not> fst (Snapshot t)" by blast
  then have "blobRunOnce E s = (Stop, ?s2\<lparr>by_Status := t\<rparr>)"
    using step by (simp add: blobRunOnce_def setBlobReadyM_def setFatalM_def fatal_def)
  moreover have "rep_at st Vo (?s2\<lparr>by_Status := t\<rparr>)" using rep t(2) by (simp add: rep_at_def)
  ultimately show ?thesis using t by (intro exI [of _ "?s2\<lparr>by_Status := t\<rparr>"]) simp
qed

section \<open>The property\<close>

text \<open>The step that commits a window.\<close>

lemma BlobStep_live:
  fixes chain :: "u64 \<Rightarrow> blobHeader"
  assumes "consistent E chain tip" and "live_at st V s" and "anchored chain st" and "storedAuth st = Inr a"
    and "bst_Height st = Some h" and "target = confirmedHeight E tip" and "h < target" and "c_InboxStart (bx_Config E) \<le> target"
    and "unat (bst_Revision st) + 2 < 2 ^ 64" and "end = windowEnd E (h + 1) target"
    and view: "retainedView st (chain target) V = Some V1"
    and read: "readable E s (retainedCutoff st (chain target)) V1 a (h + 1) end (txs, chs, a2)"
    and spec: "view_commit (retainedCutoff st (chain target)) txs chs V1 = Some V'"
  shows "\<exists>st' s'. BlobStep E s = (Inr (end = target), s') \<and> live_at st' V' s' \<and> bst_Height st' = Some end \<and>
    bst_Hash st' = bh_Hash (chain end) \<and> bst_Auth st' = marshalAuth a2 \<and> bst_Cutoff st' = retainedCutoff st (chain target)"
proof -
  have auth: "bst_Auth st \<noteq> RawNil" using assms(4) by (auto simp: storedAuth_def)
  from prepare_live [OF assms(1-3,9) auth view [unfolded assms(6)]] obtain st1 t where prep: "prepare E s = (Inr (st1, target), t)"
    and live: "live_at st1 V1 t" and st1: "ready_for chain st (retainedCutoff st (chain target)) st1"
    and mem: "by_Beacon t = by_Beacon s" "by_backfills t = by_backfills s"
    unfolding assms(6) by blast
  have f: "bst_Height st1 = Some h" "storedAuth st1 = Inr a" "bst_Cutoff st1 = retainedCutoff st (chain target)" "anchored chain st1"
    using st1 assms(4,5) auth by (simp_all add: ready_for_def storedAuth_def)
  have rev: "bst_Revision st1 \<noteq> max_u64" using st1 assms(9) by (auto simp: ready_for_def unat_max_u64)
  have win: "windowStart E st1 = h + 1" "windowEnd E (h + 1) target = end" using f(1) assms(10) by (simp_all add: windowStart_def)
  obtain s' l where run: "scanWindowBlob E st1 target a t = (Inr (end = target), s')"
    and live': "live_at (st1\<lparr>bst_Height := Some end, bst_Hash := bh_Hash (chain end), bst_Auth := marshalAuth a2, bst_Latest := l,
      bst_Revision := bst_Revision st1 + 1\<rparr>) V' s'"
    using scan_live [where txs = txs and chs = chs and a = a and ?a2.0 = a2 and V' = V', OF assms(1) live mem _ f(4,1) rev _ win] read spec f(3) by auto
  have go: "\<not> caughtUp st1 target" "\<not> target < c_InboxStart (bx_Config E)"
    using f(1) assms(7,8) by (simp_all add: caughtUp_def)
  have "BlobStep E s = (Inr (end = target), s')"
    using prep run f(1,2) assms(2) go
    by (simp add: BlobStep_def bindM_def Snapshot_def live_at_def initialize_def orPending_def)
  with live' f(3) show ?thesis by fastforce
qed

text \<open>C34.
  Progress of the Blob synchronizer, from an existing checkpoint: on a healthy service with a
  working database and a consistent RPC, a step whose checkpoint is on the chain below the
  confirmed target advances the retention, prunes what has expired and, if the next window can be
  read and its channels fit the view, commits that window: the checkpoint is then at its end, with
  the hash of that block, the authorization after its logs and the view extended by its channels.
  The view must be prunable: no channel that expires may list a block twice.\<close>

theorem BlobStep_makes_progress:
  fixes chain :: "u64 \<Rightarrow> blobHeader"
  assumes "consistent E chain tip" and "live_at st V s" and "anchored chain st" and "storedAuth st = Inr a"
    and "bst_Height st = Some h" and "target = confirmedHeight E tip" and "h < target" and "c_InboxStart (bx_Config E) \<le> target"
    and "unat (bst_Revision st) + 2 < 2 ^ 64" and "end = windowEnd E (h + 1) target"
    and "retainedView st (chain target) V = Some V1"
    and "readable E s (retainedCutoff st (chain target)) V1 a (h + 1) end (txs, chs, a2)"
    and "view_commit (retainedCutoff st (chain target)) txs chs V1 = Some V'"
  shows "\<exists>st' s'. BlobStep E s = (Inr (end = target), s') \<and> live_at st' V' s' \<and> bst_Height st' = Some end \<and>
    bst_Hash st' = bh_Hash (chain end) \<and> bst_Auth st' = marshalAuth a2 \<and> bst_Cutoff st' = retainedCutoff st (chain target)"
  by (rule BlobStep_live [OF assms])

subsection \<open>A step that prunes a channel and commits an empty window\<close>

definition live_head :: "u64 \<Rightarrow> blobHeader" where
  "live_head n = \<lparr>bh_Number = Some (uint n), bh_Hash = 2, bh_Time = BlobRetentionSeconds + 101, bh_SlotNumber = None\<rparr>"

definition live_blobs :: blob_env where
  "live_blobs = scan_env\<lparr>bx_Config := (bx_Config scan_env)\<lparr>c_InboxStart := 5\<rparr>,
     bx_HeaderByNumber := (\<lambda>_ n. Inr (Some (live_head (case n of None \<Rightarrow> 14 | Some n \<Rightarrow> n)))),
     bx_BlockByNumber := (\<lambda>_ n. Inr (Some (carrier_block\<lparr>lb_Number := uint n\<rparr>)))\<rparr>"

definition live_state :: BlobState where
  "live_state = (sample_after 50)\<lparr>bst_Auth := marshalAuth newAuthorization, bst_Latest := Some 7, bst_Revision := 1\<rparr>"

definition live_syncer :: "Store \<Rightarrow> BlobSyncer" where
  "live_syncer st = scan_syncer\<lparr>by_Store := st\<rparr>"

lemma live_consistent: "consistent live_blobs live_head 14"
  by (simp add: consistent_def live_blobs_def live_head_def scan_env_def)

lemma live_target: "confirmedHeight live_blobs 14 = 12" "windowEnd live_blobs (10 + 1) 12 = 12"
  by (simp_all add: confirmedHeight_def windowEnd_def live_blobs_def scan_env_def sample_Config_def word_le_nat_alt)

lemma live_retention: "retentionCutoff (live_head n) = 101" "retainedCutoff live_state (live_head n) = 101"
  "retainedView live_state (live_head n) sample_view = Some (prune_view 101 sample_view)"
proof -
  show c: "retentionCutoff (live_head n) = 101"
    by (simp add: retentionCutoff_def live_head_def BlobRetentionSeconds_def word_le_nat_alt)
  show "retainedCutoff live_state (live_head n) = 101" "retainedView live_state (live_head n) sample_view = Some (prune_view 101 sample_view)"
    by (auto simp: retainedCutoff_def retainedView_def c live_state_def sample_after_def max_def view_prune_def
        prunable_def sample_view_def sample_channel_def)
qed

lemma live_sel:
  "bx_FilterLogs live_blobs k q = Inr []" "bx_sort live_blobs [] = []" "au_Known newAuthorization = []"
  "bx_BlockByNumber live_blobs k n = Inr (Some (carrier_block\<lparr>lb_Number := uint n\<rparr>))"
  by (simp_all add: live_blobs_def scan_env_def sort_logs_def newAuthorization_def)

lemma live_auth_logs: "\<exists>t'. authLogs live_blobs newAuthorization from end t = (Inr ([], newAuthorization), t')"
  by (simp add: authLogs_def bindM_def call_consistent [OF live_consistent] live_sel orderedLogs_def)

lemma live_submission: "submission live_blobs a carrier_tx b i c r = ret r"
  by (simp add: submission_def carrier_tx_def Let_def)

lemma live_block:
  "\<exists>t'. scanBlock live_blobs c n (newAuthorization, [], emptyResult) t = (Inr (newAuthorization, [], emptyResult), t')"
  by (simp add: scanBlock_def bindM_def call_consistent [OF live_consistent] live_sel lb_NumberU64_def live_submission)
    (simp add: carrier_block_def bindM_def live_submission)

lemma live_scan: "\<exists>t'. scan live_blobs newAuthorization [] 11 12 c t = (Inr ([], [], newAuthorization), t')"
proof -
  have h: "heights 11 12 = [11, 12]" by (simp add: heights_def)
  obtain t1 where t1: "scanBlock live_blobs c 11 (newAuthorization, [], emptyResult) t = (Inr (newAuthorization, [], emptyResult), t1)"
    using live_block by blast
  obtain t2 where "scanBlock live_blobs c 12 (newAuthorization, [], emptyResult) t1 = (Inr (newAuthorization, [], emptyResult), t2)"
    using live_block by blast
  with t1 show ?thesis by (simp add: scan_def h bindM_def emptyResult_def)
qed

text \<open>The state before that step, and what its hypotheses ask for.\<close>

lemma live_start:
  obtains store where "live_at live_state sample_view (live_syncer store)"
proof -
  have auth: "marshalAuth newAuthorization \<noteq> RawNil" by (simp add: marshalAuth_def)
  obtain store where "CommitBlob sample_blob_store (stored_state zero_BlobState) ((sample_after 50)\<lparr>bst_Auth := marshalAuth newAuthorization\<rparr>)
      [sample_btx] [sample_channel [7]] = (Inr (), store)"
    and store: "blob_inv (s_db store) ((sample_after 50)\<lparr>bst_Auth := marshalAuth newAuthorization, bst_Latest := Some 7, bst_Revision := 1\<rparr>) sample_view"
      "fault_free (s_db store)" "\<not> s_closed store" "queue_rep (s_db store) zero_State []" by (rule sample_commit_auth [OF auth])
  note store = store [folded live_state_def]
  have "live_at live_state sample_view (live_syncer store)"
    using store queue_rep_dict_ok [OF store(4)] by (simp add: live_at_def rep_at_def live_syncer_def scan_syncer_def status_inv_def zero_Status_def blob_inv_def)
  then show ?thesis by (rule that)
qed

lemma live_facts:
  "anchored live_head live_state" "storedAuth live_state = Inr newAuthorization" "bst_Height live_state = Some 10"
  "unat (bst_Revision live_state) + 2 < 2 ^ 64" "c_InboxStart (bx_Config live_blobs) \<le> 12" "(10 :: u64) < 12"
proof -
  show "anchored live_head live_state" by (simp add: anchored_def live_state_def sample_after_def live_head_def)
  show "storedAuth live_state = Inr newAuthorization"
    using cloneAuth_Inr [of newAuthorization newAuthorization]
    by (simp add: storedAuth_def live_state_def cloneAuth_def auth_valid_def managers_def newAuthorization_def marshalAuth_def)
qed (simp_all add: live_state_def sample_after_def live_blobs_def word_le_nat_alt word_less_nat_alt)

lemma live_readable:
  "readable live_blobs s (retainedCutoff live_state (live_head 12)) V newAuthorization (10 + 1) 12 ([], [], newAuthorization)"
  unfolding readable_def
proof (intro allI impI)
  fix st t
  obtain t1 where logs: "authLogs live_blobs newAuthorization (10 + 1) 12 t = (Inr ([], newAuthorization), t1)" using live_auth_logs by blast
  obtain t2 where "scan live_blobs newAuthorization [] (10 + 1) 12 (retainedCutoff live_state (live_head 12)) t1 =
      (Inr ([], [], newAuthorization), t2)" using live_scan by fastforce
  with logs show "\<exists>logs a1 t1 t2. authLogs live_blobs newAuthorization (10 + 1) 12 t = (Inr (logs, a1), t1) \<and>
      scan live_blobs a1 logs (10 + 1) 12 (retainedCutoff live_state (live_head 12)) t1 = (Inr ([], [], newAuthorization), t2)" by blast
qed

lemma live_commit:
  "view_commit (retainedCutoff live_state (live_head 12)) [] [] (prune_view 101 sample_view) = Some (prune_view 101 sample_view)"
  by (auto simp: view_commit_def live_retention view_prune_def prunable_def prune_view_def prune_txs_def prune_channels_def
      expired_channel_def expired_tx_def sample_view_def sample_channel_def sample_btx_def fun_eq_iff)

lemma live_pruned: "v_blocks (prune_view 101 sample_view) 7 = None" "v_blocks sample_view 7 \<noteq> None"
  by (auto simp: prune_view_def prune_txs_def prune_channels_def expired_channel_def sample_view_def sample_channel_def)

lemmas live_hypotheses = live_facts(1-3) live_target(1) [symmetric] live_facts(6,5,4) live_target(2) [symmetric]
  live_retention(3) live_readable live_commit

theorem BlobStep_makes_progress_witness:
  "\<exists>s st' s'. live_at live_state sample_view s \<and> v_blocks sample_view 7 \<noteq> None \<and> BlobStep live_blobs s = (Inr True, s') \<and>
     live_at st' (prune_view 101 sample_view) s' \<and> bst_Height st' = Some 12 \<and> v_blocks (prune_view 101 sample_view) 7 = None"
proof -
  obtain store where live: "live_at live_state sample_view (live_syncer store)" by (rule live_start)
  from BlobStep_makes_progress [OF live_consistent live live_hypotheses] live live_pruned show ?thesis by auto
qed

text \<open>The same step as a witness of C30: it commits a window on a known view.\<close>

theorem BlobStep_commits_window_witness:
  "\<exists>s s' st' V'. rep_at live_state (Some sample_view) s \<and> BlobStep live_blobs s = (Inr True, s') \<and>
     blob_outcome live_blobs (by_calls s) live_state (Some sample_view) (Inr True) st' (Some V') (by_calls s') \<and>
     rep_at st' (Some V') s' \<and> bst_Height live_state = Some 10 \<and> bst_Height st' = Some 12"
proof -
  obtain store where live: "live_at live_state sample_view (live_syncer store)" by (rule live_start)
  let ?s = "live_syncer store"
  from BlobStep_live [OF live_consistent live live_hypotheses] obtain st2 s' where run: "BlobStep live_blobs ?s = (Inr True, s')"
    and st2: "live_at st2 (prune_view 101 sample_view) s'" "bst_Height st2 = Some 12" by auto
  have rep: "rep_at live_state (Some sample_view) ?s" using live by (simp add: live_at_def)
  have env: "blob_others_ok live_blobs" "slice_sort (bx_sort live_blobs)" "c_BatchSize (bx_Config live_blobs) \<noteq> 0"
    using run_env_ok by (simp_all add: live_blobs_def blob_others_ok_def)
  from BlobStep_commits_window [OF env rep run] obtain st' Vo' where
    o: "blob_outcome live_blobs (by_calls ?s) live_state (Some sample_view) (Inr True) st' Vo' (by_calls s')"
    and at: "rep_at st' Vo' s'" by blast
  obtain V' where "Vo' = Some V'"
    using o unfolding blob_outcome_def prepared_def retained_def window_to_def view_after_def by auto
  moreover have "st' = st2" using at st2(1) by (auto simp: live_at_def rep_at_def Let_def)
  ultimately show ?thesis using rep run o at st2(2) live_facts(3) by blast
qed

end
