(* ===== verification/CatchUp.thy ===== *)
theory CatchUp
  imports IngestLive
begin

text \<open>
  The deposit synchronizer catches up.  With an RPC whose answers are consistent and whose logs
  decode, the loop of \<open>Run\<close> reaches the confirmed height from any checkpoint on the chain, and
  from an empty database after the search for the first contract, in a number of iterations that
  the distance and the batch size bound.
\<close>

section \<open>The chain and its logs\<close>

definition confirmed :: "ingest_env \<Rightarrow> u64 \<Rightarrow> u64" where
  "confirmed E tip = (if c_Confirmations (en_Config E) \<le> tip then tip - c_Confirmations (en_Config E) else 0)"

text \<open>
  \<open>Q n\<close> and \<open>C n\<close> are the queue and the active contract after block \<open>n\<close>.  The logs of every
  window above \<open>g\<close>, at most a batch long, decode and lead from the block before it to its end; a
  contract is active at the confirmed height.
\<close>

definition history :: "ingest_env \<Rightarrow> u64 \<Rightarrow> (FilterQuery \<Rightarrow> Log list) \<Rightarrow> (u64 \<Rightarrow> Record list) \<Rightarrow> (u64 \<Rightarrow> address) \<Rightarrow> u64 \<Rightarrow> bool" where
  "history E tip logs_of Q C g \<longleftrightarrow> C (confirmed E tip) \<noteq> 0 \<and>
     (\<forall>m end. g \<le> m \<and> m < end \<and> end \<le> confirmed E tip \<and> end - m \<le> c_BatchSize (en_Config E) \<longrightarrow>
       (\<exists>logs records. windowLogs E logs_of (C m) (m + 1) end = Inr logs \<and>
          decodeLogs E logs (C m) (m + 1) end = Inr (records, C end) \<and> queue_append (Q m) records = Some (Q end)))"

lemma history_later: "history E tip logs_of Q C g \<Longrightarrow> g \<le> h \<Longrightarrow> history E tip logs_of Q C h"
  unfolding history_def by (meson order_trans)

lemma historyD:
  assumes "history E tip logs_of Q C g" "g \<le> m" "m < end" "end \<le> confirmed E tip" "end - m \<le> c_BatchSize (en_Config E)"
  obtains logs records where "windowLogs E logs_of (C m) (m + 1) end = Inr logs"
    "decodeLogs E logs (C m) (m + 1) end = Inr (records, C end)" "queue_append (Q m) records = Some (Q end)"
  using assms unfolding history_def by blast

text \<open>The window after block \<open>g\<close>.\<close>

definition windowEndAt :: "ingest_env \<Rightarrow> u64 \<Rightarrow> u64 \<Rightarrow> u64" where
  "windowEndAt E target g = (if c_BatchSize (en_Config E) \<le> target - (g + 1) then g + c_BatchSize (en_Config E) else target)"

definition windowAt :: "ingest_env \<Rightarrow> u64 \<Rightarrow> State \<Rightarrow> u64 \<Rightarrow> scanWindow" where
  "windowAt E target st g = \<lparr>w_before = st, w_from = g + 1, w_end = windowEndAt E target g, w_target = target, w_endHash = 0, w_ctc = st_CTC st\<rparr>"

lemma next_height:
  fixes g target :: u64
  assumes "g < target"
  shows "unat (target - (g + 1)) + unat g + 1 = unat target" "\<not> target < g + 1" "g + 1 \<noteq> 0"
proof -
  have "unat g < unat target" "unat target < 2 ^ 64" using assms unsigned_less [of target, where ?'a = nat] by (simp_all add: word_less_nat_alt)
  then have suc: "unat (g + 1) = unat g + 1" by (simp add: unat_add_lem [THEN iffD1])
  with \<open>unat g < unat target\<close> have le: "g + 1 \<le> target" by (simp add: word_le_nat_alt)
  then show "\<not> target < g + 1" by simp
  from unat_sub [OF le] suc \<open>unat g < unat target\<close> show "unat (target - (g + 1)) + unat g + 1 = unat target" by simp
  show "g + 1 \<noteq> 0" using suc by (metis Suc_eq_plus1 nat.distinct(1) unat_0)
qed

lemma windowEndAt_range:
  assumes "g < target" "c_BatchSize (en_Config E) \<noteq> 0"
  shows "g < windowEndAt E target g" "windowEndAt E target g \<le> target" "windowEndAt E target g - g \<le> c_BatchSize (en_Config E)"
    "windowEndAt E target g \<noteq> target \<Longrightarrow> unat (windowEndAt E target g) = unat g + unat (c_BatchSize (en_Config E))"
proof -
  let ?B = "c_BatchSize (en_Config E)"
  note n = next_height [OF assms(1)]
  have pos: "0 < unat ?B" using assms(2) by (simp add: unat_gt_0)
  have lim: "unat target < 2 ^ 64" using unsigned_less [of target, where ?'a = nat] by simp
  have short: "unat (g + ?B) = unat g + unat ?B" if "?B \<le> target - (g + 1)"
    using that n(1) lim by (simp add: word_le_nat_alt unat_add_lem [THEN iffD1])
  have gt: "unat g < unat target" using assms(1) by (simp add: word_less_nat_alt)
  have diff: "unat (target - g) = unat target - unat g" using assms(1) by (simp add: unat_sub)
  show "g < windowEndAt E target g" using short pos assms(1) by (auto simp: windowEndAt_def word_less_nat_alt)
  show "windowEndAt E target g \<le> target" using short n(1) by (auto simp: windowEndAt_def word_le_nat_alt)
  show "windowEndAt E target g - g \<le> ?B" using n(1) diff by (auto simp: windowEndAt_def word_le_nat_alt)
  show "windowEndAt E target g \<noteq> target \<Longrightarrow> unat (windowEndAt E target g) = unat g + unat ?B"
    using short by (auto simp: windowEndAt_def split: if_splits)
qed

lemma chooseWindow_at:
  assumes "confirmed E tip = target" "g < target" "st_Height st = Some g \<or> st_Height st = None \<and> c_Start (en_Config E) = g + 1"
  shows "chooseWindow (en_Config E) st tip = (False, Some (windowAt E target st g))"
  using assms next_height [OF assms(2)]
  by (auto simp: chooseWindow_def confirmed_def Let_def windowAt_def windowEndAt_def algebra_simps)

section \<open>Iterations\<close>

abbreviation iterate :: "ingest_env \<Rightarrow> Syncer \<Rightarrow> Syncer" where
  "iterate E s \<equiv> snd (runOnce E s)"

lemma Run_first: "Run E t b u \<Longrightarrow> runOnce E s = (n, t) \<Longrightarrow> n \<noteq> Stop \<Longrightarrow> Run E s b u"
proof (induction rule: Run.induct)
  case (start t)
  then show ?case using Run.go [OF Run.start] by (metis)
next
  case (go t v m u)
  then show ?case using Run.go by blast
next
  case (halted t v)
  then show ?case using Run.halted by blast
qed

lemma runOnce_ok:
  assumes "Step E s = (Inr caught, t)" "going t"
  shows "runOnce E s = (if caught then Sleep else Again, t)"
  using assms by (simp add: runOnce_def Snapshot_def going_def)

text \<open>The synchronizer stands at block \<open>n\<close>, and is ready if that is the confirmed height.\<close>

definition stands_at :: "(u64 \<Rightarrow> hash) \<Rightarrow> (u64 \<Rightarrow> Record list) \<Rightarrow> (u64 \<Rightarrow> address) \<Rightarrow> u64 \<Rightarrow> Syncer \<Rightarrow> bool" where
  "stands_at chain Q C n s \<longleftrightarrow> sync_inv (reached chain n (C n) (Q n)) (Q n) s \<and> going s"

lemma Step_at_tip:
  assumes hon: "honest E chain tip logs_of" and at: "stands_at chain Q C (confirmed E tip) s"
  shows "\<exists>t. Step E s = (Inr True, t) \<and> stands_at chain Q C (confirmed E tip) t \<and> ss_ready (sy_Status t)"
proof -
  let ?n = "confirmed E tip"
  let ?st = "reached chain ?n (C ?n) (Q ?n)"
  from at have inv: "sync_inv ?st (Q ?n) s" and go: "going s" by (simp_all add: stands_at_def)
  have state: "State (sy_Store s) = Inr ?st"
    using inv go readState_fault_free by (simp add: sync_inv_def queue_rep_def State_def going_def)
  have top: "chooseWindow (en_Config E) ?st tip = (True, None)" by (simp add: chooseWindow_def confirmed_def Let_def)
  let ?t = "s\<lparr>sy_calls := Suc (Suc (sy_calls s)), sy_Status := (sy_Status s)\<lparr>ss_ready := True\<rparr>\<rparr>"
  have tip: "en_HeaderByNumber E k None = Inr (Some \<lparr>hd_Number = Some (uint tip), hd_Hash = chain tip\<rparr>)" for k
    using hon by (simp add: honest_def)
  have "prepareWindow E s = (Inr None, ?t)"
    using go state top by (simp add: prepareWindow_def bindM_def header_honest [OF hon] rpc_honest [OF hon] tip tipWindow_def
        setM_healthy going_def)
  then have "Step E s = (Inr True, ?t)" using go by (simp add: Step_def bindM_def Snapshot_def going_def)
  moreover have "sync_inv ?st (Q ?n) ?t"
    using inv go by (intro sync_inv_same [OF _ _ inv]) (auto simp: sync_inv_def status_inv_ready going_def)
  moreover have "going ?t" using go by (simp add: going_def)
  ultimately show ?thesis by (auto simp: stands_at_def)
qed

lemma Step_window:
  assumes hon: "honest E chain tip logs_of" and size: "c_BatchSize (en_Config E) \<noteq> 0" and hist: "history E tip logs_of Q C g"
    and at: "stands_at chain Q C g s" and below: "g < confirmed E tip" and n: "n = windowEndAt E (confirmed E tip) g"
  shows "\<exists>t. Step E s = (Inr (n = confirmed E tip), t) \<and> stands_at chain Q C n t \<and> ss_ready (sy_Status t) = (n = confirmed E tip)"
proof -
  let ?st = "reached chain g (C g) (Q g)"
  let ?w = "windowAt E (confirmed E tip) ?st g"
  note range = windowEndAt_range [OF below size]
  obtain logs records where
    "windowLogs E logs_of (C g) (g + 1) n = Inr logs" "decodeLogs E logs (C g) (g + 1) n = Inr (records, C n)"
    "queue_append (Q g) records = Some (Q n)" using historyD [OF hist order_refl range(1,2,3)] by (auto simp: n)
  moreover have "chooseWindow (en_Config E) ?st tip = (False, Some ?w)" by (rule chooseWindow_at [OF refl below]) simp
  moreover have "C (confirmed E tip) \<noteq> 0" using hist by (simp add: history_def)
  ultimately show ?thesis
    using Step_progress [OF hon, of ?st "Q g" s g ?w logs records "C n" "Q n"] at by (auto simp: stands_at_def windowAt_def n)
qed

lemma one_batch_more: "0 < b \<Longrightarrow> (a + b) div b = a div b + (1 :: nat)"
  by (metis add.commute div_add_self2 less_not_refl)

text \<open>From a checkpoint to the confirmed height.\<close>

lemma catch_up:
  assumes hon: "honest E chain tip logs_of" and size: "c_BatchSize (en_Config E) \<noteq> 0" and hist: "history E tip logs_of Q C g"
    and at: "stands_at chain Q C g s" and below: "g \<le> confirmed E tip"
  shows "\<exists>n t. n \<le> (unat (confirmed E tip) - unat g) div unat (c_BatchSize (en_Config E)) + 1 \<and> t = (iterate E ^^ n) s \<and>
    Run E s False t \<and> stands_at chain Q C (confirmed E tip) t \<and> ss_ready (sy_Status t)"
  using hist at below
proof (induction "unat (confirmed E tip) - unat g" arbitrary: g s rule: less_induct)
  case less
  let ?T = "confirmed E tip" and ?B = "unat (c_BatchSize (en_Config E))"
  have one: ?case if "Step E s = (Inr True, t)" "stands_at chain Q C ?T t" "ss_ready (sy_Status t)" for t
  proof -
    have once: "runOnce E s = (Sleep, t)" using runOnce_ok [OF that(1)] that(2) by (simp add: stands_at_def)
    with that Run_first [OF Run.start once] show ?thesis by (intro exI [of _ 1] exI [of _ t]) simp
  qed
  show ?case
  proof (cases "g = ?T")
    case True
    with Step_at_tip [OF hon, of Q C s] less.prems(2) one show ?thesis by blast
  next
    case False
    with less.prems(3) have gT: "g < ?T" by simp
    let ?n = "windowEndAt E ?T g"
    obtain t where step: "Step E s = (Inr (?n = ?T), t)" and t: "stands_at chain Q C ?n t" "ss_ready (sy_Status t) = (?n = ?T)"
      using Step_window [OF hon size less.prems(1,2) gT refl] by blast
    show ?thesis
    proof (cases "?n = ?T")
      case True
      with step t one show ?thesis by simp
    next
      case False
      note range = windowEndAt_range [OF gT size]
      have far: "unat ?n = unat g + ?B" "0 < ?B" using range(4) [OF False] size by (simp_all add: unat_gt_0)
      have le: "unat ?n \<le> unat ?T" using range(2) by (simp add: word_le_nat_alt)
      then have "unat ?T - unat ?n < unat ?T - unat g" using far by linarith
      from less.hyps [OF this history_later [OF less.prems(1) less_imp_le [OF range(1)]] t(1) range(2)] obtain m u where
        m: "m \<le> (unat ?T - unat ?n) div ?B + 1" "u = (iterate E ^^ m) t"
        and u: "Run E t False u" "stands_at chain Q C ?T u" "ss_ready (sy_Status u)" by blast
      have once: "runOnce E s = (Again, t)" using runOnce_ok [OF step] t(1) False by (simp add: stands_at_def)
      have "unat ?T - unat g = (unat ?T - unat ?n) + ?B" using far le by linarith
      then have "(unat ?T - unat g) div ?B = (unat ?T - unat ?n) div ?B + 1" using one_batch_more [OF far(2)] by simp
      with m(1) have "Suc m \<le> (unat ?T - unat g) div ?B + 1" by simp
      moreover have "u = (iterate E ^^ Suc m) s" using m(2) once by (simp only: funpow_Suc_right comp_apply snd_conv)
      ultimately show ?thesis using Run_first [OF u(1) once] u(2,3) by blast
    qed
  qed
qed

section \<open>The search for the first contract\<close>

text \<open>
  What the pages from block \<open>n\<close> back lead to: the contract after the last change of the address in
  the first page, going back, that has one, or none if the chain has no change.
\<close>

function searchCTC :: "ingest_env \<Rightarrow> (FilterQuery \<Rightarrow> Log list) \<Rightarrow> u64 \<Rightarrow> address result" where
  "searchCTC E logs_of n =
     (let size = c_BatchSize (en_Config E);
          from = (if size \<le> n then n - size + 1 else 0);
          logs = logs_of (addressQuery E from n)
      in if size = 0 then Inl (Err ErrOther ''batch size must be positive'')
         else bindE (mapE (checkAddressLog E ''unexpected initialization log'' from n) logs) (\<lambda>_.
           bindE (decodeBootstrapPage E \<lparr>pg_from = from, pg_end = n, pg_logs = logs\<rparr>) (\<lambda>ctc.
             if logs = [] \<and> 0 < from then searchCTC E logs_of (from - 1) else Inr ctc)))"
  by pat_completeness auto
termination
proof (relation "measure (\<lambda>(E, logs_of, n). unat n)")
  show "wf (measure (\<lambda>(E, logs_of, n). unat n))" by simp
  show "((E, logs_of, lo - 1), (E, logs_of, n)) \<in> measure (\<lambda>(E, logs_of, n). unat n)"
    if "size = c_BatchSize (en_Config E)" "lo = (if size \<le> n then n - size + 1 else 0)" "size \<noteq> 0" "logs = [] \<and> 0 < lo"
    for E :: ingest_env and logs_of :: "FilterQuery \<Rightarrow> Log list" and n size lo :: u64 and logs :: "Log list"
  proof -
    from that have le: "size \<le> n" and lo: "lo = n - size + 1" by (auto split: if_splits)
    have "0 < unat size" using that(3) by (simp add: unat_gt_0)
    with page_step(1) [OF that(3) le] have "unat (lo - 1) < unat n" unfolding lo by linarith
    then show ?thesis by simp
  qed
qed

declare searchCTC.simps [simp del]

text \<open>Where the search is: not begun, or at page \<open>n\<close>.\<close>

definition searching :: "ingest_env \<Rightarrow> (u64 \<Rightarrow> hash) \<Rightarrow> u64 \<Rightarrow> Syncer \<Rightarrow> bool" where
  "searching E chain n s \<longleftrightarrow> sync_inv zero_State [] s \<and> going s \<and>
     (sy_bootstrap s = None \<and> n = c_Start (en_Config E) - 1 \<or>
      sy_bootstrap s = Some \<lparr>bs_anchor = chain (c_Start (en_Config E) - 1), bs_next = n, bs_ready = False, bs_ctc = 0\<rparr>)"

lemma loadBootstrapPage_honest:
  assumes hon: "honest E chain tip logs_of" and "c_BatchSize (en_Config E) \<noteq> 0"
    and "from = (if c_BatchSize (en_Config E) \<le> n then n - c_BatchSize (en_Config E) + 1 else 0)"
    and "mapE (checkAddressLog E ''unexpected initialization log'' from n) (logs_of (addressQuery E from n)) = Inr news"
  shows "loadBootstrapPage E n s = (Inr \<lparr>pg_from = from, pg_end = n, pg_logs = logs_of (addressQuery E from n)\<rparr>, s\<lparr>sy_calls := Suc (sy_calls s)\<rparr>)"
proof -
  have ans: "en_FilterLogs E k fq = Inr (logs_of fq)" for k fq using hon by (simp add: honest_def)
  show ?thesis using assms(2,4) unfolding assms(3)
    by (simp add: loadBootstrapPage_def Let_def bindM_def rpc_honest [OF hon] ans)
qed

text \<open>One page: the search moves to the page before, or the contract is known.\<close>

lemma bootstrapStep_honest:
  assumes hon: "honest E chain tip logs_of" and size: "c_BatchSize (en_Config E) \<noteq> 0" and found: "searchCTC E logs_of n = Inr ctc"
    and b: "b = \<lparr>bs_anchor = chain (c_Start (en_Config E) - 1), bs_next = n, bs_ready = False, bs_ctc = 0\<rparr>"
    and boot: "sy_bootstrap s = Some b"
  shows "\<exists>k m. (searchCTC E logs_of m = Inr ctc \<and> unat m + unat (c_BatchSize (en_Config E)) = unat n \<and>
       bootstrapStep E b w s = (Inr None, s\<lparr>sy_calls := k, sy_bootstrap := Some (b\<lparr>bs_next := m\<rparr>)\<rparr>)) \<or>
     bootstrapStep E b w s = (Inr (Some (w\<lparr>w_ctc := ctc\<rparr>)), s\<lparr>sy_calls := k, sy_bootstrap := Some (b\<lparr>bs_ctc := ctc, bs_ready := True\<rparr>)\<rparr>)"
proof -
  let ?B = "c_BatchSize (en_Config E)"
  let ?from = "if ?B \<le> n then n - ?B + 1 else 0"
  let ?logs = "logs_of (addressQuery E ?from n)"
  let ?page = "\<lparr>pg_from = ?from, pg_end = n, pg_logs = ?logs\<rparr>"
  from found size obtain news c where news: "mapE (checkAddressLog E ''unexpected initialization log'' ?from n) ?logs = Inr news"
    and c: "decodeBootstrapPage E ?page = Inr c" and more: "(if ?logs = [] \<and> 0 < ?from then searchCTC E logs_of (?from - 1) else Inr c) = Inr ctc"
    by (subst (asm) searchCTC.simps) (auto simp: Let_def bindE_Inr)
  note load = loadBootstrapPage_honest [OF hon size refl news]
  have anchor: "\<forall>d. sy_bootstrap t = Some d \<longrightarrow> bs_anchor d = chain (c_Start (en_Config E) - 1)" if "sy_bootstrap t = Some b" for t
    using that b by simp
  obtain k where again: "checkBootstrap E (s\<lparr>sy_calls := Suc (sy_calls s)\<rparr>) = (Inr (), s\<lparr>sy_calls := k\<rparr>)"
    using checkBootstrap_honest [OF hon anchor [of "s\<lparr>sy_calls := Suc (sy_calls s)\<rparr>"]] boot by auto
  show ?thesis
  proof (cases "?logs = [] \<and> 0 < ?from")
    case True
    then have "?B \<le> n" by (auto split: if_splits)
    with True have "unat (?from - 1) + unat ?B = unat n" using page_step(1) [OF size] by simp
    moreover have "bootstrapStep E b w s = (Inr None, s\<lparr>sy_calls := k, sy_bootstrap := Some (b\<lparr>bs_next := ?from - 1\<rparr>)\<rparr>)"
      using True load c again by (simp add: bootstrapStep_def b bindM_def setBootstrap_def modifyM_def)
    moreover have "searchCTC E logs_of (?from - 1) = Inr ctc" using more True by simp
    ultimately show ?thesis by (intro exI [of _ k] exI [of _ "?from - 1"]) simp
  next
    case False
    then have "c = ctc" using more by (simp split: if_splits)
    then have "bootstrapStep E b w s = (Inr (Some (w\<lparr>w_ctc := ctc\<rparr>)), s\<lparr>sy_calls := k, sy_bootstrap := Some (b\<lparr>bs_ctc := ctc, bs_ready := True\<rparr>)\<rparr>)"
      using False load c again by (auto simp: bootstrapStep_def b bindM_def setBootstrap_def modifyM_def)
    then show ?thesis by blast
  qed
qed

lemma searching_memory [simp]:
  "searching E chain n s \<Longrightarrow> searching E chain n (s\<lparr>sy_calls := k, sy_Status := (sy_Status s)\<lparr>ss_ready := r\<rparr>\<rparr>)"
  unfolding searching_def by (auto simp: sync_inv_def status_inv_ready going_def)

text \<open>The iteration's part of the search, from the first to the last page.\<close>

lemma initializeCTC_honest:
  assumes hon: "honest E chain tip logs_of" and size: "c_BatchSize (en_Config E) \<noteq> 0" and found: "searchCTC E logs_of n = Inr ctc"
    and w: "w_before w = zero_State" "w_from w = c_Start (en_Config E)" "c_Start (en_Config E) \<noteq> 0"
    and at: "searching E chain n s"
  shows "\<exists>t. (\<exists>m. searchCTC E logs_of m = Inr ctc \<and> unat m + unat (c_BatchSize (en_Config E)) = unat n \<and>
       initializeCTC E w s = (Inr None, t) \<and> searching E chain m t) \<or>
     initializeCTC E w s = (Inr (Some (w\<lparr>w_ctc := ctc\<rparr>)), t) \<and> sync_inv zero_State [] t \<and> going t \<and> rooted E chain zero_State t"
proof -
  let ?b = "\<lparr>bs_anchor = chain (c_Start (en_Config E) - 1), bs_next = n, bs_ready = False, bs_ctc = 0\<rparr>"
  from at have inv: "sync_inv zero_State [] s" and go: "going s" by (simp_all add: searching_def)
  let ?init = "\<lambda>j. initializeCTC E w s = bootstrapStep E ?b w
    (s\<lparr>sy_calls := j, sy_Status := (sy_Status s)\<lparr>ss_ready := False\<rparr>, sy_bootstrap := Some ?b\<rparr>)"
  have fatal: "ss_fatal (sy_Status s) = None" using go by (simp add: going_def)
  note unfold = initializeCTC_def w bindM_def setM_healthy [OF fatal] header_honest [OF hon] setBootstrap_def modifyM_def checkBootstrap_def
  from at consider "sy_bootstrap s = None" "n = c_Start (en_Config E) - 1" | "sy_bootstrap s = Some ?b" by (auto simp: searching_def)
  then obtain j where run: "?init j"
  proof cases
    case 1
    then have "?init (Suc (Suc (sy_calls s)))" by (simp add: unfold zero_State_def) (cases s, simp)
    then show ?thesis by (rule that)
  next
    case 2
    then have "?init (Suc (sy_calls s))" by (simp add: unfold zero_State_def) (cases s, simp)
    then show ?thesis by (rule that)
  qed
  let ?t = "\<lambda>k b. s\<lparr>sy_calls := k, sy_Status := (sy_Status s)\<lparr>ss_ready := False\<rparr>, sy_bootstrap := Some b\<rparr>"
  have inv': "sync_inv zero_State [] (?t k b)" and go': "going (?t k b)" for k b
    using inv go by (auto simp: sync_inv_def status_inv_ready going_def)
  have same: "(?t j b)\<lparr>sy_calls := k, sy_bootstrap := Some c\<rparr> = ?t k c" for k b c by (cases s) simp
  have "sy_bootstrap (?t j ?b) = Some ?b" by simp
  from bootstrapStep_honest [OF hon size found refl this, of w, unfolded same] obtain k m where
    "searchCTC E logs_of m = Inr ctc \<and> unat m + unat (c_BatchSize (en_Config E)) = unat n \<and>
       bootstrapStep E ?b w (?t j ?b) = (Inr None, ?t k (?b\<lparr>bs_next := m\<rparr>)) \<or>
     bootstrapStep E ?b w (?t j ?b) = (Inr (Some (w\<lparr>w_ctc := ctc\<rparr>)), ?t k (?b\<lparr>bs_ctc := ctc, bs_ready := True\<rparr>))" by blast
  then show ?thesis
  proof
    assume "searchCTC E logs_of m = Inr ctc \<and> unat m + unat (c_BatchSize (en_Config E)) = unat n \<and>
       bootstrapStep E ?b w (?t j ?b) = (Inr None, ?t k (?b\<lparr>bs_next := m\<rparr>))"
    moreover have "searching E chain m (?t k (?b\<lparr>bs_next := m\<rparr>))" using inv' go' by (simp add: searching_def)
    ultimately show ?thesis using run by auto
  next
    assume "bootstrapStep E ?b w (?t j ?b) = (Inr (Some (w\<lparr>w_ctc := ctc\<rparr>)), ?t k (?b\<lparr>bs_ctc := ctc, bs_ready := True\<rparr>))"
    moreover have "rooted E chain zero_State (?t k (?b\<lparr>bs_ctc := ctc, bs_ready := True\<rparr>))" by (simp add: rooted_def zero_State_def)
    ultimately show ?thesis using run inv' go' by auto
  qed
qed

lemma Step_searching:
  assumes hon: "honest E chain tip logs_of" and size: "c_BatchSize (en_Config E) \<noteq> 0" and hist: "history E tip logs_of Q C g"
    and found: "searchCTC E logs_of n = Inr (C g)" and start: "c_Start (en_Config E) = g + 1" and empty: "Q g = []"
    and below: "g < confirmed E tip" and at: "searching E chain n s"
  shows "\<exists>t. (\<exists>m. searchCTC E logs_of m = Inr (C g) \<and> unat m + unat (c_BatchSize (en_Config E)) = unat n \<and>
       Step E s = (Inr False, t) \<and> searching E chain m t) \<or>
     (let e = windowEndAt E (confirmed E tip) g in
      Step E s = (Inr (e = confirmed E tip), t) \<and> stands_at chain Q C e t \<and> ss_ready (sy_Status t) = (e = confirmed E tip))"
proof -
  let ?T = "confirmed E tip" and ?w = "windowAt E (confirmed E tip) zero_State g"
  let ?e = "windowEndAt E ?T g"
  from at have inv: "sync_inv zero_State [] s" and go: "going s" by (simp_all add: searching_def)
  have state: "State (sy_Store s) = Inr zero_State"
    using inv go readState_fault_free by (simp add: sync_inv_def queue_rep_def State_def going_def)
  have fatal: "ss_fatal (sy_Status s) = None" using go by (simp add: going_def)
  have w: "w_before ?w = zero_State" "w_from ?w = c_Start (en_Config E)" "c_Start (en_Config E) \<noteq> 0"
    "w_end ?w = ?e" "w_target ?w = ?T" using next_height(3) [OF below] by (simp_all add: windowAt_def start)
  have "chooseWindow (en_Config E) zero_State tip = (False, Some ?w)"
    by (rule chooseWindow_at [OF refl below]) (simp add: start zero_State_def)
  from prepareWindow_honest [OF hon state fatal _ this] obtain k where
    prep: "prepareWindow E s = (Inr (Some ?w), s\<lparr>sy_calls := k, sy_Status := (sy_Status s)\<lparr>ss_ready := False\<rparr>\<rparr>)"
    by (auto simp: zero_State_def)
  note step = Step_def bindM_def Snapshot_def fatal prep
  from initializeCTC_honest [OF hon size found w(1,2,3) searching_memory [OF at]] consider
      m t where "searchCTC E logs_of m = Inr (C g)" "unat m + unat (c_BatchSize (en_Config E)) = unat n"
        "initializeCTC E ?w (s\<lparr>sy_calls := k, sy_Status := (sy_Status s)\<lparr>ss_ready := False\<rparr>\<rparr>) = (Inr None, t)" "searching E chain m t"
    | t where "initializeCTC E ?w (s\<lparr>sy_calls := k, sy_Status := (sy_Status s)\<lparr>ss_ready := False\<rparr>\<rparr>) = (Inr (Some (?w\<lparr>w_ctc := C g\<rparr>)), t)"
        "sync_inv zero_State [] t" "going t" "rooted E chain zero_State t" by blast
  then show ?thesis
  proof cases
    case (1 m t)
    then have "Step E s = (Inr False, t)" by (simp add: step)
    with 1 show ?thesis by blast
  next
    case (2 t)
    note range = windowEndAt_range [OF below size]
    obtain logs records where dec: "windowLogs E logs_of (C g) (g + 1) ?e = Inr logs" "decodeLogs E logs (C g) (g + 1) ?e = Inr (records, C ?e)"
      "queue_append [] records = Some (Q ?e)" using historyD [OF hist order_refl range(1,2,3)] by (auto simp: empty)
    have "C ?T \<noteq> 0" using hist by (simp add: history_def)
    then obtain u where "scanAndCommit E (?w\<lparr>w_ctc := C g\<rparr>) t = (Inr (?e = ?T), u)" "stands_at chain Q C ?e u"
      "ss_ready (sy_Status u) = (?e = ?T)"
      using scanAndCommit_honest [OF hon 2(2,3,4), of "?w\<lparr>w_ctc := C g\<rparr>" logs records "C ?e" "Q ?e"] dec w start
      by (auto simp: stands_at_def)
    moreover have "Step E s = scanAndCommit E (?w\<lparr>w_ctc := C g\<rparr>) t" using 2(1) by (simp add: step)
    ultimately show ?thesis by (auto simp: Let_def)
  qed
qed

text \<open>From an empty database to the confirmed height.\<close>

lemma catch_up_fresh:
  assumes hon: "honest E chain tip logs_of" and size: "c_BatchSize (en_Config E) \<noteq> 0" and hist: "history E tip logs_of Q C g"
    and start: "c_Start (en_Config E) = g + 1" and empty: "Q g = []" and below: "g < confirmed E tip"
    and found: "searchCTC E logs_of n = Inr (C g)" and at: "searching E chain n s"
  shows "\<exists>m t. m \<le> unat n div unat (c_BatchSize (en_Config E)) +
      (unat (confirmed E tip) - unat g) div unat (c_BatchSize (en_Config E)) + 2 \<and> t = (iterate E ^^ m) s \<and>
    Run E s False t \<and> stands_at chain Q C (confirmed E tip) t \<and> ss_ready (sy_Status t)"
  using found at
proof (induction "unat n" arbitrary: n s rule: less_induct)
  case less
  let ?T = "confirmed E tip" and ?B = "unat (c_BatchSize (en_Config E))"
  let ?e = "windowEndAt E ?T g"
  have B: "0 < ?B" using size by (simp add: unat_gt_0)
  note range = windowEndAt_range [OF below size]
  from Step_searching [OF hon size hist less.prems(1) start empty below less.prems(2)] consider
      m t where "searchCTC E logs_of m = Inr (C g)" "unat m + ?B = unat n" "Step E s = (Inr False, t)" "searching E chain m t"
    | t where "Step E s = (Inr (?e = ?T), t)" "stands_at chain Q C ?e t" by (auto simp: Let_def)
  then show ?case
  proof cases
    case (1 m t)
    then have once: "runOnce E s = (Again, t)" using runOnce_ok [OF 1(3)] by (simp add: searching_def)
    from 1(2) B have "unat m < unat n" by linarith
    from less.hyps [OF this 1(1,4)] obtain j u where
      j: "j \<le> unat m div ?B + (unat ?T - unat g) div ?B + 2" "u = (iterate E ^^ j) t"
      and u: "Run E t False u" "stands_at chain Q C ?T u" "ss_ready (sy_Status u)" by blast
    have "unat n div ?B = unat m div ?B + 1" using one_batch_more [OF B, of "unat m"] 1(2) by simp
    with j(1) have "Suc j \<le> unat n div ?B + (unat ?T - unat g) div ?B + 2" by simp
    moreover have "u = (iterate E ^^ Suc j) s" using j(2) once by (simp only: funpow_Suc_right comp_apply snd_conv)
    ultimately show ?thesis using Run_first [OF u(1) once] u(2,3) by blast
  next
    case (2 t)
    then have once: "runOnce E s = (if ?e = ?T then Sleep else Again, t)" using runOnce_ok [OF 2(1)] by (simp add: stands_at_def)
    from catch_up [OF hon size history_later [OF hist less_imp_le [OF range(1)]] 2(2) range(2)] obtain j u where
      j: "j \<le> (unat ?T - unat ?e) div ?B + 1" "u = (iterate E ^^ j) t"
      and u: "Run E t False u" "stands_at chain Q C ?T u" "ss_ready (sy_Status u)" by blast
    have "unat g \<le> unat ?e" using range(1) by (simp add: word_less_nat_alt)
    then have "(unat ?T - unat ?e) div ?B \<le> (unat ?T - unat g) div ?B" by (intro div_le_mono) linarith
    with j(1) have "Suc j \<le> unat n div ?B + (unat ?T - unat g) div ?B + 2" by linarith
    moreover have "u = (iterate E ^^ Suc j) s" using j(2) once by (simp only: funpow_Suc_right comp_apply snd_conv)
    ultimately show ?thesis using Run_first [OF u(1) once] u(2,3) by (auto split: if_splits)
  qed
qed

text \<open>At the confirmed height the synchronizer stays.\<close>

lemma stays:
  assumes "honest E chain tip logs_of" "stands_at chain Q C (confirmed E tip) s" "ss_ready (sy_Status s)"
  shows "stands_at chain Q C (confirmed E tip) ((iterate E ^^ k) s) \<and> ss_ready (sy_Status ((iterate E ^^ k) s))"
proof (induction k)
  case 0
  with assms show ?case by simp
next
  case (Suc k)
  from Step_at_tip [OF assms(1) conjunct1 [OF Suc]] obtain t where t: "Step E ((iterate E ^^ k) s) = (Inr True, t)"
    "stands_at chain Q C (confirmed E tip) t" "ss_ready (sy_Status t)" by blast
  with runOnce_ok [OF t(1)] show ?case by (simp add: stands_at_def)
qed

section \<open>Properties\<close>

text \<open>C16.  Catching up: with an RPC whose answers are consistent and whose logs decode and continue
  the queue, \<open>Run\<close> on a healthy service, from a checkpoint on the chain at or below the confirmed
  height or from an empty database whose search for the first contract has an answer, is at the
  confirmed height with its queue and ready after at most one iteration for each page left
  to search, one for each batch left to scan and two more, and every later iteration leaves it there.\<close>

theorem Run_catches_up:
  assumes "honest E chain tip logs_of" and "c_BatchSize (en_Config E) \<noteq> 0" and "history E tip logs_of Q C g"
    and "stands_at chain Q C g s \<and> g \<le> confirmed E tip \<or>
      searching E chain n s \<and> searchCTC E logs_of n = Inr (C g) \<and> c_Start (en_Config E) = g + 1 \<and> Q g = [] \<and> g < confirmed E tip"
  shows "\<exists>m. m \<le> unat n div unat (c_BatchSize (en_Config E)) +
      (unat (confirmed E tip) - unat g) div unat (c_BatchSize (en_Config E)) + 2 \<and> Run E s False ((iterate E ^^ m) s) \<and>
    (\<forall>k. stands_at chain Q C (confirmed E tip) ((iterate E ^^ (k + m)) s) \<and> ss_ready (sy_Status ((iterate E ^^ (k + m)) s)))"
proof -
  let ?T = "confirmed E tip" and ?B = "unat (c_BatchSize (en_Config E))"
  from assms(4) have "\<exists>m t. m \<le> unat n div ?B + (unat ?T - unat g) div ?B + 2 \<and> t = (iterate E ^^ m) s \<and>
      Run E s False t \<and> stands_at chain Q C ?T t \<and> ss_ready (sy_Status t)"
  proof
    assume "stands_at chain Q C g s \<and> g \<le> ?T"
    with catch_up [OF assms(1,2,3), of s] obtain m t where "m \<le> (unat ?T - unat g) div ?B + 1"
      "t = (iterate E ^^ m) s" "Run E s False t" "stands_at chain Q C ?T t" "ss_ready (sy_Status t)" by blast
    then show ?thesis by (intro exI [of _ m] exI [of _ t]) simp
  next
    assume "searching E chain n s \<and> searchCTC E logs_of n = Inr (C g) \<and> c_Start (en_Config E) = g + 1 \<and> Q g = [] \<and> g < ?T"
    with catch_up_fresh [OF assms(1,2,3), of n s] show ?thesis by blast
  qed
  then obtain m where "m \<le> unat n div ?B + (unat ?T - unat g) div ?B + 2" "Run E s False ((iterate E ^^ m) s)"
    and t: "stands_at chain Q C ?T ((iterate E ^^ m) s)" "ss_ready (sy_Status ((iterate E ^^ m) s))" by blast
  with stays [OF assms(1) t] show ?thesis by (intro exI [of _ m]) (simp add: funpow_add)
qed

section \<open>Witness\<close>

text \<open>
  Batches of two blocks, the start at block 5 and the confirmed height 7: the contract was set in
  block 1, on the second page of the search, and the queue grows in block 6, in the first window.
\<close>

definition old_change :: Log where
  "old_change = sample_change\<lparr>lg_BlockNumber := 1\<rparr>"

definition ranged_logs :: "FilterQuery \<Rightarrow> Log list" where
  "ranged_logs fq = filter (\<lambda>l. fq_From fq \<le> lg_BlockNumber l \<and> lg_BlockNumber l \<le> fq_To fq)
     (if fq_Topics fq = [[200]] then [sample_enqueue] else [old_change])"

definition ranged_env :: ingest_env where
  "ranged_env = sample_env\<lparr>en_Config := sample_Config\<lparr>c_BatchSize := 2\<rparr>, en_FilterLogs := (\<lambda>k fq. Inr (ranged_logs fq))\<rparr>"

definition fresh_sync :: Syncer where
  "fresh_sync = \<lparr>sy_Store = sample_store [], sy_Status = zero_Status, sy_bootstrap = None, sy_calls = 0\<rparr>"

lemma ranged_simps:
  "c_BatchSize (en_Config ranged_env) = 2" "c_Start (en_Config ranged_env) = 5" "confirmed ranged_env 9 = 7"
  "addressQuery ranged_env = addressQuery sample_env" "ev_ID (en_Enqueued ranged_env) = 200"
  by (simp_all add: ranged_env_def sample_env_def sample_Config_def confirmed_def addressQuery_def fun_eq_iff)

lemma ranged_honest: "honest ranged_env (\<lambda>_. 77) 9 ranged_logs"
  by (simp add: honest_def ranged_env_def sample_env_def)

lemma ranged_addresses: "ranged_logs (addressQuery sample_env from n) = (if from \<le> 1 \<and> 1 \<le> n then [old_change] else [])"
  by (auto simp: ranged_logs_def addressQuery_def sample_env_def old_change_def)

lemma ranged_decode_change: "decodeBootstrapPage ranged_env \<lparr>pg_from = 1, pg_end = 2, pg_logs = [old_change]\<rparr> = Inr 9"
  by (simp add: decodeBootstrapPage_def decodeLogs_def decodeLog_def validateLog_def ranged_env_def sample_env_def sample_Config_def
      old_change_def sample_change_def sort_logs_def unpack_def Let_def)

lemma ranged_check_change: "checkAddressLog ranged_env msg 1 2 old_change = Inr 9"
  by (simp add: checkAddressLog_def validateLog_def ranged_env_def sample_env_def sample_Config_def
      old_change_def sample_change_def unpack_def)

lemma ranged_search: "searchCTC ranged_env ranged_logs 4 = Inr 9"
proof -
  have none: "\<not> (3 :: u64) \<le> 1" by (simp add: word_le_nat_alt)
  have "decodeBootstrapPage ranged_env \<lparr>pg_from = 3, pg_end = 4, pg_logs = []\<rparr> = Inr 0" by (simp add: decodeBootstrapPage_def)
  with none show ?thesis
    by (simp add: searchCTC.simps [of _ _ 4] searchCTC.simps [of _ _ 2] ranged_simps ranged_addresses
        ranged_check_change ranged_decode_change word_le_nat_alt)
qed

lemma ranged_decode:
  assumes "from \<le> 6" "6 \<le> e"
  shows "decodeLogs ranged_env [sample_enqueue] 9 from e = Inr ([live_record], 9)"
proof -
  have "Decode ranged_env sample_enqueue = Inr (live_record, 1088)"
    by (simp add: ranged_env_def live_record_def Decode_def sample_enqueue_def sample_env_def unpack_def IsUint64_def
        Let_def drop_small)
  moreover have "en_sort ranged_env [sample_enqueue] = [sample_enqueue]"
    by (simp add: ranged_env_def sample_env_def sort_logs_def)
  moreover have "\<not> 6 < from" "\<not> e < 6" using assms by simp_all
  ultimately show ?thesis
    by (simp add: decodeLogs_def decodeLog_def validateLog_def)
      (simp add: sample_enqueue_def ranged_env_def sample_env_def sample_Config_def)
qed

lemma ranged_decode_nothing: "decodeLogs ranged_env [] 9 from e = Inr ([], 9)"
  by (simp add: decodeLogs_def ranged_env_def sample_env_def sort_logs_def)

lemma ranged_window:
  assumes "\<not> from \<le> 1"
  shows "windowLogs ranged_env ranged_logs 9 from e = Inr (if from \<le> 6 \<and> 6 \<le> e then [sample_enqueue] else [])"
  using assms by (simp add: windowLogs_def ranged_simps ranged_addresses) (simp add: ranged_logs_def sample_enqueue_def)

definition ranged_queue :: "u64 \<Rightarrow> Record list" where
  "ranged_queue n = (if n < 6 then [] else [live_record])"

lemma ranged_history: "history ranged_env 9 ranged_logs ranged_queue (\<lambda>_. 9) 4"
proof -
  have "\<exists>logs records. windowLogs ranged_env ranged_logs 9 (m + 1) e = Inr logs \<and>
      decodeLogs ranged_env logs 9 (m + 1) e = Inr (records, 9) \<and> queue_append (ranged_queue m) records = Some (ranged_queue e)"
    if "4 \<le> m" "m < e" "e \<le> 7" for m e :: u64
  proof -
    have m: "unat (m + 1) = Suc (unat m)" "4 \<le> unat m" "unat m < unat e" "unat e \<le> 7"
      using that by (simp_all add: word_le_nat_alt word_less_nat_alt unat_add_lem [THEN iffD1])
    then have "\<not> m + 1 \<le> 1" by (simp add: word_le_nat_alt)
    note logs = ranged_window [OF this]
    show ?thesis
    proof (cases "m + 1 \<le> 6 \<and> 6 \<le> e")
      case True
      moreover from this m have "m < 6" "\<not> e < 6" by (simp_all add: word_le_nat_alt word_less_nat_alt)
      ultimately show ?thesis using live_append by (simp add: logs ranged_decode ranged_queue_def)
    next
      case False
      with m have "m < 6 \<longleftrightarrow> e < 6" by (auto simp: word_le_nat_alt word_less_nat_alt)
      with False show ?thesis by (auto simp: logs ranged_decode_nothing ranged_queue_def)
    qed
  qed
  then show ?thesis by (simp add: history_def ranged_simps)
qed

lemma fresh_searching: "searching ranged_env (\<lambda>_. 77) 4 fresh_sync"
proof -
  have "queue_rep (s_db (sy_Store fresh_sync)) zero_State []"
    by (simp add: fresh_sync_def queue_rep_def queue_at_def state_of_def latest_of_def dict_ok_def zero_State_def)
  then show ?thesis
    by (simp add: searching_def sync_inv_def going_def ranged_simps) (simp add: fresh_sync_def status_inv_def zero_Status_def)
qed

theorem Run_catches_up_witness:
  "\<exists>m. m \<le> 5 \<and> Run ranged_env fresh_sync False ((iterate ranged_env ^^ m) fresh_sync) \<and>
    (\<forall>k. stands_at (\<lambda>_. 77) ranged_queue (\<lambda>_. 9) 7 ((iterate ranged_env ^^ (k + m)) fresh_sync) \<and>
      ss_ready (sy_Status ((iterate ranged_env ^^ (k + m)) fresh_sync)))"
proof -
  have "searching ranged_env (\<lambda>_. 77) 4 fresh_sync \<and> searchCTC ranged_env ranged_logs 4 = Inr 9 \<and>
      c_Start (en_Config ranged_env) = 4 + 1 \<and> ranged_queue 4 = [] \<and> 4 < confirmed ranged_env 9"
    by (simp add: fresh_searching ranged_search ranged_simps ranged_queue_def word_less_nat_alt)
  from Run_catches_up [OF ranged_honest _ ranged_history disjI2 [OF this]] show ?thesis by (simp add: ranged_simps)
qed

end
