(* ===== verification/Spec2Isabelle.thy ===== *)
theory Spec2Isabelle
  imports Delivery BlobLive CatchUp
begin

text \<open>
  Verification of metis-l1dtl, the L1 data transport service of Metis.

  \<^bold>\<open>The program.\<close>  The service follows an L1 chain and serves what the L2 node needs from
  it.  A deposit synchronizer (\<open>internal/ingest\<close>) reads confirmed blocks window by window,
  decodes the events of the CanonicalTransactionChain and appends deposits to a queue.  An optional
  Blob synchronizer (\<open>internal/blobingest\<close>) tracks which senders are authorized, scans the
  blocks for Inbox submissions, fetches the Blobs they refer to from a Beacon node and decodes
  them (\<open>internal/blob\<close>) into channels of L2 blocks, which it keeps for a retention period.
  Both commit to one Pebble database (\<open>internal/store\<close>), each to its own namespace, and
  share a status (\<open>internal/ingest/status.go\<close>) through which a fatal error stops all
  commits.  The HTTP API (\<open>internal/server\<close>) reads the database and the status.
  \<open>cmd/metis-l1dtl\<close> starts the parts and ends them in order, after \<open>internal/config\<close>
  has validated the flags.

  \<^bold>\<open>Shared theories.\<close>
  \<^item> \<open>Prelude\<close>: Go integers, bytes, addresses and hashes; errors as values (a sentinel for
    \<open>errors.Is\<close>, a message, wrapped errors); \<open>bindE\<close> for early return, \<open>foldE\<close> for
    loops with early return; methods with a mutable receiver (\<open>bindM\<close>, \<open>throw\<close>,
    \<open>modifyM\<close>).  The locale \<open>kept\<close> says what a reflexive and transitive relation
    between states gives for programs: what every part keeps, the whole keeps.
  \<^item> \<open>Bytes\<close>: big-endian encodings, their round trips, and that key order is numeric order.
  \<^item> \<open>Strconv\<close> and \<open>Flags\<close>: the parts of the Go library that read numbers, durations and
    command lines (\<open>strconv\<close>, \<open>time.ParseDuration\<close>, \<open>flag\<close>), with the round trips of what
    is printed.
  \<^item> \<open>Dict\<close>: ordered dictionaries behind the locale \<open>ordered_dict\<close>; they represent the
    contents of the database and Go maps.

  \<^bold>\<open>Store\<close> (\<open>internal/store\<close>).
  \<^item> \<open>Types\<close> has the records of \<open>types.go\<close> and \<open>blob_types.go\<close>.
  \<^item> \<open>Store\<close> models \<open>store.go\<close>, \<open>identity.go\<close>, \<open>read.go\<close> and
    \<open>commit.go\<close>.  \<open>queue_rep\<close> says that a database holds a checkpoint and a list of
    deposits; \<open>Commit\<close> refines the append-only queue and \<open>Get\<close> reads it.
  \<^item> \<open>BlobStore\<close> models \<open>blob.go\<close>.  \<open>BlobView\<close> has the abstract view (retained
    transactions, channels and blocks with the invariant \<open>view_ok\<close>) and its operations, of
    which adding refuses a conflicting record and pruning a channel that lists a block twice;
    \<open>BlobCommit\<close> and \<open>BlobReads\<close> show that \<open>CommitBlob\<close>, \<open>GetBlock\<close> and
    \<open>InitBlob\<close> implement it, in which case a read fails, which blocks retention keeps, when a commit succeeds, and that
    the two namespaces do not disturb each other.

  \<^bold>\<open>Status and configuration.\<close>
  \<^item> \<open>Status\<close>: every method is one atomic step (the mutex); the reachable states are an
    inductive predicate; no call panics by closing the halt channel twice; after a fatal error
    no commit callback runs.
  \<^item> \<open>Config\<close>: the flags and \<open>Parse\<close>; every configuration it returns is one the program can
    run with, and every such configuration has command lines that it reads back.

  \<^bold>\<open>Deposit synchronizer\<close> (\<open>internal/ingest\<close>).
  \<^item> \<open>Ingest\<close> models \<open>abi.go\<close>, \<open>decode.go\<close>, \<open>ingest.go\<close>, \<open>bootstrap.go\<close>
    and \<open>syncer_step.go\<close>.
  \<^item> \<open>SyncParts\<close>: what the parts of a step keep, for any relation that allows remote calls
    (locale \<open>sync_kept\<close>) and commits (\<open>sync_steps\<close>).
  \<^item> \<open>IngestDecode\<close>: what the logs of a window mean.  The locale \<open>slice_sort\<close> is the
    contract of a sort, interpreted for the sort of the logs.
  \<^item> \<open>IngestStep\<close>: a step changes the queue only by one atomic commit of what the RPC's logs of
    its window mean; over a run the queue only grows and the checkpoint never moves back.
  \<^item> \<open>IngestLive\<close>: a consistent RPC gives progress, a reorganisation halts the loop, the
    search for the first contract moves on.
  \<^item> \<open>CatchUp\<close>: what the pages of that search lead to (\<open>searchCTC\<close>), and that \<open>Run\<close>
    reaches the confirmed height from an empty database or from a checkpoint, within a bound on
    its iterations, and stays there.

  \<^bold>\<open>Blob decoding\<close> (\<open>internal/blob\<close>).
  \<^item> \<open>BlobCodec\<close>: unpacking of Blobs and splitting into frames (\<open>frames.go\<close>) with
    encoders in both directions, and no access out of range.
  \<^item> \<open>Span\<close>, \<open>SpanRead\<close>, \<open>SpanWire\<close>: the span decoder (\<open>span.go\<close>) as a program
    of the state monad, the laws of its readers, and the wire format with its round trip.
  \<^item> \<open>Frames\<close>: collection of frames into channels (\<open>frames.go\<close>), described without maps
    and independent of the order of arrival; decoded channels pass the checks of the store.
  \<^item> \<open>Beacon\<close>: the client of the Beacon API (\<open>beacon.go\<close>); returned frames belong to the
    wanted hashes, slot numbers are exact.
  \<^item> \<open>Pipeline\<close>: the decoders put together.  What a publisher compresses, cuts into frames
    and packs into Blobs arrives as one channel with the same blocks, whatever Blobs and
    transactions carry the frames and in whatever order.

  \<^bold>\<open>Blob synchronizer\<close> (\<open>internal/blobingest\<close>).
  \<^item> \<open>Auth\<close>: schedules of senders (\<open>auth.go\<close>), their events, storage and lookup.
  \<^item> \<open>BlobScan\<close>: the log queries of \<open>auth.go\<close> and the scan of \<open>scan.go\<close>;
    \<open>ScanSafe\<close>: a scan returns only authorized channels.
  \<^item> \<open>BlobParts\<close>: the counterpart of \<open>SyncParts\<close> (locales \<open>blob_kept\<close> and
    \<open>blob_steps\<close>).
  \<^item> \<open>BlobStep\<close>: step and loop (\<open>syncer.go\<close>); \<open>BlobRuns\<close>: a step changes the
    namespace only by an advance of retention or one atomic window, nothing moves back, and the
    stored authorization can be loaded again; \<open>BlobLive\<close>: a consistent RPC and a readable
    window give progress, a changed anchor halts the loop.

  \<^bold>\<open>Server and program.\<close>
  \<^item> \<open>Server\<close>: routes, guard and endpoints; data routes fail closed, return what the queue
    and the view hold, and record the error of a failing read.
  \<^item> \<open>Service\<close>: the start establishes the invariants of both synchronizers; the life of
    \<open>serve\<close> is a step relation, in which the database is closed only after every worker has
    returned; health check, the choice of the command and the exit code.
  \<^item> \<open>System\<close>: the composition.  The atomic actions of each component on the shared store and
    status; every run is an interleaving of its own actions with those of the others; the
    invariant of the whole service.
  \<^item> \<open>Delivery\<close>: from the commit of a channel to its readers.  Whatever runs in between, an answer
    once given stays the same until retention ends, and a published channel is served block by
    block.  A channel that lists a block twice is stored like any other but cannot be expired, and
    then no commit can advance the cutoff past it.  The other properties that span components follow below.

  \<^bold>\<open>Concurrency.\<close>  The mutexes make each method of the store and of the status atomic.  The
  synchronizers and the server are programs over their own state; at every remote call the other
  goroutines may change the parts of the shared store and of the status that are not theirs
  (\<open>en_others\<close>, \<open>bx_others\<close>, \<open>sv_others\<close>), under the hypothesis that they stay
  within their namespace and call the methods of the status.  \<open>components_compose\<close> discharges
  the hypothesis: whatever the others do, a component changes the shared state only by its own
  atomic actions, and these are what the others assume.

  \<^bold>\<open>Parameters.\<close>  Code outside the repository is an argument of the definitions that use
  it: the execution RPC (its answers depend on the number of calls made before, so a chain
  reorganisation between two calls is covered), the Beacon HTTP client, JSON text (a stored
  document is the value it encodes), the contract ABI, RLP, decompression, KZG commitments,
  go-ethereum transactions, \<open>hexutil\<close>, \<open>url.Parse\<close> and \<open>float64\<close> arithmetic.  Pebble is its
  contents with a flag for every call that fails.  Go maps are ordered dictionaries; where the
  source iterates over one without sorting, the lookup of the sender in charge, the result is
  proved to be the same in any order.

  \<^bold>\<open>Bounds and termination.\<close>  Integers keep their width (\<open>u64\<close> wraps, \<open>big.Int\<close> is
  \<open>int\<close> or \<open>nat\<close>).  The loops over data recurse over lists or bytes with a decreasing
  length.  Only the loop over the spans of a channel has fuel: it starts with one
  more than the number of bytes, every span consumes at least one, and \<open>decodeChannel_returns\<close>
  shows that it never runs out.  Loops over block heights go through the
  list of heights of the window, which the validated batch size bounds.  \<open>Run\<close> of both
  synchronizers may go on forever and is an inductive relation between states.

  \<^bold>\<open>Not modelled.\<close>  Logging, timers and their backoff, signals, the listener and the timeouts
  of the HTTP server, the help text of the flags and the text of JSON, the integration tests and the generator of
  their data (\<open>integration/e2e/testdata/generate.go\<close>).  Contexts appear as failing calls, as
  the check before a commit and as the end of a run.
\<close>

section \<open>Properties across components\<close>

text \<open>C1.
  The service from its start to the close of the database, with any interleaving of commits,
  status calls, failing requests and phases of the shutdown.  In every reachable state the
  database holds a well-formed deposit queue and, with Blob ingestion, a Blob namespace with a
  checkpoint and a view that satisfies its invariant; every call of \<open>Set\<close> on the status
  returns, so none panics by closing the halt channel again; the database is closed only after
  every worker has returned.  From any such state on, the queue only grows at its end, and a
  recorded fatal error stays and freezes the database.\<close>

theorem service_safe:
  assumes "fault_free disk" and "pb_data disk = []" and "fst (startService E c disk) = Inr (n, db, status)"
    and "(system_step c)\<^sup>*\<^sup>* (serving n, (db, status)) (s, (st, ss))"
  shows "(\<exists>a q. queue_rep (s_db st) a q) \<and> (BlobEnabled c \<longrightarrow> (\<exists>b V. blob_inv (s_db st) b V)) \<and>
    (\<forall>flag err. \<exists>ss'. setStatus flag err ss = Some ss') \<and>
    (s_closed st \<longrightarrow> sl_workers s = 0 \<and> sl_cancelled s) \<and>
    (\<forall>t st' ss'. (system_step c)\<^sup>*\<^sup>* (s, (st, ss)) (t, (st', ss')) \<longrightarrow>
      (\<forall>a q. queue_rep (s_db st) a q \<longrightarrow> (\<exists>a' rest. queue_rep (s_db st') a' (q @ rest))) \<and>
      (\<forall>e. ss_fatal ss = Some e \<longrightarrow> ss_fatal ss' = Some e \<and> s_db st' = s_db st))"
proof -
  have inv: "system_inv n c (s, (st, ss))"
    using system_inv_run [OF assms(4) system_inv_start [OF assms(1-3)]] .
  have later: "progresses (st, ss) (st', ss')" if "(system_step c)\<^sup>*\<^sup>* (s, (st, ss)) (t, (st', ss'))" for t st' ss'
    using system_progresses [OF that inv] by simp
  from inv serve_safe have closed: "s_closed st \<longrightarrow> sl_workers s = 0 \<and> sl_cancelled s" by (fastforce simp: system_inv_def)
  from inv have queue: "\<exists>a q. queue_rep (s_db st) a q" and blobs: "BlobEnabled c \<longrightarrow> (\<exists>b V. blob_inv (s_db st) b V)"
    and status: "status_inv ss" by (auto simp: system_inv_def known_at_def db_at_def)
  from later have "(\<forall>a q. queue_rep (s_db st) a q \<longrightarrow> (\<exists>a' rest. queue_rep (s_db st') a' (q @ rest))) \<and>
      (\<forall>e. ss_fatal ss = Some e \<longrightarrow> ss_fatal ss' = Some e \<and> s_db st' = s_db st)"
    if "(system_step c)\<^sup>*\<^sup>* (s, (st, ss)) (t, (st', ss'))" for t st' ss'
    using that status unfolding progresses_def fst_conv snd_conv by blast
  with queue blobs system_no_panic [OF inv] closed show ?thesis by blast
qed

text \<open>C2.
  Each component does what the others assume of it.  Whatever actions \<open>A\<close> the others take
  during its remote calls, every run of a synchronizer and every request is an interleaving of
  \<open>A\<close> with its own atomic actions and changes the shared state in no other way.  If the others
  are the other components of the service, they satisfy the assumption under which the component
  was verified.\<close>

theorem components_compose:
  "((\<forall>k x. A\<^sup>*\<^sup>* x (en_others E k x)) \<longrightarrow>
      (Run E s b s' \<longrightarrow> (sup deposit_action A)\<^sup>*\<^sup>* (sy_Store s, sy_Status s) (sy_Store s', sy_Status s')) \<and>
      (A = sup blob_action server_action \<longrightarrow> others_ok E)) \<and>
   ((\<forall>k x. A\<^sup>*\<^sup>* x (bx_others F k x)) \<longrightarrow>
      (BlobRun F u b u' \<longrightarrow> (sup blob_action A)\<^sup>*\<^sup>* (by_Store u, by_Status u) (by_Store u', by_Status u')) \<and>
      (A = sup deposit_action server_action \<longrightarrow> blob_others_ok F)) \<and>
   ((\<forall>k x. A\<^sup>*\<^sup>* x (sv_others G k x)) \<longrightarrow>
      (ServeHTTP G r v = (resp, v') \<longrightarrow> (sup server_action A)\<^sup>*\<^sup>* (sr_Store v, sr_Status v) (sr_Store v', sr_Status v')) \<and>
      (A = sup deposit_action blob_action \<longrightarrow> server_others_ok G))"
proof (intro conjI impI)
  assume E: "\<forall>k x. A\<^sup>*\<^sup>* x (en_others E k x)"
  show "(sup deposit_action A)\<^sup>*\<^sup>* (sy_Store s, sy_Status s) (sy_Store s', sy_Status s')" if "Run E s b s'"
    using dm.Run_part [OF that] E by (simp add: syncer_mixes_def mixes_def)
  show "others_ok E" if "A = sup blob_action server_action"
    using E spares_deposits_many unfolding that others_ok_def spares_deposits_def by (metis fst_conv snd_conv)
next
  assume F: "\<forall>k x. A\<^sup>*\<^sup>* x (bx_others F k x)"
  show "(sup blob_action A)\<^sup>*\<^sup>* (by_Store u, by_Status u) (by_Store u', by_Status u')" if "BlobRun F u b u'"
    using bm.BlobRun_part [OF that] F by (simp add: blob_mixes_def mixes_def)
  show "blob_others_ok F" if "A = sup deposit_action server_action"
    using F spares_blobs_many unfolding that blob_others_ok_def spares_blobs_def by (metis fst_conv snd_conv)
next
  assume G: "\<forall>k x. A\<^sup>*\<^sup>* x (sv_others G k x)"
  show "(sup server_action A)\<^sup>*\<^sup>* (sr_Store v, sr_Status v) (sr_Store v', sr_Status v')" if "ServeHTTP G r v = (resp, v')"
    using sm.ServeHTTP_part [of G v r] that G by (simp add: server_mixes_def mixes_def)
  show "server_others_ok G" if "A = sup deposit_action blob_action"
    using G status_many unfolding that server_others_ok_def by (metis snd_conv)
qed

text \<open>C5.
  A reorganisation below a checkpoint halts the service.  If the RPC returns another block at the
  checkpoint height, an iteration of the deposit synchronizer ends its loop with the queue
  untouched.  If it returns another block at any anchor of the Blob synchronizer, the retention
  anchor or the scan checkpoint, so does an iteration of that loop with the Blob namespace
  untouched; the anchors checked before it are unchanged.  In every case a fatal error is recorded
  and the service is not ready any more.\<close>

theorem reorganisation_halts:
  "(others_ok E \<and> c_BatchSize (en_Config E) \<noteq> 0 \<and> sync_inv st q s \<and> ss_fatal (sy_Status s) = None \<and>
      \<not> s_closed (sy_Store s) \<and> fault_free (s_db (sy_Store s)) \<and> st_Height st = Some n \<and>
      en_HeaderByNumber E (sy_calls s) (Some n) = Inr (Some hdr) \<and> hd_Number hdr = Some (uint n) \<and> hd_Hash hdr \<noteq> st_Hash st \<longrightarrow>
    (\<exists>s'. runOnce E s = (Stop, s') \<and> sync_inv st q s' \<and> ss_fatal (sy_Status s') \<noteq> None \<and> \<not> fst (Snapshot (sy_Status s')))) \<and>
   (blob_others_ok F \<and> rep_at bst Vo u \<and> ss_fatal (by_Status u) = None \<and>
      \<not> s_closed (by_Store u) \<and> fault_free (s_db (by_Store u)) \<and> anchors bst = before @ (m, x) # after \<and>
      (\<forall>j < length before. unchanged F (by_calls u + j) (before ! j)) \<and>
      header_at F (by_calls u + length before) m bhdr \<and> bh_Hash bhdr \<noteq> x \<longrightarrow>
    (\<exists>u'. blobRunOnce F u = (Stop, u') \<and> rep_at bst Vo u' \<and> ss_fatal (by_Status u') \<noteq> None \<and> \<not> fst (Snapshot (by_Status u'))))"
  using reorg_halts [of E st q s n hdr] blob_reorg [of F bst Vo u before m x after bhdr] by blast

section \<open>Witnesses\<close>

theorem service_safe_witness:
  "\<exists>n db status st ss. fst (startService sample_service (sv_Config sample_server_env) (sample_pebble [])) = Inr (n, db, status) \<and>
     setStatus False (Some (Err ErrFatal ''x'')) status = Some ss \<and>
     (system_step (sv_Config sample_server_env))\<^sup>*\<^sup>* (serving n, (db, status)) (serving n, (db, ss)) \<and>
     (\<exists>a q. queue_rep (s_db db) a q) \<and> (\<exists>b V. blob_inv (s_db db) b V) \<and> setStatus True None ss \<noteq> None"
proof -
  let ?c = "sv_Config sample_server_env"
  have disk: "fault_free (sample_pebble [])" "pb_data (sample_pebble []) = []" by (simp_all add: sample_pebble_def fault_free_def)
  have "\<exists>x. fst (startService sample_service ?c (sample_pebble [])) = Inr x"
    unfolding start_facts(1) [OF disk] validateL1_Inr by (simp add: sample_service_def sample_server_env_def)
  then obtain n db status where run: "fst (startService sample_service ?c (sample_pebble [])) = Inr (n, db, status)" by auto
  from system_inv_start [OF disk run] have "status_inv status" by (auto simp: system_inv_def)
  then obtain ss where set: "setStatus False (Some (Err ErrFatal ''x'')) status = Some ss" using status_inv_set by blast
  have path: "(system_step ?c)\<^sup>*\<^sup>* (serving n, (db, status)) (serving n, (db, ss))"
    using system_step.request [OF server_action.fatal [OF set]] by (rule r_into_rtranclp)
  from service_safe [OF disk run path] run set path show ?thesis
    by (auto simp: BlobEnabled_def sample_server_env_def)
qed

theorem components_compose_witness:
  "\<exists>n t m w. runOnce live_env (sample_sync 77) = (n, t) \<and> others_ok live_env \<and>
     deposit_action\<^sup>*\<^sup>* (sy_Store (sample_sync 77), sy_Status (sample_sync 77)) (sy_Store t, sy_Status t) \<and>
     blobRunOnce scan_env run_syncer = (m, w) \<and>
     blob_action\<^sup>*\<^sup>* (by_Store run_syncer, by_Status run_syncer) (by_Store w, by_Status w) \<and>
     server_others_ok sample_server_env"
proof -
  obtain n t where once: "runOnce live_env (sample_sync 77) = (n, t)" by force
  have run: "Run live_env (sample_sync 77) (n = Stop) t" by (rule Run.go [OF Run.start once])
  obtain m w where blob: "blobRunOnce scan_env run_syncer = (m, w)" by force
  have brun: "BlobRun scan_env run_syncer (m = Stop) w"
    by (rule BlobRun.go [OF BlobRun.start _ blob]) (simp add: scan_env_def)
  have id: "en_others live_env k x = x" "bx_others scan_env k x = x" "sv_others sample_server_env k x = x" for k x
    by (simp_all add: live_env_def sample_env_def scan_env_def sample_server_env_def)
  have "deposit_action\<^sup>*\<^sup>* (sy_Store (sample_sync 77), sy_Status (sample_sync 77)) (sy_Store t, sy_Status t)"
    using components_compose [where A = bot and E = live_env] run id by auto
  moreover have "blob_action\<^sup>*\<^sup>* (by_Store run_syncer, by_Status run_syncer) (by_Store w, by_Status w)"
    using components_compose [where A = bot and F = scan_env] brun id by auto
  moreover have "others_ok live_env"
    using components_compose [where A = "sup blob_action server_action" and E = live_env] id by auto
  moreover have "server_others_ok sample_server_env"
    using components_compose [where A = "sup deposit_action blob_action" and G = sample_server_env] id by auto
  ultimately show ?thesis using once blob by blast
qed

definition anchored_state :: BlobState where
  "anchored_state = run_state\<lparr>bst_RetentionHeight := Some 30, bst_RetentionHash := 2\<rparr>"

definition anchored_syncer :: BlobSyncer where
  "anchored_syncer = run_syncer\<lparr>by_Store := sample_store [(blobStateKey, BlobStateDoc anchored_state)]\<rparr>"

lemma anchored_rep: "rep_at anchored_state None anchored_syncer"
  by (simp add: rep_at_def anchored_syncer_def run_syncer_def scan_syncer_def dict_ok_def status_inv_def zero_Status_def)

text \<open>Both loops halt; in the Blob loop the retention anchor is on the chain and the scan checkpoint is not.\<close>

theorem reorganisation_halts_witness:
  "(\<exists>s'. runOnce live_env (sample_sync 78) = (Stop, s') \<and> ss_fatal (sy_Status s') \<noteq> None) \<and>
   unchanged live_blobs 0 (30, 2) \<and>
   (\<exists>u'. blobRunOnce live_blobs anchored_syncer = (Stop, u') \<and> rep_at anchored_state None u' \<and> ss_fatal (by_Status u') \<noteq> None)"
proof -
  have dep: "en_HeaderByNumber live_env 0 (Some 5) = Inr (Some \<lparr>hd_Number = Some (uint (5 :: u64)), hd_Hash = 77\<rparr>)"
    by (simp add: live_env_def sample_env_def)
  have head: "header_at live_blobs k n (live_head n)" for k n
    by (simp add: header_at_def live_blobs_def live_head_def)
  have blob: "by_calls anchored_syncer = 0" "ss_fatal (by_Status anchored_syncer) = None" "\<not> s_closed (by_Store anchored_syncer)"
    "fault_free (s_db (by_Store anchored_syncer))"
    by (simp_all add: anchored_syncer_def run_syncer_def scan_syncer_def zero_Status_def)
  have others: "blob_others_ok live_blobs"
    by (simp add: blob_others_ok_def keeps_blob_def live_blobs_def scan_env_def status_run.same)
  have first: "unchanged live_blobs 0 (30, 2)" unfolding unchanged_def using head [of 0 30] by (auto simp: live_head_def)
  have anchors: "anchors anchored_state = [(30, 2)] @ (39, 41) # []" by (simp add: anchors_def anchored_state_def run_state_def)
  note halts = reorganisation_halts [of live_env "sample_checkpoint 78" "[]" "sample_sync 78" 5
    "\<lparr>hd_Number = Some (uint (5 :: u64)), hd_Hash = 77\<rparr>" live_blobs anchored_state None anchored_syncer "[(30, 2)]" 39 41 "[]" "live_head 39"]
  have "\<exists>s'. runOnce live_env (sample_sync 78) = (Stop, s') \<and> ss_fatal (sy_Status s') \<noteq> None"
    using conjunct1 [OF halts] dep honest_others [OF live_honest] live_size sample_sync_inv by (simp add: sample_checkpoint_def) blast
  moreover have "bh_Hash (live_head 39) \<noteq> 41" by (simp add: live_head_def)
  with conjunct2 [OF halts] blob others first anchors head anchored_rep
  have "\<exists>u'. blobRunOnce live_blobs anchored_syncer = (Stop, u') \<and> rep_at anchored_state None u' \<and> ss_fatal (by_Status u') \<noteq> None"
    by auto
  ultimately show ?thesis using first by blast
qed

end
